(* ===== verification/LockDb_Prelude.thy ===== *)
theory LockDb_Prelude
  imports Main "HOL-Library.Word" "HOL-Library.Finite_Map" "HOL-Library.Multiset"
begin

text \<open>
  Shared vocabulary of the development: the machine integers of the crate, the parts of the Rust
  standard library the crate calls (\<open>Vec\<close>, \<open>slice::iter().position\<close>, \<open>HashMap\<close>, \<open>Result\<close>), the
  lemma collections the component theories extend, and two generic interfaces: a machine whose
  steps keep an invariant, and runs of guarded steps.

  A \<open>HashMap\<close> is a finite map: its keys are unordered, so every operation of the crate that
  iterates over one takes the iteration order as an argument (see \<open>key_order\<close>).  A \<open>Vec\<close> is a list with
  its last element at the end.  \<open>Result<T, E>\<close> is a sum, \<open>Err\<close> on the left and \<open>Ok\<close> on the right.
\<close>

section \<open>Lemma collections\<close>

named_theorems mode_simps \<open>the compatibility and join tables, entry by entry\<close>
named_theorems vec_simps \<open>equations for the Vec operations\<close>
named_theorems map_simps \<open>lookups after an update of a HashMap\<close>

section \<open>Machine integers and results\<close>

type_synonym u8 = "8 word"
type_synonym u32 = "32 word"
type_synonym u64 = "64 word"

text \<open>The crate is modelled on a 64-bit target.\<close>

type_synonym usize = "64 word"

abbreviation Ok :: "'a \<Rightarrow> 'e + 'a" where
  "Ok \<equiv> Inr"

abbreviation Err :: "'e \<Rightarrow> 'e + 'a" where
  "Err \<equiv> Inl"

section \<open>Vec\<close>

subsection \<open>The first position of an element\<close>

text \<open>\<open>xs.iter().position(p)\<close>: the index of the first element that satisfies \<open>p\<close>.\<close>

primrec position :: "('a \<Rightarrow> bool) \<Rightarrow> 'a list \<Rightarrow> nat option" where
  "position p [] = None"
| "position p (x # xs) = (if p x then Some 0 else map_option Suc (position p xs))"

lemma position_None [simp]: "position p xs = None \<longleftrightarrow> (\<forall>x \<in> set xs. \<not> p x)"
  by (induction xs) auto

lemma position_SomeD:
  "position p xs = Some i \<Longrightarrow> i < length xs \<and> p (xs ! i) \<and> (\<forall>j < i. \<not> p (xs ! j))"
proof (induction xs arbitrary: i)
  case (Cons x xs)
  show ?case
  proof (cases "p x")
    case False
    with Cons.prems obtain k where "position p xs = Some k" "i = Suc k" by auto
    with Cons.IH [of k] False show ?thesis by (auto simp: less_Suc_eq_0_disj)
  qed (use Cons.prems in simp)
qed simp

lemma position_Some_less: "position p xs = Some i \<Longrightarrow> i < length xs"
  by (drule position_SomeD) simp

lemma position_Some_holds: "position p xs = Some i \<Longrightarrow> p (xs ! i)"
  by (drule position_SomeD) simp

lemma position_Some_nth_mem: "position p xs = Some i \<Longrightarrow> xs ! i \<in> set xs"
  by (drule position_SomeD) simp

lemma position_exists: "x \<in> set xs \<Longrightarrow> p x \<Longrightarrow> \<exists>i. position p xs = Some i"
  by (cases "position p xs") auto

subsection \<open>Removing an element by swapping in the last one\<close>

text \<open>
  \<open>Vec::swap_remove(i)\<close> moves the last element to index \<open>i\<close> and shortens the vector by one.  It
  panics when \<open>i\<close> is out of range; the crate only calls it with an index that \<open>position\<close> has just
  returned, which is in range (\<open>position_Some_less\<close>).
\<close>

definition swap_remove :: "nat \<Rightarrow> 'a list \<Rightarrow> 'a list" where
  "swap_remove i xs = butlast (xs[i := last xs])"

lemma swap_remove_split:
  "i < length xs \<Longrightarrow> swap_remove i xs =
     (if Suc i = length xs then butlast xs else (butlast xs)[i := last xs])"
  by (auto simp: swap_remove_def butlast_list_update list_update_same_conv)

lemma length_swap_remove [simp, vec_simps]: "length (swap_remove i xs) = length xs - 1"
  by (simp add: swap_remove_def)

lemma mset_swap_remove [vec_simps]:
  assumes "i < length xs"
  shows "mset (swap_remove i xs) = mset xs - {#xs ! i#}"
proof -
  from assms obtain ys y where xs: "xs = ys @ [y]"
    by (cases xs rule: rev_cases) auto
  show ?thesis
  proof (cases "i = length ys")
    case True
    with xs show ?thesis by (simp add: swap_remove_def)
  next
    case False
    with assms xs have i: "i < length ys" by simp
    then have "mset (swap_remove i xs) = add_mset y (mset ys - {#ys ! i#})"
      using xs by (simp add: swap_remove_def list_update_append mset_update)
    also have "\<dots> = add_mset y (mset ys) - {#ys ! i#}"
      using i by (simp add: diff_union_swap2)
    finally show ?thesis using xs i by (simp add: nth_append)
  qed
qed

lemma set_swap_remove_subset: "i < length xs \<Longrightarrow> set (swap_remove i xs) \<subseteq> set xs"
  using in_diffD by (fastforce simp: mset_swap_remove simp flip: set_mset_mset)

lemma swap_remove_eq_Nil [simp]: "swap_remove i xs = [] \<longleftrightarrow> length xs \<le> 1"
  by (metis One_nat_def diff_is_0_eq length_0_conv length_swap_remove)

lemma distinct_map_swap_remove:
  assumes "distinct (map f xs)" and "i < length xs"
  shows "distinct (map f (swap_remove i xs))"
    and "set (swap_remove i xs) = {x \<in> set xs. f x \<noteq> f (xs ! i)}"
proof -
  from assms(2) have m: "mset xs = add_mset (xs ! i) (mset (swap_remove i xs))"
    by (simp add: mset_swap_remove)
  then have "mset (map f xs) = mset (f (xs ! i) # map f (swap_remove i xs))"
    by simp
  then have d: "distinct (f (xs ! i) # map f (swap_remove i xs))"
    using assms(1) mset_eq_imp_distinct_iff by blast
  then show "distinct (map f (swap_remove i xs))" by simp
  from m have "set xs = insert (xs ! i) (set (swap_remove i xs))"
    by (metis set_mset_add_mset_insert set_mset_mset)
  with d show "set (swap_remove i xs) = {x \<in> set xs. f x \<noteq> f (xs ! i)}"
    by (auto simp: image_iff)
qed

section \<open>Options\<close>

lemma option_eqI: "(\<And>v. a = Some v \<longleftrightarrow> b = Some v) \<Longrightarrow> a = b"
  by (cases a; cases b) auto

section \<open>HashMap\<close>

type_synonym ('k, 'v) hash_map = "('k, 'v) fmap"

text \<open>
  \<open>m.get(k)\<close> is \<open>fmlookup m k\<close>, \<open>m.insert(k, v)\<close> is \<open>fmupd k v m\<close>, \<open>m.remove(k)\<close> is \<open>fmdrop k m\<close>,
  and \<open>m.len()\<close> is the number of keys.
\<close>

definition hash_map_len :: "('k, 'v) hash_map \<Rightarrow> nat" where
  "hash_map_len m = card (fmdom' m)"

text \<open>\<open>m.get(k).map_or(d, f)\<close>.\<close>

definition get_map_or :: "'b \<Rightarrow> ('v \<Rightarrow> 'b) \<Rightarrow> ('k, 'v) hash_map \<Rightarrow> 'k \<Rightarrow> 'b" where
  "get_map_or d f m k = (case fmlookup m k of None \<Rightarrow> d | Some v \<Rightarrow> f v)"

text \<open>
  \<open>m.entry(k).or_insert_with(d)\<close>: the value under \<open>k\<close>, after storing \<open>d\<close> there if the key was
  absent.  The caller gets a mutable reference; the model returns the value and the map, and the
  caller stores what it writes back with \<open>fmupd\<close>.
\<close>

definition entry_or_insert :: "'k \<Rightarrow> 'v \<Rightarrow> ('k, 'v) hash_map \<Rightarrow> 'v \<times> ('k, 'v) hash_map" where
  "entry_or_insert k d m = (case fmlookup m k of
     Some v \<Rightarrow> (v, m)
   | None \<Rightarrow> (d, fmupd k d m))"

text \<open>\<open>m.entry(k).or_default().push(x)\<close> for a map into vectors.\<close>

definition entry_push :: "'k \<Rightarrow> 'a \<Rightarrow> ('k, 'a list) hash_map \<Rightarrow> ('k, 'a list) hash_map" where
  "entry_push k x m = (let (v, m') = entry_or_insert k [] m in fmupd k (v @ [x]) m')"

text \<open>The vector under a key, empty when the key is absent.\<close>

abbreviation vec_at :: "('k, 'a list) hash_map \<Rightarrow> 'k \<Rightarrow> 'a list" where
  "vec_at \<equiv> get_map_or [] (\<lambda>v. v)"

lemma get_map_or_fmupd [map_simps]:
  "get_map_or d f (fmupd k v m) j = (if j = k then f v else get_map_or d f m j)"
  by (simp add: get_map_or_def)

lemma get_map_or_fmdrop [map_simps]:
  "get_map_or d f (fmdrop k m) j = (if j = k then d else get_map_or d f m j)"
  by (simp add: get_map_or_def)

lemma get_map_or_fmempty [map_simps]: "get_map_or d f fmempty j = d"
  by (simp add: get_map_or_def)

lemma get_map_or_Some: "fmlookup m k = Some v \<Longrightarrow> get_map_or d f m k = f v"
  by (simp add: get_map_or_def)

lemma get_map_or_None: "fmlookup m k = None \<Longrightarrow> get_map_or d f m k = d"
  by (simp add: get_map_or_def)

lemma entry_push_fmupd: "entry_push k x m = fmupd k (vec_at m k @ [x]) m"
  by (auto simp: entry_push_def entry_or_insert_def get_map_or_def split: option.splits)

lemma vec_at_entry_push [map_simps]:
  "vec_at (entry_push k x m) j = (if j = k then vec_at m k @ [x] else vec_at m j)"
  by (simp add: entry_push_fmupd map_simps)

lemma vec_at_entry_push_fun:
  "vec_at (entry_push k x m) = (vec_at m)(k := vec_at m k @ [x])"
  by (simp add: fun_eq_iff map_simps)

lemma vec_at_fmdrop_fun: "vec_at (fmdrop k m) = (vec_at m)(k := [])"
  by (simp add: fun_eq_iff map_simps)

lemma fmlookup_entry_push [map_simps]:
  "fmlookup (entry_push k x m) j = (if j = k then Some (vec_at m k @ [x]) else fmlookup m j)"
  by (simp add: entry_push_fmupd)

lemma vec_at_dom: "vec_at m k \<noteq> [] \<Longrightarrow> k \<in> fmdom' m"
  by (auto simp: get_map_or_def fmlookup_dom'_iff split: option.splits)

text \<open>
  The iteration order of a \<open>HashMap\<close> is unspecified.  An operation that iterates takes a function
  \<open>ord\<close> that lists the keys; \<open>key_order\<close> says that it lists every key exactly once, and nothing else
  about the order.  \<open>sorted_list_of_set\<close> is such an order, so the hypothesis is satisfiable.
\<close>

definition key_order :: "('k set \<Rightarrow> 'k list) \<Rightarrow> bool" where
  "key_order ord \<longleftrightarrow> (\<forall>S. finite S \<longrightarrow> set (ord S) = S \<and> distinct (ord S))"

lemma key_orderD: "key_order ord \<Longrightarrow> finite S \<Longrightarrow> set (ord S) = S \<and> distinct (ord S)"
  by (simp add: key_order_def)

lemma set_key_order [simp]: "key_order ord \<Longrightarrow> finite S \<Longrightarrow> set (ord S) = S"
  by (simp add: key_order_def)

lemma key_order_sorted: "key_order (sorted_list_of_set :: 'k::linorder set \<Rightarrow> 'k list)"
  by (simp add: key_order_def)

section \<open>Runs of a machine\<close>

text \<open>
  \<open>guarded_run\<close> says that every step of a run is allowed where it is taken.  The interface
  \<open>invariant_machine\<close> is what a component provides: an invariant kept by every allowed step.  Its
  client lemma lifts the invariant to runs, once for all components.
\<close>

primrec guarded_run :: "('s \<Rightarrow> 'e \<Rightarrow> 's) \<Rightarrow> ('s \<Rightarrow> 'e \<Rightarrow> bool) \<Rightarrow> 's \<Rightarrow> 'e list \<Rightarrow> bool" where
  "guarded_run step ok s [] = True"
| "guarded_run step ok s (e # es) = (ok s e \<and> guarded_run step ok (step s e) es)"

locale invariant_machine =
  fixes step :: "'s \<Rightarrow> 'e \<Rightarrow> 's"
    and ok :: "'s \<Rightarrow> 'e \<Rightarrow> bool"
    and inv :: "'s \<Rightarrow> bool"
  assumes step_inv: "inv s \<Longrightarrow> ok s e \<Longrightarrow> inv (step s e)"
begin

lemma run_inv: "inv s \<Longrightarrow> guarded_run step ok s es \<Longrightarrow> inv (foldl step s es)"
  by (induction es arbitrary: s) (auto intro: step_inv)

lemma run_inv_prefix:
  "inv s \<Longrightarrow> guarded_run step ok s (es @ fs) \<Longrightarrow> inv (foldl step s es)"
  by (induction es arbitrary: s) (auto intro: step_inv)

end

section \<open>Simulation by a reference model\<close>

text \<open>
  A program step may panic (\<open>None\<close>); a step of the reference model returns the result the program
  must give.  \<open>run_program\<close> and \<open>run_model\<close> collect the results of a sequence of operations.  The
  interface \<open>guarded_simulation\<close> asks for one allowed step and gives runs of allowed steps; \<open>simulation\<close> is
  the case where every step is allowed.
\<close>

primrec run_program :: "('s \<Rightarrow> 'o \<Rightarrow> ('r \<times> 's) option) \<Rightarrow> 's \<Rightarrow> 'o list \<Rightarrow> ('r list \<times> 's) option" where
  "run_program step s [] = Some ([], s)"
| "run_program step s (a # as) =
     Option.bind (step s a) (\<lambda>(r, s1). map_option (\<lambda>(rs, s2). (r # rs, s2)) (run_program step s1 as))"

primrec run_model :: "('m \<Rightarrow> 'o \<Rightarrow> 'r \<times> 'm) \<Rightarrow> 'm \<Rightarrow> 'o list \<Rightarrow> 'r list \<times> 'm" where
  "run_model step m [] = ([], m)"
| "run_model step m (a # as) =
     (let (r, m1) = step m a; (rs, m2) = run_model step m1 as in (r # rs, m2))"

locale guarded_simulation =
  fixes step :: "'s \<Rightarrow> 'o \<Rightarrow> ('r \<times> 's) option"
    and model :: "'m \<Rightarrow> 'o \<Rightarrow> 'r \<times> 'm"
    and rel :: "'s \<Rightarrow> 'm \<Rightarrow> bool"
    and allowed :: "'o \<Rightarrow> bool"
  assumes allowed_step_simulates: "rel s m \<Longrightarrow> allowed a \<Longrightarrow>
    \<exists>s'. step s a = Some (fst (model m a), s') \<and> rel s' (snd (model m a))"
begin

lemma allowed_run_simulates:
  "rel s m \<Longrightarrow> list_all allowed as \<Longrightarrow> \<exists>s'. run_program step s as = Some (fst (run_model model m as), s')
     \<and> rel s' (snd (run_model model m as))"
proof (induction as arbitrary: s m)
  case (Cons a as)
  from allowed_step_simulates [OF Cons.prems(1), of a] Cons.prems(2) obtain s1
    where s1: "step s a = Some (fst (model m a), s1)" "rel s1 (snd (model m a))" by auto
  from Cons.IH [OF s1(2)] s1(1) Cons.prems(2) show ?case by (auto split: prod.splits)
qed simp

end

locale simulation =
  fixes step :: "'s \<Rightarrow> 'o \<Rightarrow> ('r \<times> 's) option"
    and model :: "'m \<Rightarrow> 'o \<Rightarrow> 'r \<times> 'm"
    and rel :: "'s \<Rightarrow> 'm \<Rightarrow> bool"
  assumes step_simulates: "rel s m \<Longrightarrow> \<exists>s'. step s a = Some (fst (model m a), s') \<and> rel s' (snd (model m a))"

sublocale simulation \<subseteq> all_steps: guarded_simulation step model rel "\<lambda>a. True"
  by unfold_locales (rule step_simulates)

context simulation
begin

lemma run_simulates:
  "rel s m \<Longrightarrow> \<exists>s'. run_program step s as = Some (fst (run_model model m as), s')
     \<and> rel s' (snd (run_model model m as))"
  by (rule all_steps.allowed_run_simulates) (simp_all add: list_all_iff)

end

end
