(* ===== verification/Mode.thy ===== *)
theory Mode
  imports LockDb_Prelude
begin

text \<open>
  Lock modes (\<open>src/src/mode.rs\<close>): the five multi-granularity modes, the compatibility matrix and
  the join table exactly as the two constant arrays of the source, and the operations read from
  them.  The interface \<open>mode_lattice\<close> states what the lock table relies on: compatibility is
  symmetric, the join is a semilattice operation whose order is \<open>covers\<close>, and a mode is compatible
  with a join exactly when it is compatible with both parts.  The client lemmas of the interface
  are what makes in-place upgrades and deadlock edges correct.
\<close>

section \<open>The modes\<close>

datatype LockMode =
    IntentionShared
  | IntentionExclusive
  | Shared
  | SharedIntentionExclusive
  | Exclusive

text \<open>The private \<open>index\<close> of a mode: its row and column in the two tables.\<close>

definition index :: "LockMode \<Rightarrow> nat" where
  "index m = (case m of
     IntentionShared \<Rightarrow> 0
   | IntentionExclusive \<Rightarrow> 1
   | Shared \<Rightarrow> 2
   | SharedIntentionExclusive \<Rightarrow> 3
   | Exclusive \<Rightarrow> 4)"

text \<open>\<open>m as u8\<close>: the discriminants count the variants in declaration order.\<close>

definition discriminant :: "LockMode \<Rightarrow> u8" where
  "discriminant m = (case m of
     IntentionShared \<Rightarrow> 0
   | IntentionExclusive \<Rightarrow> 1
   | Shared \<Rightarrow> 2
   | SharedIntentionExclusive \<Rightarrow> 3
   | Exclusive \<Rightarrow> 4)"

definition COMPAT :: "bool list list" where
  "COMPAT = [
     [True, True, True, True, False],
     [True, True, False, False, False],
     [True, False, True, False, False],
     [True, False, False, False, False],
     [False, False, False, False, False]]"

definition compatible_with :: "LockMode \<Rightarrow> LockMode \<Rightarrow> bool" where
  "compatible_with self other = COMPAT ! index self ! index other"

definition JOIN :: "LockMode list list" where
  "JOIN = [
     [IntentionShared, IntentionExclusive, Shared, SharedIntentionExclusive, Exclusive],
     [IntentionExclusive, IntentionExclusive, SharedIntentionExclusive,
      SharedIntentionExclusive, Exclusive],
     [Shared, SharedIntentionExclusive, Shared, SharedIntentionExclusive, Exclusive],
     [SharedIntentionExclusive, SharedIntentionExclusive, SharedIntentionExclusive,
      SharedIntentionExclusive, Exclusive],
     [Exclusive, Exclusive, Exclusive, Exclusive, Exclusive]]"

definition join :: "LockMode \<Rightarrow> LockMode \<Rightarrow> LockMode" where
  "join self other = JOIN ! index self ! index other"

definition covers :: "LockMode \<Rightarrow> LockMode \<Rightarrow> bool" where
  "covers self other \<longleftrightarrow> discriminant (join self other) = discriminant self"

definition is_exclusive :: "LockMode \<Rightarrow> bool" where
  "is_exclusive self = (case self of Exclusive \<Rightarrow> True | _ \<Rightarrow> False)"

definition is_intention :: "LockMode \<Rightarrow> bool" where
  "is_intention self = (case self of
     IntentionShared \<Rightarrow> True
   | IntentionExclusive \<Rightarrow> True
   | SharedIntentionExclusive \<Rightarrow> True
   | _ \<Rightarrow> False)"

section \<open>The tables, entry by entry\<close>

lemma index_less: "index m < 5"
  by (cases m) (simp_all add: index_def)

lemma table_shape:
  "length COMPAT = 5" "\<forall>row \<in> set COMPAT. length row = 5"
  "length JOIN = 5" "\<forall>row \<in> set JOIN. length row = 5"
  by (simp_all add: COMPAT_def JOIN_def)

lemma compatible_with_table [mode_simps]:
  "compatible_with IntentionShared m \<longleftrightarrow> m \<noteq> Exclusive"
  "compatible_with IntentionExclusive m \<longleftrightarrow> m = IntentionShared \<or> m = IntentionExclusive"
  "compatible_with Shared m \<longleftrightarrow> m = IntentionShared \<or> m = Shared"
  "compatible_with SharedIntentionExclusive m \<longleftrightarrow> m = IntentionShared"
  "compatible_with Exclusive m \<longleftrightarrow> False"
  by (cases m; simp add: compatible_with_def COMPAT_def index_def)+

lemma join_table [mode_simps]:
  "join IntentionShared m = m"
  "join IntentionExclusive m =
     (case m of IntentionShared \<Rightarrow> IntentionExclusive | IntentionExclusive \<Rightarrow> IntentionExclusive
      | Exclusive \<Rightarrow> Exclusive | _ \<Rightarrow> SharedIntentionExclusive)"
  "join Shared m =
     (case m of IntentionShared \<Rightarrow> Shared | Shared \<Rightarrow> Shared
      | Exclusive \<Rightarrow> Exclusive | _ \<Rightarrow> SharedIntentionExclusive)"
  "join SharedIntentionExclusive m =
     (if m = Exclusive then Exclusive else SharedIntentionExclusive)"
  "join Exclusive m = Exclusive"
  by (cases m; simp add: join_def JOIN_def index_def)+

lemma discriminant_inject [simp]: "discriminant a = discriminant b \<longleftrightarrow> a = b"
  by (cases a; cases b; simp add: discriminant_def)

lemma covers_join: "covers a b \<longleftrightarrow> join a b = a"
  by (simp add: covers_def)

lemma is_exclusive_iff [simp]: "is_exclusive m \<longleftrightarrow> m = Exclusive"
  by (cases m) (simp_all add: is_exclusive_def)

section \<open>The derived order and enumeration\<close>

text \<open>
  \<open>#[derive(PartialOrd, Ord)]\<close> on the enum: variants compare in declaration order.
\<close>

instantiation LockMode :: linorder
begin

definition less_eq_LockMode :: "LockMode \<Rightarrow> LockMode \<Rightarrow> bool" where
  "less_eq_LockMode a b \<longleftrightarrow> index a \<le> index b"

definition less_LockMode :: "LockMode \<Rightarrow> LockMode \<Rightarrow> bool" where
  "less_LockMode a b \<longleftrightarrow> index a < index b"

instance
proof
  fix a b c :: LockMode
  show "a \<le> b \<Longrightarrow> b \<le> a \<Longrightarrow> a = b"
    by (cases a; cases b; simp add: less_eq_LockMode_def index_def)
qed (auto simp: less_eq_LockMode_def less_LockMode_def)

end

instantiation LockMode :: enum
begin

definition enum_LockMode :: "LockMode list" where
  "enum_LockMode =
     [IntentionShared, IntentionExclusive, Shared, SharedIntentionExclusive, Exclusive]"

definition enum_all_LockMode :: "(LockMode \<Rightarrow> bool) \<Rightarrow> bool" where
  "enum_all_LockMode P \<longleftrightarrow> list_all P enum_class.enum"

definition enum_ex_LockMode :: "(LockMode \<Rightarrow> bool) \<Rightarrow> bool" where
  "enum_ex_LockMode P \<longleftrightarrow> list_ex P enum_class.enum"

instance
proof
  show u: "(UNIV :: LockMode set) = set enum_class.enum"
    by (auto simp: enum_LockMode_def intro: LockMode.exhaust)
  show "distinct (enum_class.enum :: LockMode list)"
    by (simp add: enum_LockMode_def)
  fix P :: "LockMode \<Rightarrow> bool"
  show "enum_class.enum_all P \<longleftrightarrow> Ball UNIV P"
    unfolding u by (simp add: enum_all_LockMode_def list_all_iff)
  show "enum_class.enum_ex P \<longleftrightarrow> Bex UNIV P"
    unfolding u by (simp add: enum_ex_LockMode_def list_ex_iff)
qed

end

section \<open>The interface the lock table relies on\<close>

locale mode_lattice =
  fixes compat :: "'m \<Rightarrow> 'm \<Rightarrow> bool"
    and lub :: "'m \<Rightarrow> 'm \<Rightarrow> 'm"
    and above :: "'m \<Rightarrow> 'm \<Rightarrow> bool"
  assumes compat_sym: "compat a b \<longleftrightarrow> compat b a"
    and lub_comm: "lub a b = lub b a"
    and lub_assoc: "lub (lub a b) c = lub a (lub b c)"
    and lub_idem: "lub a a = a"
    and above_iff: "above a b \<longleftrightarrow> lub a b = a"
    and compat_lub: "compat h (lub a b) \<longleftrightarrow> compat h a \<and> compat h b"
begin

lemma above_refl: "above a a"
  by (simp add: above_iff lub_idem)

lemma above_trans: "above a b \<Longrightarrow> above b c \<Longrightarrow> above a c"
  by (metis above_iff lub_assoc)

lemma above_antisym: "above a b \<Longrightarrow> above b a \<Longrightarrow> a = b"
  by (metis above_iff lub_comm)

lemma above_lub: "above (lub a b) a" "above (lub a b) b"
  by (metis above_iff lub_assoc lub_comm lub_idem)+

lemma lub_least: "above c a \<Longrightarrow> above c b \<Longrightarrow> above c (lub a b)"
  by (metis above_iff lub_assoc)

lemma above_lub_iff: "above c (lub a b) \<longleftrightarrow> above c a \<and> above c b"
  using above_lub above_trans lub_least by blast

text \<open>A stronger mode is compatible with less.\<close>

lemma compat_antimono: "above a b \<Longrightarrow> compat h a \<Longrightarrow> compat h b"
  by (metis above_iff compat_lub)

text \<open>
  An upgrade: against holders that are compatible with the mode already held, being blocked by the
  join of held and requested mode is the same as being blocked by the requested mode alone.
\<close>

lemma upgrade_blockers:
  "\<forall>h \<in> H. compat h cur \<Longrightarrow> {h \<in> H. \<not> compat h (lub cur req)} = {h \<in> H. \<not> compat h req}"
  by (auto simp: compat_lub)

lemma upgrade_grantable:
  "\<forall>h \<in> H. compat h cur \<Longrightarrow> (\<forall>h \<in> H. compat h (lub cur req)) \<longleftrightarrow> (\<forall>h \<in> H. compat h req)"
  by (auto simp: compat_lub)

end

interpretation modes: mode_lattice compatible_with join covers
proof
  fix a b c h :: LockMode
  show "compatible_with a b \<longleftrightarrow> compatible_with b a"
    by (cases a; cases b; simp add: mode_simps)
  show "join a b = join b a"
    by (cases a; cases b; simp add: mode_simps)
  show "join (join a b) c = join a (join b c)"
    by (cases a; cases b; cases c; simp add: mode_simps)
  show "join a a = a"
    by (cases a; simp add: mode_simps)
  show "covers a b \<longleftrightarrow> join a b = a"
    by (rule covers_join)
  show "compatible_with h (join a b) \<longleftrightarrow> compatible_with h a \<and> compatible_with h b"
    by (cases h; cases a; cases b; simp add: mode_simps)
qed

section \<open>Properties of the modes\<close>

text \<open>
  C35: The join is the least upper bound of the privilege order \<open>covers\<close>: it covers both arguments,
  any mode that covers both covers it, and \<open>covers\<close> is a partial order.  This is what makes an
  upgrade grant everything held and everything requested, and nothing more than needed.
\<close>

theorem join_is_least_upper_bound:
  "covers (join a b) a \<and> covers (join a b) b
   \<and> (covers c (join a b) \<longleftrightarrow> covers c a \<and> covers c b)
   \<and> (covers a b \<and> covers b a \<longleftrightarrow> a = b)"
  using modes.above_lub modes.above_lub_iff modes.above_antisym modes.above_refl by blast

text \<open>
  A mode is compatible with a join exactly when it is compatible with both parts.  So the
  compatibility matrix and the join table agree: an upgrade target conflicts with another holder
  only if the held or the requested mode already does.
\<close>

theorem compatible_with_join:
  "compatible_with h (join a b) \<longleftrightarrow> compatible_with h a \<and> compatible_with h b"
  by (rule modes.compat_lub)

text \<open>
  C36: The compatibility matrix is determined by the privileges of the modes: two modes conflict
  exactly when one of them may write part of the resource (it covers IX) while the other reads or
  writes all of it (it covers S), or one of them is exclusive.
\<close>

theorem compatible_with_privileges:
  "\<not> compatible_with a b \<longleftrightarrow>
     (covers a IntentionExclusive \<and> covers b Shared)
     \<or> (covers a Shared \<and> covers b IntentionExclusive)
     \<or> a = Exclusive \<or> b = Exclusive"
  by (cases a; cases b; simp add: mode_simps covers_join)

text \<open>
  The derived \<open>Ord\<close> is a linear extension of the privilege order, not the privilege order itself:
  IX is below S although neither covers the other.
\<close>

lemma covers_imp_ord: "covers a b \<Longrightarrow> b \<le> a"
  by (cases a; cases b; simp add: mode_simps covers_join less_eq_LockMode_def index_def)

lemma ord_not_covers:
  "IntentionExclusive < Shared \<and> \<not> covers Shared IntentionExclusive"
  by (simp add: mode_simps covers_join less_LockMode_def index_def)

text \<open>
  SIX is counted among the intention modes by \<open>is_intention\<close>, yet it grants a read of the whole
  resource: it covers S, it conflicts with every writer, and of the intention modes it is the only
  one that does.
\<close>

theorem is_intention_reads:
  "is_intention m \<and> covers m Shared \<longleftrightarrow> m = SharedIntentionExclusive"
  by (cases m; simp add: is_intention_def mode_simps covers_join)

end
