(* ===== verification/Ids.thy ===== *)
theory Ids
  imports LockDb_Prelude
begin

text \<open>
  Identifiers (\<open>src/src/id.rs\<close>) and the error type (\<open>src/src/error.rs\<close>).  Both identifiers are
  newtypes over \<open>u64\<close> with the order derived from the number; \<open>LockError\<close> has the two failures of
  the lock operations and their messages.
\<close>

section \<open>Transaction identifiers\<close>

datatype TxnId = TxnId u64

definition TxnId_new :: "u64 \<Rightarrow> TxnId" where
  "TxnId_new i = TxnId i"

definition TxnId_get :: "TxnId \<Rightarrow> u64" where
  "TxnId_get self = (case self of TxnId i \<Rightarrow> i)"

definition TxnId_from_u64 :: "u64 \<Rightarrow> TxnId" where
  "TxnId_from_u64 i = TxnId i"

definition u64_from_TxnId :: "TxnId \<Rightarrow> u64" where
  "u64_from_TxnId t = (case t of TxnId i \<Rightarrow> i)"

instantiation TxnId :: linorder
begin

definition less_eq_TxnId :: "TxnId \<Rightarrow> TxnId \<Rightarrow> bool" where
  "less_eq_TxnId a b \<longleftrightarrow> TxnId_get a \<le> TxnId_get b"

definition less_TxnId :: "TxnId \<Rightarrow> TxnId \<Rightarrow> bool" where
  "less_TxnId a b \<longleftrightarrow> TxnId_get a < TxnId_get b"

instance
proof
  fix a b :: TxnId
  show "a \<le> b \<Longrightarrow> b \<le> a \<Longrightarrow> a = b"
    by (cases a; cases b; simp add: less_eq_TxnId_def TxnId_get_def)
qed (auto simp: less_eq_TxnId_def less_TxnId_def)

end

section \<open>Resource identifiers\<close>

datatype ResourceId = ResourceId u64

definition ResourceId_new :: "u64 \<Rightarrow> ResourceId" where
  "ResourceId_new i = ResourceId i"

definition ResourceId_get :: "ResourceId \<Rightarrow> u64" where
  "ResourceId_get self = (case self of ResourceId i \<Rightarrow> i)"

definition ResourceId_from_u64 :: "u64 \<Rightarrow> ResourceId" where
  "ResourceId_from_u64 i = ResourceId i"

definition u64_from_ResourceId :: "ResourceId \<Rightarrow> u64" where
  "u64_from_ResourceId r = (case r of ResourceId i \<Rightarrow> i)"

instantiation ResourceId :: linorder
begin

definition less_eq_ResourceId :: "ResourceId \<Rightarrow> ResourceId \<Rightarrow> bool" where
  "less_eq_ResourceId a b \<longleftrightarrow> ResourceId_get a \<le> ResourceId_get b"

definition less_ResourceId :: "ResourceId \<Rightarrow> ResourceId \<Rightarrow> bool" where
  "less_ResourceId a b \<longleftrightarrow> ResourceId_get a < ResourceId_get b"

instance
proof
  fix a b :: ResourceId
  show "a \<le> b \<Longrightarrow> b \<le> a \<Longrightarrow> a = b"
    by (cases a; cases b; simp add: less_eq_ResourceId_def ResourceId_get_def)
qed (auto simp: less_eq_ResourceId_def less_ResourceId_def)

end

section \<open>The newtype laws\<close>

text \<open>
  An identifier type is a lossless, order-preserving wrapper of a number.  The interface states the
  laws a caller relies on when it maps its own identities to and from identifiers.
\<close>

locale id_newtype =
  fixes new :: "u64 \<Rightarrow> 'i::linorder"
    and get :: "'i \<Rightarrow> u64"
  assumes get_new: "get (new i) = i"
    and new_get: "new (get x) = x"
    and order: "x \<le> y \<longleftrightarrow> get x \<le> get y"
begin

lemma new_inject: "new i = new j \<longleftrightarrow> i = j"
  by (metis get_new)

lemma new_mono: "new i \<le> new j \<longleftrightarrow> i \<le> j"
  by (simp add: order get_new)

end

interpretation txn_id: id_newtype TxnId_new TxnId_get
  by unfold_locales (auto simp: TxnId_new_def TxnId_get_def less_eq_TxnId_def split: TxnId.splits)

interpretation resource_id: id_newtype ResourceId_new ResourceId_get
  by unfold_locales
    (auto simp: ResourceId_new_def ResourceId_get_def less_eq_ResourceId_def split: ResourceId.splits)

text \<open>The \<open>From\<close> conversions are the same functions as \<open>new\<close> and \<open>get\<close>.\<close>

lemma from_conversions:
  "TxnId_from_u64 = TxnId_new" "u64_from_TxnId = TxnId_get"
  "ResourceId_from_u64 = ResourceId_new" "u64_from_ResourceId = ResourceId_get"
  by (auto simp: fun_eq_iff TxnId_from_u64_def TxnId_new_def u64_from_TxnId_def TxnId_get_def
      ResourceId_from_u64_def ResourceId_new_def u64_from_ResourceId_def ResourceId_get_def)

text \<open>
  Distinct numbers give distinct identifiers that keep the order of the numbers, and every
  identifier is the identifier of its number: wrapping a caller's number loses nothing.
\<close>

theorem id_roundtrip:
  "TxnId_get (TxnId_new i) = i \<and> TxnId_new (TxnId_get t) = t
   \<and> (TxnId_new i \<le> TxnId_new j \<longleftrightarrow> i \<le> j)
   \<and> ResourceId_get (ResourceId_new i) = i \<and> ResourceId_new (ResourceId_get r) = r
   \<and> (ResourceId_new i = ResourceId_new j \<longleftrightarrow> i = j)"
  using txn_id.get_new txn_id.new_get txn_id.new_mono
    resource_id.get_new resource_id.new_get resource_id.new_inject by blast

section \<open>Errors\<close>

datatype LockError = Conflict | NotHeld

text \<open>\<open>impl Display\<close>: the message of each error.\<close>

definition LockError_fmt :: "LockError \<Rightarrow> string" where
  "LockError_fmt e = (case e of
     Conflict \<Rightarrow> ''lock request conflicts with an existing lock''
   | NotHeld \<Rightarrow> ''no lock held for this transaction and resource'')"

lemma LockError_fmt_inject: "LockError_fmt a = LockError_fmt b \<longleftrightarrow> a = b"
  by (cases a; cases b; simp add: LockError_fmt_def)

lemma LockError_fmt_nonempty: "LockError_fmt e \<noteq> []"
  by (cases e) (simp_all add: LockError_fmt_def)

end
