(* ===== verification/Key_Range.thy ===== *)
theory Key_Range
  imports LockDb_Prelude
begin

text \<open>
  Key ranges (\<open>src/src/range.rs\<close>): an inclusive interval of \<open>u64\<close> keys, kept at its width.
  \<open>KeyRange_new\<close> refuses inverted bounds, so every range built through the two constructors is well
  formed (\<open>range_wf\<close>), and for well-formed ranges \<open>overlaps\<close> is exactly sharing a key.
\<close>

record KeyRange =
  kr_start :: u64
  kr_end :: u64

definition KeyRange_new :: "u64 \<Rightarrow> u64 \<Rightarrow> KeyRange option" where
  "KeyRange_new s e = (if s \<le> e then Some \<lparr>kr_start = s, kr_end = e\<rparr> else None)"

definition KeyRange_point :: "u64 \<Rightarrow> KeyRange" where
  "KeyRange_point key = \<lparr>kr_start = key, kr_end = key\<rparr>"

definition KeyRange_start :: "KeyRange \<Rightarrow> u64" where
  "KeyRange_start self = kr_start self"

definition KeyRange_end :: "KeyRange \<Rightarrow> u64" where
  "KeyRange_end self = kr_end self"

definition contains :: "KeyRange \<Rightarrow> u64 \<Rightarrow> bool" where
  "contains self key \<longleftrightarrow> kr_start self \<le> key \<and> key \<le> kr_end self"

definition overlaps :: "KeyRange \<Rightarrow> KeyRange \<Rightarrow> bool" where
  "overlaps self other \<longleftrightarrow> kr_start self \<le> kr_end other \<and> kr_start other \<le> kr_end self"

text \<open>What the constructors guarantee.\<close>

definition range_wf :: "KeyRange \<Rightarrow> bool" where
  "range_wf r \<longleftrightarrow> kr_start r \<le> kr_end r"

lemma KeyRange_new_wf: "KeyRange_new s e = Some r \<Longrightarrow> range_wf r"
  by (auto simp: KeyRange_new_def range_wf_def split: if_splits)

lemma KeyRange_point_wf: "range_wf (KeyRange_point k)"
  by (simp add: KeyRange_point_def range_wf_def)

lemma overlaps_sym: "overlaps a b \<longleftrightarrow> overlaps b a"
  by (auto simp: overlaps_def)

lemma overlaps_refl: "range_wf r \<Longrightarrow> overlaps r r"
  by (simp add: overlaps_def range_wf_def)

lemma overlaps_point: "overlaps r (KeyRange_point k) \<longleftrightarrow> contains r k"
  by (simp add: overlaps_def contains_def KeyRange_point_def)

text \<open>
  \<open>KeyRange::new\<close> accepts exactly the bounds in order and keeps them, over the whole of \<open>u64\<close>
  including its maximum, and a point contains its own key only.
\<close>

theorem KeyRange_new_exact:
  "(KeyRange_new s e = None \<longleftrightarrow> e < s)
   \<and> (\<forall>r. KeyRange_new s e = Some r \<longleftrightarrow> s \<le> e \<and> KeyRange_start r = s \<and> KeyRange_end r = e)
   \<and> (contains (KeyRange_point k) j \<longleftrightarrow> j = k)"
  by (auto simp: KeyRange_new_def KeyRange_start_def KeyRange_end_def contains_def
      KeyRange_point_def not_le)

lemma contains_overlaps: "contains a key \<Longrightarrow> contains b key \<Longrightarrow> overlaps a b"
  by (auto simp: overlaps_def contains_def intro: order_trans)

text \<open>
  Two well-formed ranges overlap exactly when some key lies in both.  There is no corner at the
  ends of \<open>u64\<close>: the comparison needs no arithmetic on the bounds.
\<close>

theorem overlaps_iff_common_key:
  assumes "range_wf a" and "range_wf b"
  shows "overlaps a b \<longleftrightarrow> (\<exists>key. contains a key \<and> contains b key)"
proof
  assume "overlaps a b"
  with assms have "contains a (max (kr_start a) (kr_start b)) \<and> contains b (max (kr_start a) (kr_start b))"
    by (auto simp: overlaps_def contains_def range_wf_def max_def)
  then show "\<exists>key. contains a key \<and> contains b key" by blast
next
  assume "\<exists>key. contains a key \<and> contains b key"
  then show "overlaps a b" using contains_overlaps by blast
qed

theorem overlaps_iff_common_key_witness:
  "overlaps \<lparr>kr_start = 10, kr_end = 20\<rparr> \<lparr>kr_start = 20, kr_end = 30\<rparr>
   \<and> \<not> (\<exists>key. contains \<lparr>kr_start = 10, kr_end = 20\<rparr> key
               \<and> contains \<lparr>kr_start = 21, kr_end = - 1\<rparr> key)"
proof -
  have "\<not> overlaps \<lparr>kr_start = 10, kr_end = 20\<rparr> \<lparr>kr_start = 21, kr_end = - 1\<rparr>"
    by (simp add: overlaps_def)
  then show ?thesis
    using overlaps_iff_common_key
        [of "\<lparr>kr_start = 10, kr_end = 20\<rparr>" "\<lparr>kr_start = 21, kr_end = - 1\<rparr>"]
    by (simp add: range_wf_def overlaps_def)
qed

end
