(* ===== verification/Cycle_Search.thy ===== *)
theory Cycle_Search
  imports Wait_Graph
begin

text \<open>
  Correctness of the depth-first search of \<open>Wait_Graph\<close> and what its callers rely on.  A cycle is a
  non-empty list of distinct transactions, each waiting for the next and the last for the first,
  as the source documents \<open>Deadlock::cycle\<close>.
\<close>

section \<open>Cycles of a successor function\<close>

definition edge_rel :: "('a \<Rightarrow> 'a list) \<Rightarrow> ('a \<times> 'a) set" where
  "edge_rel succs = {(a, b). b \<in> set (succs a)}"

definition cycle_in :: "('a \<Rightarrow> 'a list) \<Rightarrow> 'a list \<Rightarrow> bool" where
  "cycle_in succs c \<longleftrightarrow> c \<noteq> [] \<and> distinct c
     \<and> (\<forall>i < length c. c ! (Suc i mod length c) \<in> set (succs (c ! i)))"

lemma edge_rel_iff [simp]: "(a, b) \<in> edge_rel succs \<longleftrightarrow> b \<in> set (succs a)"
  by (simp add: edge_rel_def)

lemma nth_mod_mem: "i < length c \<Longrightarrow> c ! (j mod length c) \<in> set c"
  by (intro nth_mem mod_less_divisor) linarith

lemma cycle_in_forward:
  assumes "cycle_in succs c" and "i < length c"
  shows "(c ! i, c ! ((i + Suc k) mod length c)) \<in> (edge_rel succs)\<^sup>+"
proof (induction k)
  case 0
  with assms show ?case by (auto simp: cycle_in_def)
next
  case (Suc k)
  let ?j = "(i + Suc k) mod length c"
  from assms have "?j < length c" by (auto simp: cycle_in_def)
  then have "(c ! ?j, c ! (Suc ?j mod length c)) \<in> edge_rel succs"
    using assms by (simp add: cycle_in_def)
  with Suc have "(c ! i, c ! (Suc ?j mod length c)) \<in> (edge_rel succs)\<^sup>+"
    by (rule trancl_into_trancl)
  moreover have "Suc ?j mod length c = (i + Suc (Suc k)) mod length c"
    by (simp add: mod_Suc_eq)
  ultimately show ?case by simp
qed

lemma cycle_in_trancl:
  assumes "cycle_in succs c" and "x \<in> set c"
  shows "(x, x) \<in> (edge_rel succs)\<^sup>+"
proof -
  from assms(2) obtain i where i: "i < length c" "x = c ! i" by (auto simp: in_set_conv_nth)
  then have "0 < length c" by linarith
  then have "i + Suc (length c - 1) = i + length c" by simp
  then have "(i + Suc (length c - 1)) mod length c = i" using i by simp
  with cycle_in_forward [OF assms(1) i(1), of "length c - 1"] i show ?thesis by simp
qed

text \<open>Two members of a cycle reach each other.\<close>

lemma cycle_in_succ_mem:
  assumes "cycle_in succs c" and "x \<in> set c"
  obtains y where "y \<in> set c" and "y \<in> set (succs x)"
proof -
  from assms(2) obtain i where i: "i < length c" "x = c ! i" by (auto simp: in_set_conv_nth)
  with assms(1) have "c ! (Suc i mod length c) \<in> set (succs x)" by (auto simp: cycle_in_def)
  moreover have "c ! (Suc i mod length c) \<in> set c"
    by (rule nth_mod_mem [OF i(1)])
  ultimately show thesis by (rule that [rotated])
qed

text \<open>
  A set closed under edges that contains a node of a cycle contains what the node reaches.
\<close>

lemma closed_trancl:
  assumes "\<And>a b. a \<in> S \<Longrightarrow> b \<in> set (succs a) \<Longrightarrow> b \<in> S"
  shows "(a, b) \<in> (edge_rel succs)\<^sup>* \<Longrightarrow> a \<in> S \<Longrightarrow> b \<in> S"
  by (induction rule: rtrancl_induct) (auto intro: assms)

text \<open>A chain of nodes closed by an edge back to its first node.\<close>

lemma successively_cycle_in:
  assumes "successively (\<lambda>a b. b \<in> set (succs a)) c" and "distinct c" and "c \<noteq> []"
    and "hd c \<in> set (succs (last c))"
  shows "cycle_in succs c"
  unfolding cycle_in_def
proof (intro conjI allI impI)
  fix i assume i: "i < length c"
  show "c ! (Suc i mod length c) \<in> set (succs (c ! i))"
  proof (cases "Suc i < length c")
    case True
    with assms(1) show ?thesis by (simp add: successively_conv_nth)
  next
    case False
    with i have "Suc i = length c" by simp
    with i assms(3,4) show ?thesis
      by (metis diff_Suc_1 hd_conv_nth last_conv_nth mod_self)
  qed
qed (use assms in auto)

lemma successively_reaches:
  "successively (\<lambda>a b. b \<in> set (succs a)) c \<Longrightarrow> x \<in> set c \<Longrightarrow> (hd c, x) \<in> (edge_rel succs)\<^sup>*"
proof (induction c)
  case (Cons a c)
  show ?case
  proof (cases "x = a")
    case False
    with Cons.prems have "c \<noteq> []" "x \<in> set c" by auto
    with Cons.prems have "hd c \<in> set (succs a)" "successively (\<lambda>a b. b \<in> set (succs a)) c"
      by (auto simp: successively_Cons)
    with Cons.IH \<open>x \<in> set c\<close> show ?thesis
      by (auto intro: converse_rtrancl_into_rtrancl)
  qed simp
qed simp

section \<open>The interface of a cycle search\<close>

text \<open>
  \<open>find s\<close> either returns a cycle that \<open>s\<close> reaches, or \<open>s\<close> reaches no cycle.  The client lemmas
  compare two graphs: one transaction's waits are recorded (\<open>acyclic_after_wait\<close>) or edges are only
  removed (\<open>acyclic_mono\<close>).
\<close>

locale cycle_finder =
  fixes succs :: "'g \<Rightarrow> 'a \<Rightarrow> 'a list"
    and find :: "'g \<Rightarrow> 'a \<Rightarrow> 'a list option"
  assumes find_Some: "find g s = Some c \<Longrightarrow>
      cycle_in (succs g) c \<and> (s, hd c) \<in> (edge_rel (succs g))\<^sup>*"
    and find_None: "find g s = None \<Longrightarrow> (s, x) \<in> (edge_rel (succs g))\<^sup>* \<Longrightarrow>
      (x, x) \<notin> (edge_rel (succs g))\<^sup>+"
begin

lemma find_iff:
  "(\<exists>c. find g s = Some c) \<longleftrightarrow>
     (\<exists>x. (s, x) \<in> (edge_rel (succs g))\<^sup>* \<and> (x, x) \<in> (edge_rel (succs g))\<^sup>+)"
proof
  assume "\<exists>c. find g s = Some c"
  then obtain c where "cycle_in (succs g) c" "(s, hd c) \<in> (edge_rel (succs g))\<^sup>*"
    using find_Some by blast
  then show "\<exists>x. (s, x) \<in> (edge_rel (succs g))\<^sup>* \<and> (x, x) \<in> (edge_rel (succs g))\<^sup>+"
    using cycle_in_trancl [of "succs g" c "hd c"] by (auto simp: cycle_in_def)
next
  assume "\<exists>x. (s, x) \<in> (edge_rel (succs g))\<^sup>* \<and> (x, x) \<in> (edge_rel (succs g))\<^sup>+"
  then obtain x where "(s, x) \<in> (edge_rel (succs g))\<^sup>*" "(x, x) \<in> (edge_rel (succs g))\<^sup>+"
    by blast
  with find_None [of g s x] show "\<exists>c. find g s = Some c" by (cases "find g s") simp_all
qed

text \<open>A start that is itself on a cycle is reported.\<close>

lemma find_on_cycle: "cycle_in (succs g) c \<Longrightarrow> s \<in> set c \<Longrightarrow> find g s \<noteq> None"
  using find_None [of g s s] cycle_in_trancl [of "succs g" c s] by auto

lemma acyclic_mono:
  "acyclic (edge_rel (succs g)) \<Longrightarrow> \<forall>a. set (succs h a) \<subseteq> set (succs g a) \<Longrightarrow>
     acyclic (edge_rel (succs h))"
  by (erule acyclic_subset) (auto simp: subset_iff)

text \<open>
  Only the edges of \<open>t\<close> changed and the new graph has no cycle reachable from \<open>t\<close>: then it has no
  cycle at all, because a cycle that avoids \<open>t\<close> was there before.
\<close>

lemma acyclic_after_wait:
  assumes "acyclic (edge_rel (succs g))"
    and others: "\<forall>a. a \<noteq> t \<longrightarrow> set (succs h a) \<subseteq> set (succs g a)"
    and none: "find h t = None"
  shows "acyclic (edge_rel (succs h))"
  unfolding acyclic_def
proof (intro allI notI)
  fix x assume x: "(x, x) \<in> (edge_rel (succs h))\<^sup>+"
  have no_t: "(x, t) \<notin> (edge_rel (succs h))\<^sup>* \<or> (t, x) \<notin> (edge_rel (succs h))\<^sup>*"
    using find_None [OF none, of x] x by blast
  have stay: "(x, y) \<in> (edge_rel (succs h))\<^sup>+ \<Longrightarrow> (y, x) \<in> (edge_rel (succs h))\<^sup>* \<Longrightarrow>
      (x, y) \<in> (edge_rel (succs g))\<^sup>+" for y
  proof (induction rule: trancl_induct)
    case (base y)
    then have "x \<noteq> t" using no_t by auto
    with base.hyps others have "(x, y) \<in> edge_rel (succs g)" by auto
    then show ?case by blast
  next
    case (step y z)
    then have yx: "(y, x) \<in> (edge_rel (succs h))\<^sup>*" by (auto intro: converse_rtrancl_into_rtrancl)
    moreover have "(x, y) \<in> (edge_rel (succs h))\<^sup>*" using step.hyps(1) by (rule trancl_into_rtrancl)
    ultimately have "y \<noteq> t" using no_t by auto
    then have "(y, z) \<in> edge_rel (succs g)" using step.hyps(2) others by auto
    with step.IH [OF yx] show ?case by (rule trancl_into_trancl)
  qed
  from stay [OF x] assms(1) show False by (auto simp: acyclic_def)
qed

text \<open>
  In the same situation a reported cycle goes through \<open>t\<close>: the wait of \<open>t\<close> is what closed it.
\<close>

lemma new_cycle_through_waiter:
  assumes "acyclic (edge_rel (succs g))"
    and others: "\<forall>a. a \<noteq> t \<longrightarrow> set (succs h a) \<subseteq> set (succs g a)"
    and cyc: "cycle_in (succs h) c"
  shows "t \<in> set c"
proof (rule ccontr)
  assume t: "t \<notin> set c"
  have "cycle_in (succs g) c"
    unfolding cycle_in_def
  proof (intro conjI allI impI)
    fix i assume i: "i < length c"
    then have "c ! i \<noteq> t" using t by (auto simp: in_set_conv_nth)
    with i cyc others show "c ! (Suc i mod length c) \<in> set (succs g (c ! i))"
      by (auto simp: cycle_in_def)
  qed (use cyc in \<open>auto simp: cycle_in_def\<close>)
  then show False
    using cycle_in_trancl [of "succs g" c "hd c"] assms(1)
    by (auto simp: acyclic_def cycle_in_def)
qed

end

section \<open>The search of the source\<close>

text \<open>
  The neighbours already looked at of every stack entry are done, or still on the path above it.
\<close>

primrec explored :: "WaitForGraph \<Rightarrow> (TxnId, u8) hash_map \<Rightarrow> (TxnId \<times> nat) list \<Rightarrow> bool" where
  "explored g st [] = True"
| "explored g st (f # rest) =
     ((\<forall>t \<in> set (take (snd f) (neighbors g (fst f))). mark st t = 2 \<or> t \<in> fst ` set rest)
      \<and> explored g st rest)"

lemma explored_mono:
  "explored g st stack \<Longrightarrow> (\<And>t. mark st t = 2 \<Longrightarrow> mark st' t = 2) \<Longrightarrow> explored g st' stack"
  by (induction stack) auto

lemma explored_advance:
  "explored g st (ss @ [(n, i)]) \<Longrightarrow> i < length (neighbors g n) \<Longrightarrow>
     mark st (neighbors g n ! i) = 2 \<Longrightarrow> explored g st (ss @ [(n, Suc i)])"
  by (induction ss) (auto simp: take_Suc_conv_app_nth)

lemma explored_push:
  "explored g st (ss @ [(n, i)]) \<Longrightarrow> i < length (neighbors g n) \<Longrightarrow>
     explored g st (ss @ [(n, Suc i), (neighbors g n ! i, 0)])"
  by (induction ss) (auto simp: take_Suc_conv_app_nth)

lemma explored_pop: "explored g st (ss @ [(n, i)]) \<Longrightarrow> mark st n = 2 \<Longrightarrow> explored g st ss"
  by (induction ss) auto

lemma explored_top:
  "explored g st (ss @ [(n, i)]) \<Longrightarrow> t \<in> set (take i (neighbors g n)) \<Longrightarrow> mark st t = 2"
  by (induction ss) auto

text \<open>
  The invariant of the loop.  The path is the chain of waits from the start to the top of the
  stack; exactly its members are marked 1; what is marked 2 is closed under waits and holds no
  cycle.
\<close>

definition search_inv ::
  "WaitForGraph \<Rightarrow> TxnId \<Rightarrow> (TxnId, u8) hash_map \<Rightarrow> (TxnId \<times> nat) list \<Rightarrow> bool"
where
  "search_inv g start st stack \<longleftrightarrow>
     distinct (map fst stack)
     \<and> (\<forall>t. mark st t = 1 \<longleftrightarrow> t \<in> fst ` set stack)
     \<and> (\<forall>t. mark st t = 0 \<or> mark st t = 1 \<or> mark st t = 2)
     \<and> successively (\<lambda>a b. b \<in> set (neighbors g a)) (map fst stack)
     \<and> (\<forall>t. mark st t = 2 \<longrightarrow> (\<forall>u \<in> set (neighbors g t). mark st u = 2))
     \<and> (\<forall>t. mark st t = 2 \<longrightarrow> (t, t) \<notin> (edge_rel (neighbors g))\<^sup>+)
     \<and> explored g st stack
     \<and> (stack \<noteq> [] \<longrightarrow> fst (hd stack) = start)
     \<and> mark st start \<noteq> 0"

lemma search_inv_mark1: "search_inv g start st stack \<Longrightarrow> mark st t = 1 \<longleftrightarrow> t \<in> fst ` set stack"
  by (simp add: search_inv_def)

lemma search_inv_marks:
  "search_inv g start st stack \<Longrightarrow> mark st t = 0 \<or> mark st t = 1 \<or> mark st t = 2"
  unfolding search_inv_def by blast

lemma search_inv_chain: "search_inv g start st stack \<Longrightarrow>
    successively (\<lambda>a b. b \<in> set (neighbors g a)) (map fst stack)"
  by (simp add: search_inv_def)

lemma search_inv_start: "search_inv g start (fmupd start 1 fmempty) [(start, 0)]"
  by (auto simp: search_inv_def map_simps mark_def)

lemma search_inv_skip:
  assumes "search_inv g start st (ss @ [(n, i)])" and "i < length (neighbors g n)"
    and "mark st (neighbors g n ! i) = 2"
  shows "search_inv g start st (ss @ [(n, Suc i)])"
proof -
  have same: "map fst (ss @ [(n, Suc i)]) = map fst (ss @ [(n, i)])"
    "fst ` set (ss @ [(n, Suc i)]) = fst ` set (ss @ [(n, i)])"
    "fst (hd (ss @ [(n, Suc i)])) = fst (hd (ss @ [(n, i)]))"
    by (cases ss; simp)+
  show ?thesis
    using assms explored_advance [of g st ss n i] unfolding search_inv_def same by blast
qed

lemma search_inv_push:
  assumes inv: "search_inv g start st (ss @ [(n, i)])" and i: "i < length (neighbors g n)"
    and new: "mark st (neighbors g n ! i) = 0"
  shows "search_inv g start (fmupd (neighbors g n ! i) 1 st)
           (ss @ [(n, Suc i), (neighbors g n ! i, 0)])"
proof -
  let ?t = "neighbors g n ! i"
  let ?st = "fmupd ?t 1 st"
  have fresh: "?t \<notin> fst ` set (ss @ [(n, i)])"
    using search_inv_mark1 [OF inv] new by (metis zero_neq_one)
  have mem: "?t \<in> set (neighbors g n)" using i by simp
  have marks: "mark ?st u = (if u = ?t then 1 else mark st u)" for u by (simp add: map_simps)
  have two: "mark ?st u = 2 \<longleftrightarrow> mark st u = 2" for u
    using new by (simp add: marks)
  note old = inv [unfolded search_inv_def]
  show ?thesis
    unfolding search_inv_def two
  proof (intro conjI)
    show "distinct (map fst (ss @ [(n, Suc i), (?t, 0)]))"
      using old fresh by auto
    show "\<forall>u. mark ?st u = 1 \<longleftrightarrow> u \<in> fst ` set (ss @ [(n, Suc i), (?t, 0)])"
      using search_inv_mark1 [OF inv] by (auto simp: marks)
    show "\<forall>u. mark ?st u = 0 \<or> mark ?st u = 1 \<or> mark st u = 2"
      using search_inv_marks [OF inv] by (simp add: marks)
    show "successively (\<lambda>a b. b \<in> set (neighbors g a)) (map fst (ss @ [(n, Suc i), (?t, 0)]))"
      using search_inv_chain [OF inv] mem by (simp add: successively_append_iff)
    show "explored g ?st (ss @ [(n, Suc i), (?t, 0)])"
      using explored_push [OF _ i] old two by (blast intro: explored_mono)
    show "ss @ [(n, Suc i), (?t, 0)] \<noteq> [] \<longrightarrow> fst (hd (ss @ [(n, Suc i), (?t, 0)])) = start"
      using old by (cases ss) auto
    show "mark ?st start \<noteq> 0"
      using old by (simp add: marks)
  qed (use old in blast)+
qed

text \<open>
  A node is done: all its neighbours are done, so the done nodes stay closed, and the node is on no
  cycle because a cycle through it would lead back to it from a done neighbour.
\<close>

lemma search_inv_pop:
  assumes inv: "search_inv g start st (ss @ [(n, i)])" and i: "length (neighbors g n) \<le> i"
  shows "search_inv g start (fmupd n 2 st) ss"
proof -
  let ?st = "fmupd n 2 st"
  have marks: "mark ?st u = (if u = n then 2 else mark st u)" for u by (simp add: map_simps)
  have top: "mark st n = 1" using inv by (auto simp: search_inv_def)
  have all_done: "mark st u = 2" if "u \<in> set (neighbors g n)" for u
    using explored_top [of g st ss n i u] inv i that by (simp add: search_inv_def)
  have closed: "b \<in> {u. mark st u = 2}" if "a \<in> {u. mark st u = 2}" "b \<in> set (neighbors g a)" for a b
    using inv that by (auto simp: search_inv_def)
  have "(n, n) \<notin> (edge_rel (neighbors g))\<^sup>+"
  proof
    assume "(n, n) \<in> (edge_rel (neighbors g))\<^sup>+"
    then obtain u where u: "u \<in> set (neighbors g n)" "(u, n) \<in> (edge_rel (neighbors g))\<^sup>*"
      by (auto dest: tranclD)
    with all_done have "u \<in> {u. mark st u = 2}" by simp
    with closed_trancl [of "{u. mark st u = 2}" "neighbors g", OF closed u(2)]
    have "mark st n = 2" by simp
    with top show False by simp
  qed
  moreover have "explored g ?st ss"
    using explored_pop [of g ?st ss n i] inv
      explored_mono [of g st "ss @ [(n, i)]" ?st] by (simp add: search_inv_def marks)
  moreover have "mark ?st u = 1 \<longleftrightarrow> u \<in> fst ` set ss" for u
    using inv by (auto simp: search_inv_def marks)
  moreover have "fst (hd ss) = start" if "ss \<noteq> []" using inv that by (simp add: search_inv_def)
  ultimately show ?thesis
    using inv all_done unfolding search_inv_def
    by (simp add: marks successively_append_iff) auto
qed

text \<open>A neighbour on the path: the path from there on is a cycle.\<close>

lemma search_inv_found:
  assumes inv: "search_inv g start st (ss @ [(n, i)])" and i: "i < length (neighbors g n)"
    and hit: "mark st (neighbors g n ! i) = 1"
  obtains pos where "position (\<lambda>t. t = neighbors g n ! i) (map fst (ss @ [(n, i)])) = Some pos"
    and "cycle_in (neighbors g) (drop pos (map fst (ss @ [(n, i)])))"
    and "(start, hd (drop pos (map fst (ss @ [(n, i)])))) \<in> (edge_rel (neighbors g))\<^sup>*"
proof -
  let ?path = "map fst (ss @ [(n, i)])" and ?t = "neighbors g n ! i"
  have "?t \<in> set ?path" using inv hit by (auto simp: search_inv_def)
  then obtain pos where pos: "position (\<lambda>t. t = ?t) ?path = Some pos"
    using position_exists [of ?t ?path "\<lambda>t. t = ?t"] by auto
  then have len: "pos < length ?path" and at: "?path ! pos = ?t"
    using position_SomeD [OF pos] by auto
  let ?c = "drop pos ?path"
  have chain: "successively (\<lambda>a b. b \<in> set (neighbors g a)) ?path"
    by (rule search_inv_chain [OF inv])
  then have "successively (\<lambda>a b. b \<in> set (neighbors g a)) (take pos ?path @ ?c)"
    by (simp only: append_take_drop_id)
  then have "successively (\<lambda>a b. b \<in> set (neighbors g a)) ?c"
    by (simp only: successively_append_iff)
  moreover have "distinct ?c"
    by (rule distinct_drop) (use inv in \<open>simp add: search_inv_def\<close>)
  moreover have ne: "?c \<noteq> []" using len by simp
  moreover have hd: "hd ?c = ?t" using len at by (simp only: hd_drop_conv_nth)
  moreover have "last ?c = n" using len by (simp add: last_drop)
  ultimately have "cycle_in (neighbors g) ?c" using i by (intro successively_cycle_in) auto
  moreover have "(start, hd ?c) \<in> (edge_rel (neighbors g))\<^sup>*"
  proof -
    have "hd ?path = start" using inv by (cases ss) (simp_all add: search_inv_def)
    then show ?thesis
      using successively_reaches [OF chain, of "hd ?c"] hd \<open>?t \<in> set ?path\<close> by simp
  qed
  ultimately show thesis using pos that by blast
qed

text \<open>The whole loop, by its own induction: one case per branch of the source.\<close>

definition search_post :: "WaitForGraph \<Rightarrow> TxnId \<Rightarrow> TxnId list option \<Rightarrow> bool" where
  "search_post g start result \<longleftrightarrow> (case result of
      Some c \<Rightarrow> cycle_in (neighbors g) c \<and> (start, hd c) \<in> (edge_rel (neighbors g))\<^sup>*
    | None \<Rightarrow> \<forall>x. (start, x) \<in> (edge_rel (neighbors g))\<^sup>* \<longrightarrow> (x, x) \<notin> (edge_rel (neighbors g))\<^sup>+)"

lemma search_inv_finished:
  assumes "search_inv g start st []"
  shows "search_post g start None"
proof -
  have closed: "b \<in> {u. mark st u = 2}" if "a \<in> {u. mark st u = 2}" "b \<in> set (neighbors g a)" for a b
    using assms that by (auto simp: search_inv_def)
  have start: "mark st start = 2" using assms by (auto simp: search_inv_def)
  have "mark st x = 2" if "(start, x) \<in> (edge_rel (neighbors g))\<^sup>*" for x
    using closed_trancl [of "{u. mark st u = 2}" "neighbors g", OF closed that] start by simp
  with assms show ?thesis by (auto simp: search_post_def search_inv_def)
qed

lemma cycle_loop_correct:
  "search_inv g start st stack \<Longrightarrow> path = map fst stack \<Longrightarrow>
     search_post g start (cycle_loop g st path stack)"
proof (induction g st path stack rule: cycle_loop.induct)
  case (1 g st path stack)
  show ?case
  proof (cases "stack = []")
    case True
    with "1.prems" show ?thesis by (simp add: cycle_loop.simps search_inv_finished)
  next
    case False
    obtain ss n i where stack: "stack = ss @ [(n, i)]"
      using False by (metis append_butlast_last_id surj_pair)
    have path: "path = map fst ss @ [n]" using "1.prems" stack by simp
    note inv = "1.prems"(1) [unfolded stack]
    note IH = "1.IH" [OF False refl refl refl, unfolded stack, simplified]
    show ?thesis
    proof (cases "i < length (neighbors g n)")
      case idx: True
      let ?t = "neighbors g n ! i"
      consider (path) "mark st ?t = 1" | (fresh) "mark st ?t = 0" | (finished) "mark st ?t = 2"
        using search_inv_marks [OF inv] by blast
      then show ?thesis
      proof cases
        case path
        then obtain pos where "position (\<lambda>t. t = ?t) path = Some pos"
          "cycle_in (neighbors g) (drop pos path)"
          "(start, hd (drop pos path)) \<in> (edge_rel (neighbors g))\<^sup>*"
          using search_inv_found [OF inv idx] \<open>path = map fst ss @ [n]\<close> by auto
        with path idx show ?thesis
          by (subst cycle_loop.simps) (simp add: stack search_post_def Let_def)
      next
        case fresh
        with IH(2) idx search_inv_push [OF inv idx fresh] path show ?thesis
          by (subst cycle_loop.simps) (simp add: stack Let_def)
      next
        case finished
        with IH(3) idx search_inv_skip [OF inv idx finished] path show ?thesis
          by (subst cycle_loop.simps) (simp add: stack Let_def)
      qed
    next
      case idx: False
      with IH(4) search_inv_pop [OF inv] path show ?thesis
        by (subst cycle_loop.simps) (simp add: stack Let_def)
    qed
  qed
qed

interpretation wfg: cycle_finder neighbors cycle_from
proof
  fix g s c x
  have post: "search_post g s (cycle_from g s)"
    unfolding cycle_from_def using search_inv_start by (rule cycle_loop_correct) simp
  show "cycle_from g s = Some c \<Longrightarrow>
      cycle_in (neighbors g) c \<and> (s, hd c) \<in> (edge_rel (neighbors g))\<^sup>*"
    using post by (simp add: search_post_def)
  show "cycle_from g s = None \<Longrightarrow> (s, x) \<in> (edge_rel (neighbors g))\<^sup>* \<Longrightarrow>
      (x, x) \<notin> (edge_rel (neighbors g))\<^sup>+"
    using post by (simp add: search_post_def)
qed

end
