(* ===== verification/Wait_Graph_Props.thy ===== *)
theory Wait_Graph_Props
  imports Cycle_Search
begin

text \<open>
  The updates of the wait-for graph in terms of its edges, and the properties of the whole
  component: the search is exact, every cycle is found, victims are extreme members of the cycle,
  and removing a transaction removes exactly the cycles through it.
\<close>

section \<open>The updates of the graph\<close>

text \<open>
  Every waiter in the map has an outgoing edge: what \<open>waiter_count\<close> counts is then the waiting
  transactions.
\<close>

definition waiters_wait :: "WaitForGraph \<Rightarrow> bool" where
  "waiters_wait g \<longleftrightarrow> (\<forall>t \<in> fmdom' (edges g). neighbors g t \<noteq> [])"

lemma neighbors_new [simp]: "neighbors WaitForGraph_new t = []"
  by (simp add: neighbors_def WaitForGraph_new_def map_simps)

lemma neighbors_add_wait:
  "neighbors (add_wait g w h) t = (if t = w \<and> w \<noteq> h then neighbors g t @ [h] else neighbors g t)"
  by (simp add: neighbors_def add_wait_def map_simps)

lemma neighbors_add_waits:
  "neighbors (add_waits g w hs) t =
     (if t = w then neighbors g t @ filter (\<lambda>h. h \<noteq> w) hs else neighbors g t)"
  by (induction hs arbitrary: g) (auto simp: neighbors_add_wait)

lemma neighbors_clear_waiter:
  "neighbors (clear_waiter g w) t = (if t = w then [] else neighbors g t)"
  by (simp add: neighbors_def clear_waiter_def map_simps)

lemma neighbors_remove_txn:
  "neighbors (remove_txn g x) t = (if t = x then [] else filter (\<lambda>h. h \<noteq> x) (neighbors g t))"
  by (auto simp: neighbors_def remove_txn_def get_map_or_def split: option.splits)

lemma cycle_in_restrict:
  assumes "\<And>t. t \<noteq> x \<Longrightarrow> set (succs' t) - {x} = set (succs t) - {x}" and "succs' x = []"
  shows "cycle_in succs' c \<longleftrightarrow> cycle_in succs c \<and> x \<notin> set c"
proof (cases "x \<in> set c")
  case True
  then have "\<not> cycle_in succs' c" using assms(2) by (metis cycle_in_succ_mem empty_iff empty_set)
  with True show ?thesis by simp
next
  case False
  have "c ! (Suc i mod length c) \<in> set (succs' (c ! i)) \<longleftrightarrow>
      c ! (Suc i mod length c) \<in> set (succs (c ! i))" if "i < length c" for i
  proof -
    have "c ! i \<in> set c" "c ! (Suc i mod length c) \<in> set c"
      using that nth_mod_mem [OF that] by auto
    with False assms(1) [of "c ! i"] show ?thesis by blast
  qed
  with False show ?thesis by (auto simp: cycle_in_def)
qed

section \<open>The search over all keys, and the victim\<close>

lemma first_cycle_None: "first_cycle g ks = None \<longleftrightarrow> (\<forall>k \<in> set ks. cycle_from g k = None)"
  by (induction ks) (auto split: option.splits)

lemma first_cycle_Some: "first_cycle g ks = Some c \<Longrightarrow> \<exists>k \<in> set ks. cycle_from g k = Some c"
  by (induction ks) (auto split: option.splits)

lemma detect_cycle_None_iff:
  assumes "key_order ord"
  shows "detect_cycle ord g = None \<longleftrightarrow> acyclic (edge_rel (neighbors g))"
proof
  assume none: "detect_cycle ord g = None"
  show "acyclic (edge_rel (neighbors g))"
    unfolding acyclic_def
  proof (intro allI notI)
    fix x assume x: "(x, x) \<in> (edge_rel (neighbors g))\<^sup>+"
    then obtain y where "y \<in> set (neighbors g x)" by (auto dest: tranclD)
    then have "x \<in> fmdom' (edges g)" unfolding neighbors_def by (intro vec_at_dom) auto
    with none assms have "cycle_from g x = None"
      by (simp add: detect_cycle_def first_cycle_None)
    with x wfg.find_None [of g x x] show False by simp
  qed
next
  assume "acyclic (edge_rel (neighbors g))"
  then have "\<nexists>x. (k, x) \<in> (edge_rel (neighbors g))\<^sup>* \<and> (x, x) \<in> (edge_rel (neighbors g))\<^sup>+" for k
    by (simp add: acyclic_def)
  then show "detect_cycle ord g = None"
    using wfg.find_iff [of g] by (simp add: detect_cycle_def first_cycle_None) (metis not_None_eq)
qed

lemma detect_cycle_Some: "detect_cycle ord g = Some c \<Longrightarrow> cycle_in (neighbors g) c"
  using first_cycle_Some wfg.find_Some by (fastforce simp: detect_cycle_def)

lemma pick_victim_eq:
  "pick_victim c policy =
     (if c = [] then None
      else Some (case policy of Youngest \<Rightarrow> Max (set c) | Oldest \<Rightarrow> Min (set c)))"
  by (cases c; cases policy)
    (simp_all add: pick_victim_def iter_max_def iter_min_def flip: Max.set_eq_fold Min.set_eq_fold)

section \<open>Properties of the graph and the search\<close>

text \<open>
  C21: \<open>cycle_from\<close> is exact.  A returned vector is a cycle of the graph in wait-for order (distinct
  transactions, each waiting for the next and the last for the first) that the start reaches; when
  nothing is returned, no transaction the start reaches waits for itself through any chain.  The
  search ends on every graph, since the function is total.
\<close>

theorem cycle_from_exact:
  "(cycle_from g start = Some c \<longrightarrow>
      cycle_in (neighbors g) c \<and> (start, hd c) \<in> (edge_rel (neighbors g))\<^sup>*)
   \<and> (cycle_from g start = None \<longleftrightarrow>
      (\<forall>t. (start, t) \<in> (edge_rel (neighbors g))\<^sup>* \<longrightarrow> (t, t) \<notin> (edge_rel (neighbors g))\<^sup>+))"
  using wfg.find_Some [of g start c] wfg.find_iff [of g start]
  by (cases "cycle_from g start") auto

definition lasso_graph :: WaitForGraph where
  "lasso_graph = add_wait (add_wait (add_wait WaitForGraph_new
     (TxnId 1) (TxnId 2)) (TxnId 2) (TxnId 3)) (TxnId 3) (TxnId 2)"

theorem cycle_from_exact_witness:
  "cycle_from lasso_graph (TxnId 1) = Some [TxnId 2, TxnId 3]
   \<and> cycle_in (neighbors lasso_graph) [TxnId 2, TxnId 3]
   \<and> \<not> (\<forall>t. (TxnId 1, t) \<in> (edge_rel (neighbors lasso_graph))\<^sup>* \<longrightarrow>
            (t, t) \<notin> (edge_rel (neighbors lasso_graph))\<^sup>+)"
proof -
  have "cycle_from lasso_graph (TxnId 1) = Some [TxnId 2, TxnId 3]" by code_simp
  with cycle_from_exact [of lasso_graph "TxnId 1" "[TxnId 2, TxnId 3]"] show ?thesis by auto
qed

text \<open>
  C31: \<open>detect_cycle\<close> finds a deadlock whenever there is one, whatever order the map yields its keys
  in: it returns nothing exactly when the wait-for relation is acyclic, and what it returns is a
  cycle.
\<close>

theorem detect_cycle_exact:
  assumes "key_order ord"
  shows "(detect_cycle ord g = None \<longleftrightarrow> acyclic (edge_rel (neighbors g)))
     \<and> (\<forall>c. detect_cycle ord g = Some c \<longrightarrow> cycle_in (neighbors g) c)"
  using detect_cycle_None_iff [OF assms] detect_cycle_Some by blast

theorem detect_cycle_exact_witness:
  "detect_cycle sorted_list_of_set lasso_graph \<noteq> None
   \<and> \<not> acyclic (edge_rel (neighbors lasso_graph))"
proof -
  have "detect_cycle sorted_list_of_set lasso_graph \<noteq> None" by code_simp
  with detect_cycle_exact [OF key_order_sorted, of lasso_graph] show ?thesis by auto
qed

text \<open>
  The victim is a member of the cycle and an extreme one: the largest identifier for
  \<open>Youngest\<close>, the smallest for \<open>Oldest\<close>; there is none only for the empty slice.  Victim selection
  therefore depends on the order of transaction identifiers, not only on their equality.
\<close>

theorem pick_victim_extreme:
  "pick_victim c policy =
     (if c = [] then None
      else Some (case policy of Youngest \<Rightarrow> Max (set c) | Oldest \<Rightarrow> Min (set c)))"
  by (rule pick_victim_eq)

text \<open>
  Aborting a transaction removes exactly the cycles through it.  After \<open>remove_txn\<close> or
  \<open>clear_waiter\<close> the cycles of the graph are the cycles it had that avoid the transaction: no other
  deadlock disappears and none appears.
\<close>

theorem removal_cycles:
  "(cycle_in (neighbors (remove_txn g x)) c \<longleftrightarrow> cycle_in (neighbors g) c \<and> x \<notin> set c)
   \<and> (cycle_in (neighbors (clear_waiter g x)) c \<longleftrightarrow> cycle_in (neighbors g) c \<and> x \<notin> set c)"
  by (intro conjI cycle_in_restrict) (auto simp: neighbors_remove_txn neighbors_clear_waiter)

lemma waiters_wait_new: "waiters_wait WaitForGraph_new"
  by (simp add: waiters_wait_def WaitForGraph_new_def)

lemma waiters_wait_add_wait: "waiters_wait g \<Longrightarrow> waiters_wait (add_wait g w h)"
  by (auto simp: waiters_wait_def neighbors_def add_wait_def entry_push_fmupd map_simps)

lemma waiters_wait_add_waits: "waiters_wait g \<Longrightarrow> waiters_wait (add_waits g w hs)"
  by (induction hs arbitrary: g) (auto intro: waiters_wait_add_wait)

lemma waiters_wait_clear_waiter: "waiters_wait g \<Longrightarrow> waiters_wait (clear_waiter g w)"
  by (auto simp: waiters_wait_def neighbors_def clear_waiter_def map_simps)

lemma waiters_wait_dom:
  "waiters_wait g \<Longrightarrow> fmdom' (edges g) = {t. neighbors g t \<noteq> []}"
  using vec_at_dom [of "edges g"] by (auto simp: waiters_wait_def neighbors_def)

text \<open>
  \<open>waiter_count\<close> is the number of waiting transactions in every graph where each key has an
  edge; \<open>add_wait\<close>, \<open>add_waits\<close> and \<open>clear_waiter\<close> keep that, starting from the empty graph, so
  \<open>is_empty\<close> then says that nobody waits.
\<close>

theorem waiter_count_waiting:
  assumes "waiters_wait g"
  shows "waiter_count g = card {t. neighbors g t \<noteq> []}
     \<and> (is_empty g \<longleftrightarrow> (\<forall>t. neighbors g t = []))
     \<and> waiters_wait (add_waits g w hs) \<and> waiters_wait (clear_waiter g x)"
proof -
  have "finite {t. neighbors g t \<noteq> []}" using waiters_wait_dom [OF assms] by (metis finite_fmdom')
  then show ?thesis
    using assms waiters_wait_dom [OF assms] waiters_wait_add_waits waiters_wait_clear_waiter
    by (auto simp: waiter_count_def is_empty_def hash_map_len_def card_eq_0_iff)
qed

theorem waiter_count_waiting_witness:
  "waiter_count (add_waits WaitForGraph_new (TxnId 1) [TxnId 2, TxnId 3]) =
     card {t. neighbors (add_waits WaitForGraph_new (TxnId 1) [TxnId 2, TxnId 3]) t \<noteq> []}"
  using waiter_count_waiting [OF waiters_wait_add_waits [OF waiters_wait_new]] by blast

text \<open>
  C39: \<open>remove_txn\<close> does not keep that.  In every graph in which a transaction waits for nobody but the
  removed one, its vector is emptied but its key stays, so \<open>waiter_count\<close> is larger than the number of
  transactions with outgoing edges, and \<open>is_empty\<close> denies that nobody waits even if nobody does.
\<close>

theorem remove_txn_counts_idle:
  assumes "u \<noteq> t" and "neighbors g u \<noteq> []" and "set (neighbors g u) \<subseteq> {t}"
  shows "neighbors (remove_txn g t) u = []
    \<and> card {w. neighbors (remove_txn g t) w \<noteq> []} < waiter_count (remove_txn g t)
    \<and> \<not> is_empty (remove_txn g t)"
proof -
  let ?g = "remove_txn g t"
  have idle: "neighbors ?g u = []" using assms by (auto simp: neighbors_remove_txn filter_empty_conv)
  have "u \<in> fmdom' (edges g)"
    using assms(2) by (auto simp: neighbors_def get_map_or_def fmlookup_dom'_iff split: option.splits)
  then have key: "u \<in> fmdom' (edges ?g)" using assms(1) by (simp add: remove_txn_def)
  have "w \<in> fmdom' (edges ?g)" if "neighbors ?g w \<noteq> []" for w
    using that by (auto simp: neighbors_def get_map_or_def fmlookup_dom'_iff split: option.splits)
  with idle key have "{w. neighbors ?g w \<noteq> []} \<subset> fmdom' (edges ?g)" by blast
  then have "card {w. neighbors ?g w \<noteq> []} < waiter_count ?g"
    by (simp add: waiter_count_def hash_map_len_def psubset_card_mono)
  with idle show ?thesis by (simp add: is_empty_def waiter_count_def)
qed

theorem remove_txn_counts_idle_witness:
  "\<not> is_empty (remove_txn (add_wait WaitForGraph_new (TxnId 3) (TxnId 2)) (TxnId 2))
   \<and> (\<forall>w. neighbors (remove_txn (add_wait WaitForGraph_new (TxnId 3) (TxnId 2)) (TxnId 2)) w = [])"
proof -
  let ?g = "add_wait WaitForGraph_new (TxnId 3) (TxnId 2)"
  have "neighbors ?g (TxnId 3) = [TxnId 2]" by code_simp
  then have "\<not> is_empty (remove_txn ?g (TxnId 2))"
    using remove_txn_counts_idle [of "TxnId 3" "TxnId 2" ?g] by simp
  then show ?thesis by (simp add: neighbors_remove_txn neighbors_add_wait)
qed

end
