(* ===== verification/Holder_Table.thy ===== *)
theory Holder_Table
  imports LockDb_Prelude
begin

text \<open>
  What the point-lock table and the range-lock table of a shard have in common.  Both map a key to
  the vector of its holders, and both keep a reverse index from an owner to the vector of the items
  it holds.  \<open>conflict_free\<close> says that holders of different owners do not clash; \<open>index_ok\<close> says that
  the index lists exactly what is held, with multiplicity.  The interface \<open>indexed_table\<close> proves once
  that pushing a holder, replacing one in place, swap-removing one, and dropping all items of an
  owner keep both; the shard interprets it for its two tables.
\<close>

section \<open>Holders that do not clash\<close>

definition conflict_free :: "('h \<Rightarrow> 't) \<Rightarrow> ('h \<Rightarrow> 'h \<Rightarrow> bool) \<Rightarrow> 'h list \<Rightarrow> bool" where
  "conflict_free owner clash hs \<longleftrightarrow>
     (\<forall>a \<in> set hs. \<forall>b \<in> set hs. owner a \<noteq> owner b \<longrightarrow> \<not> clash a b)"

lemma conflict_free_subset:
  "conflict_free owner clash hs \<Longrightarrow> set hs' \<subseteq> set hs \<Longrightarrow> conflict_free owner clash hs'"
  unfolding conflict_free_def by blast

lemma conflict_freeD:
  "conflict_free owner clash hs \<Longrightarrow> a \<in> set hs \<Longrightarrow> b \<in> set hs \<Longrightarrow> owner a \<noteq> owner b \<Longrightarrow> \<not> clash a b"
  unfolding conflict_free_def by blast

lemma conflict_free_Nil [simp]: "conflict_free owner clash []"
  by (simp add: conflict_free_def)

section \<open>A table and its reverse index\<close>

definition held_count ::
  "('h \<Rightarrow> 't) \<Rightarrow> ('k \<Rightarrow> 'h \<Rightarrow> 'x) \<Rightarrow> ('x \<Rightarrow> 'k) \<Rightarrow> ('k \<Rightarrow> 'h list) \<Rightarrow> 't \<Rightarrow> 'x \<Rightarrow> nat"
where
  "held_count owner item key_of tbl t x =
     size (filter_mset (\<lambda>h. owner h = t \<and> item (key_of x) h = x) (mset (tbl (key_of x))))"

definition index_ok ::
  "('h \<Rightarrow> 't) \<Rightarrow> ('k \<Rightarrow> 'h \<Rightarrow> 'x) \<Rightarrow> ('x \<Rightarrow> 'k) \<Rightarrow> ('k \<Rightarrow> 'h list) \<Rightarrow> ('t \<Rightarrow> 'x list) \<Rightarrow> bool"
where
  "index_ok owner item key_of tbl idx \<longleftrightarrow>
     (\<forall>t x. count (mset (idx t)) x = held_count owner item key_of tbl t x)"

text \<open>
  Dropping one item of an owner: the first holder that matches is swap-removed, if there is one;
  and the loop over a vector of items, with the number of holders dropped.
\<close>

definition drop_one ::
  "('h \<Rightarrow> 't) \<Rightarrow> ('k \<Rightarrow> 'h \<Rightarrow> 'x) \<Rightarrow> ('x \<Rightarrow> 'k) \<Rightarrow> 't \<Rightarrow> 'x \<Rightarrow> ('k \<Rightarrow> 'h list) \<times> nat \<Rightarrow>
     ('k \<Rightarrow> 'h list) \<times> nat"
where
  "drop_one owner item key_of t x = (\<lambda>(tbl, n).
     case position (\<lambda>h. owner h = t \<and> item (key_of x) h = x) (tbl (key_of x)) of
       Some pos \<Rightarrow> (tbl(key_of x := swap_remove pos (tbl (key_of x))), Suc n)
     | None \<Rightarrow> (tbl, n))"

locale indexed_table =
  fixes owner :: "'h \<Rightarrow> 't"
    and item :: "'k \<Rightarrow> 'h \<Rightarrow> 'x"
    and key_of :: "'x \<Rightarrow> 'k"
    and clash :: "'h \<Rightarrow> 'h \<Rightarrow> bool"
  assumes key_of_item: "key_of (item k h) = k"
    and clash_sym: "clash a b \<longleftrightarrow> clash b a"
begin

lemma conflict_free_insert:
  assumes "conflict_free owner clash hs" and "set hs' \<subseteq> insert x (set hs)"
    and "\<forall>h \<in> set hs. owner h \<noteq> owner x \<longrightarrow> \<not> clash h x"
  shows "conflict_free owner clash hs'"
  unfolding conflict_free_def
proof (intro ballI impI)
  fix a b assume "a \<in> set hs'" "b \<in> set hs'" and ab: "owner a \<noteq> owner b"
  then have "a = x \<or> a \<in> set hs" "b = x \<or> b \<in> set hs" using assms(2) by auto
  then show "\<not> clash a b"
    using ab assms(1,3) clash_sym [of a b] by (auto simp: conflict_free_def)
qed

lemma held_count_push:
  "held_count owner item key_of (tbl(k := tbl k @ [h])) t x =
     held_count owner item key_of tbl t x + (if owner h = t \<and> item k h = x then 1 else 0)"
  by (auto simp: held_count_def key_of_item)

lemma index_ok_push:
  assumes "index_ok owner item key_of tbl idx"
  shows "index_ok owner item key_of (tbl(k := tbl k @ [h])) (idx(owner h := idx (owner h) @ [item k h]))"
  using assms by (auto simp: index_ok_def held_count_push)

lemma held_count_remove:
  assumes "i < length (tbl k)"
  shows "held_count owner item key_of (tbl(k := swap_remove i (tbl k))) t x =
     held_count owner item key_of tbl t x
       - (if owner (tbl k ! i) = t \<and> item k (tbl k ! i) = x then 1 else 0)"
  using assms by (auto simp: held_count_def mset_swap_remove key_of_item size_Diff_singleton)

lemma index_ok_remove:
  assumes "index_ok owner item key_of tbl idx" and "i < length (tbl k)"
    and "j < length (idx (owner (tbl k ! i)))"
    and "idx (owner (tbl k ! i)) ! j = item k (tbl k ! i)"
  shows "index_ok owner item key_of (tbl(k := swap_remove i (tbl k)))
           (idx(owner (tbl k ! i) := swap_remove j (idx (owner (tbl k ! i)))))"
  using assms by (auto simp: index_ok_def held_count_remove mset_swap_remove)

text \<open>Replacing a holder by one of the same owner and item, as an upgrade does.\<close>

lemma held_count_replace:
  assumes "i < length (tbl k)" and "owner h = owner (tbl k ! i)" and "item k h = item k (tbl k ! i)"
  shows "held_count owner item key_of (tbl(k := (tbl k)[i := h])) t x =
     held_count owner item key_of tbl t x"
proof (cases "k = key_of x")
  case True
  let ?p = "\<lambda>h. owner h = t \<and> item k h = x"
  have same: "?p h \<longleftrightarrow> ?p (tbl k ! i)" using assms by simp
  have "mset ((tbl k)[i := h]) = add_mset h (mset (tbl k) - {#tbl k ! i#})"
    using assms(1) by (rule mset_update)
  then have new: "size (filter_mset ?p (mset ((tbl k)[i := h]))) =
      size (filter_mset ?p (mset (tbl k) - {#tbl k ! i#})) + (if ?p h then 1 else 0)"
    by simp
  have "mset (tbl k) = add_mset (tbl k ! i) (mset (tbl k) - {#tbl k ! i#})"
    using assms(1) by simp
  then have "size (filter_mset ?p (mset (tbl k))) =
      size (filter_mset ?p (add_mset (tbl k ! i) (mset (tbl k) - {#tbl k ! i#})))"
    by simp
  with new same have "size (filter_mset ?p (mset ((tbl k)[i := h]))) =
      size (filter_mset ?p (mset (tbl k)))"
    by simp
  with True show ?thesis by (simp add: held_count_def)
qed (simp add: held_count_def)

lemma index_ok_replace:
  assumes "index_ok owner item key_of tbl idx" and "i < length (tbl k)"
    and "owner h = owner (tbl k ! i)" and "item k h = item k (tbl k ! i)"
  shows "index_ok owner item key_of (tbl(k := (tbl k)[i := h])) idx"
  using assms by (auto simp: index_ok_def held_count_replace)

text \<open>The index lists what is held, and only that.\<close>

lemma index_ok_mem:
  assumes "index_ok owner item key_of tbl idx"
  shows "x \<in> set (idx t) \<longleftrightarrow> (\<exists>h \<in> set (tbl (key_of x)). owner h = t \<and> item (key_of x) h = x)"
proof -
  have "x \<in> set (idx t) \<longleftrightarrow> count (mset (idx t)) x \<noteq> 0"
    by (simp add: count_eq_zero_iff)
  also have "\<dots> \<longleftrightarrow> filter_mset (\<lambda>h. owner h = t \<and> item (key_of x) h = x) (mset (tbl (key_of x))) \<noteq> {#}"
    using assms by (simp add: index_ok_def held_count_def)
  also have "\<dots> \<longleftrightarrow> (\<exists>h \<in> set (tbl (key_of x)). owner h = t \<and> item (key_of x) h = x)"
    by auto
  finally show ?thesis .
qed

lemma index_ok_holder_mem:
  "index_ok owner item key_of tbl idx \<Longrightarrow> h \<in> set (tbl k) \<Longrightarrow> item k h \<in> set (idx (owner h))"
  by (auto simp: index_ok_mem key_of_item)

text \<open>
  The loop over all items of an owner.  It drops one holder per item, and what is left under every
  key are the holders of the other owners.
\<close>

lemma drop_loop:
  assumes "\<forall>x. count (mset xs) x = held_count owner item key_of tbl t x"
  shows "snd (fold (drop_one owner item key_of t) xs (tbl, n)) = n + length xs
     \<and> (\<forall>k. mset (fst (fold (drop_one owner item key_of t) xs (tbl, n)) k) =
            filter_mset (\<lambda>h. owner h \<noteq> t) (mset (tbl k)))"
  using assms
proof (induction xs arbitrary: tbl n)
  case Nil
  have "owner h \<noteq> t" if "h \<in> set (tbl k)" for h k
  proof
    assume "owner h = t"
    with that have "h \<in># filter_mset (\<lambda>g. owner g = t \<and> item k g = item k h) (mset (tbl k))"
      by simp
    moreover have "held_count owner item key_of tbl t (item k h) = 0" using Nil by simp
    ultimately show False using that by (auto simp: held_count_def key_of_item)
  qed
  then have "filter_mset (\<lambda>h. owner h \<noteq> t) (mset (tbl k)) = mset (tbl k)" for k
    by (simp flip: mset_filter)
  then show ?case by simp
next
  case (Cons x xs)
  let ?k = "key_of x"
  let ?p = "\<lambda>h. owner h = t \<and> item ?k h = x"
  have "held_count owner item key_of tbl t x \<noteq> 0"
    using Cons.prems by (metis count_eq_zero_iff list.set_intros(1) set_mset_mset)
  then have "\<exists>h \<in> set (tbl ?k). ?p h" by (auto simp: held_count_def)
  then obtain pos where pos: "position ?p (tbl ?k) = Some pos"
    using position_exists [of _ "tbl ?k" ?p] by blast
  then have len: "pos < length (tbl ?k)" and hit: "?p (tbl ?k ! pos)"
    using position_SomeD [OF pos] by auto
  define tbl1 where "tbl1 = tbl(?k := swap_remove pos (tbl ?k))"
  have step: "drop_one owner item key_of t x (tbl, n) = (tbl1, Suc n)"
    using pos by (simp add: drop_one_def tbl1_def)
  have cnt: "\<forall>y. count (mset xs) y = held_count owner item key_of tbl1 t y"
    using Cons.prems len hit by (auto simp: held_count_remove tbl1_def split: if_splits)
  have rest: "filter_mset (\<lambda>h. owner h \<noteq> t) (mset (tbl1 k)) =
      filter_mset (\<lambda>h. owner h \<noteq> t) (mset (tbl k))" for k
    using len hit by (simp add: mset_swap_remove tbl1_def)
  show ?case using Cons.IH [OF cnt, of "Suc n"] by (simp add: step rest)
qed

lemma index_ok_drop_owner:
  assumes "index_ok owner item key_of tbl idx"
    and "\<forall>k. mset (tbl' k) = filter_mset (\<lambda>h. owner h \<noteq> t) (mset (tbl k))"
  shows "index_ok owner item key_of tbl' (idx(t := []))"
proof -
  have "held_count owner item key_of tbl' u x =
      (if u = t then 0 else held_count owner item key_of tbl u x)" for u x
    using assms(2) by (auto simp: held_count_def filter_filter_mset intro!: arg_cong [where f = size]
        filter_mset_cong)
  then show ?thesis using assms(1) by (simp add: index_ok_def)
qed

end

text \<open>The empty table has the empty index.\<close>

lemma index_ok_empty: "index_ok owner item key_of (\<lambda>k. []) (\<lambda>t. [])"
  by (simp add: index_ok_def held_count_def)

end
