(* ===== verification/Shard.thy ===== *)
theory Shard
  imports Mode Ids Key_Range Holder_Table
begin

text \<open>
  One shard of the lock table (\<open>src/src/manager.rs\<close>): its data and, for each operation, the part
  that runs while the mutex of the shard is held.  A critical section takes the shard's state and
  returns its result with the new state; the public operations in \<open>Manager\<close> route to a shard and run
  these.  Rust's in-place mutation through references is written out: what the source stores
  through an entry is stored back with \<open>fmupd\<close>.
\<close>

section \<open>Data\<close>

record Holder =
  h_txn :: TxnId
  h_mode :: LockMode

record LockEntry =
  le_holders :: "Holder list"

definition LockEntry_new :: LockEntry where
  "LockEntry_new = \<lparr>le_holders = []\<rparr>"

record RangeHolder =
  rh_txn :: TxnId
  rh_range :: KeyRange
  rh_mode :: LockMode

record RangeSpace =
  rs_holders :: "RangeHolder list"

definition RangeSpace_new :: RangeSpace where
  "RangeSpace_new = \<lparr>rs_holders = []\<rparr>"

record ShardInner =
  locks :: "(ResourceId, LockEntry) hash_map"
  by_txn :: "(TxnId, ResourceId list) hash_map"
  ranges :: "(ResourceId, RangeSpace) hash_map"
  range_by_txn :: "(TxnId, (ResourceId \<times> KeyRange) list) hash_map"

definition ShardInner_new :: ShardInner where
  "ShardInner_new =
     \<lparr>locks = fmempty, by_txn = fmempty, ranges = fmempty, range_by_txn = fmempty\<rparr>"

section \<open>Point locks\<close>

text \<open>
  \<open>try_grant_locked\<close>: whether the mode is granted, and the two maps afterwards.  The entry is
  inserted before anything is decided, as \<open>or_insert_with\<close> does.
\<close>

definition try_grant_locked ::
  "(ResourceId, LockEntry) hash_map \<Rightarrow> (TxnId, ResourceId list) hash_map \<Rightarrow>
   TxnId \<Rightarrow> ResourceId \<Rightarrow> LockMode \<Rightarrow>
   bool \<times> (ResourceId, LockEntry) hash_map \<times> (TxnId, ResourceId list) hash_map"
where
  "try_grant_locked lks bt txn res mode =
     (let (entry, lks1) = entry_or_insert res LockEntry_new lks; hs = le_holders entry in
      case position (\<lambda>h. h_txn h = txn) hs of
        Some pos \<Rightarrow>
          (let current = h_mode (hs ! pos) in
           if covers current mode then (True, lks1, bt)
           else
             (let target = join current mode;
                  blocked = list_ex (\<lambda>(i, h). i \<noteq> pos \<and> \<not> compatible_with (h_mode h) target)
                    (enumerate 0 hs)
              in if blocked then (False, lks1, bt)
                 else (True,
                   fmupd res (entry\<lparr>le_holders := hs[pos := (hs ! pos)\<lparr>h_mode := target\<rparr>]\<rparr>) lks1,
                   bt)))
      | None \<Rightarrow>
          if list_all (\<lambda>h. compatible_with (h_mode h) mode) hs
          then (True,
            fmupd res (entry\<lparr>le_holders := hs @ [\<lparr>h_txn = txn, h_mode = mode\<rparr>]\<rparr>) lks1,
            entry_push txn res bt)
          else (False, lks1, bt))"

text \<open>The grant attempt of \<open>try_acquire\<close> and \<open>request\<close> on a locked shard.\<close>

definition grant_section :: "TxnId \<Rightarrow> ResourceId \<Rightarrow> LockMode \<Rightarrow> ShardInner \<Rightarrow> bool \<times> ShardInner" where
  "grant_section txn res mode sh =
     (let (granted, lks, bt) = try_grant_locked (locks sh) (by_txn sh) txn res mode
      in (granted, sh\<lparr>locks := lks, by_txn := bt\<rparr>))"

text \<open>
  \<open>forget_resource\<close>: one occurrence leaves the vector of the transaction, and the key goes with the
  last one.
\<close>

definition forget_resource ::
  "(TxnId, ResourceId list) hash_map \<Rightarrow> TxnId \<Rightarrow> ResourceId \<Rightarrow> (TxnId, ResourceId list) hash_map"
where
  "forget_resource bt txn res =
     (case fmlookup bt txn of
        None \<Rightarrow> bt
      | Some resources \<Rightarrow>
          (let resources1 = (case position (\<lambda>r. r = res) resources of
                 Some pos \<Rightarrow> swap_remove pos resources
               | None \<Rightarrow> resources)
           in if resources1 = [] then fmdrop txn bt else fmupd txn resources1 bt))"

definition release_section :: "TxnId \<Rightarrow> ResourceId \<Rightarrow> ShardInner \<Rightarrow> (LockError + unit) \<times> ShardInner" where
  "release_section txn res sh =
     (case fmlookup (locks sh) res of
        None \<Rightarrow> (Err NotHeld, sh)
      | Some entry \<Rightarrow>
          (case position (\<lambda>h. h_txn h = txn) (le_holders entry) of
             None \<Rightarrow> (Err NotHeld, sh)
           | Some pos \<Rightarrow>
               (let hs = swap_remove pos (le_holders entry);
                    lks = (if hs = [] then fmdrop res (locks sh)
                           else fmupd res (entry\<lparr>le_holders := hs\<rparr>) (locks sh))
                in (Ok (), sh\<lparr>locks := lks, by_txn := forget_resource (by_txn sh) txn res\<rparr>))))"

section \<open>Range locks\<close>

definition range_acquire_section ::
  "TxnId \<Rightarrow> ResourceId \<Rightarrow> KeyRange \<Rightarrow> LockMode \<Rightarrow> ShardInner \<Rightarrow> (LockError + unit) \<times> ShardInner"
where
  "range_acquire_section txn space rg mode sh =
     (let (rs, rgs1) = entry_or_insert space RangeSpace_new (ranges sh);
          conflict = list_ex (\<lambda>h. rh_txn h \<noteq> txn \<and> overlaps (rh_range h) rg
                                \<and> \<not> compatible_with (rh_mode h) mode) (rs_holders rs)
      in if conflict then (Err Conflict, sh\<lparr>ranges := rgs1\<rparr>)
         else (Ok (), sh\<lparr>
           ranges := fmupd space (rs\<lparr>rs_holders :=
             rs_holders rs @ [\<lparr>rh_txn = txn, rh_range = rg, rh_mode = mode\<rparr>]\<rparr>) rgs1,
           range_by_txn := entry_push txn (space, rg) (range_by_txn sh)\<rparr>))"

definition forget_range ::
  "(TxnId, (ResourceId \<times> KeyRange) list) hash_map \<Rightarrow> TxnId \<Rightarrow> ResourceId \<Rightarrow> KeyRange \<Rightarrow>
   (TxnId, (ResourceId \<times> KeyRange) list) hash_map"
where
  "forget_range rbt txn space rg =
     (case fmlookup rbt txn of
        None \<Rightarrow> rbt
      | Some held \<Rightarrow>
          (let held1 = (case position (\<lambda>(s, r). s = space \<and> r = rg) held of
                 Some pos \<Rightarrow> swap_remove pos held
               | None \<Rightarrow> held)
           in if held1 = [] then fmdrop txn rbt else fmupd txn held1 rbt))"

definition range_release_section ::
  "TxnId \<Rightarrow> ResourceId \<Rightarrow> KeyRange \<Rightarrow> ShardInner \<Rightarrow> (LockError + unit) \<times> ShardInner"
where
  "range_release_section txn space rg sh =
     (case fmlookup (ranges sh) space of
        None \<Rightarrow> (Err NotHeld, sh)
      | Some rs \<Rightarrow>
          (case position (\<lambda>h. rh_txn h = txn \<and> rh_range h = rg) (rs_holders rs) of
             None \<Rightarrow> (Err NotHeld, sh)
           | Some pos \<Rightarrow>
               (let hs = swap_remove pos (rs_holders rs);
                    rgs = (if hs = [] then fmdrop space (ranges sh)
                           else fmupd space (rs\<lparr>rs_holders := hs\<rparr>) (ranges sh))
                in (Ok (), sh\<lparr>ranges := rgs,
                     range_by_txn := forget_range (range_by_txn sh) txn space rg\<rparr>))))"

section \<open>Releasing everything a transaction holds in the shard\<close>

text \<open>
  The two inner loops of \<open>release_all\<close>, over the vectors taken out of the reverse indexes.  Each
  carries the map it edits and the counter \<open>released\<close>.
\<close>

definition release_point ::
  "TxnId \<Rightarrow> ResourceId \<Rightarrow> (ResourceId, LockEntry) hash_map \<times> nat \<Rightarrow>
   (ResourceId, LockEntry) hash_map \<times> nat"
where
  "release_point txn res = (\<lambda>(lks, released).
     case fmlookup lks res of
       None \<Rightarrow> (lks, released)
     | Some entry \<Rightarrow>
         (case position (\<lambda>h. h_txn h = txn) (le_holders entry) of
            None \<Rightarrow> (lks, released)
          | Some pos \<Rightarrow>
              (let hs = swap_remove pos (le_holders entry)
               in (if hs = [] then fmdrop res lks else fmupd res (entry\<lparr>le_holders := hs\<rparr>) lks,
                   Suc released))))"

definition release_span ::
  "TxnId \<Rightarrow> ResourceId \<times> KeyRange \<Rightarrow> (ResourceId, RangeSpace) hash_map \<times> nat \<Rightarrow>
   (ResourceId, RangeSpace) hash_map \<times> nat"
where
  "release_span txn = (\<lambda>(space, rg) (rgs, released).
     case fmlookup rgs space of
       None \<Rightarrow> (rgs, released)
     | Some rs \<Rightarrow>
         (case position (\<lambda>h. rh_txn h = txn \<and> rh_range h = rg) (rs_holders rs) of
            None \<Rightarrow> (rgs, released)
          | Some pos \<Rightarrow>
              (let hs = swap_remove pos (rs_holders rs)
               in (if hs = [] then fmdrop space rgs else fmupd space (rs\<lparr>rs_holders := hs\<rparr>) rgs,
                   Suc released))))"

definition release_all_section :: "TxnId \<Rightarrow> ShardInner \<Rightarrow> nat \<times> ShardInner" where
  "release_all_section txn sh =
     (let (lks, bt, n1) = (case fmlookup (by_txn sh) txn of
            None \<Rightarrow> (locks sh, by_txn sh, 0)
          | Some resources \<Rightarrow>
              (let (lks, n) = fold (release_point txn) resources (locks sh, 0)
               in (lks, fmdrop txn (by_txn sh), n)));
          (rgs, rbt, n2) = (case fmlookup (range_by_txn sh) txn of
            None \<Rightarrow> (ranges sh, range_by_txn sh, n1)
          | Some spaces \<Rightarrow>
              (let (rgs, n) = fold (release_span txn) spaces (ranges sh, n1)
               in (rgs, fmdrop txn (range_by_txn sh), n)))
      in (n2, \<lparr>locks = lks, by_txn = bt, ranges = rgs, range_by_txn = rbt\<rparr>))"

section \<open>Reading a shard\<close>

text \<open>The holders of a resource and of a space, empty when the map has no entry.\<close>

definition holders_of :: "(ResourceId, LockEntry) hash_map \<Rightarrow> ResourceId \<Rightarrow> Holder list" where
  "holders_of lks res = get_map_or [] le_holders lks res"

definition span_holders_of :: "(ResourceId, RangeSpace) hash_map \<Rightarrow> ResourceId \<Rightarrow> RangeHolder list" where
  "span_holders_of rgs space = get_map_or [] rs_holders rgs space"

definition mode_section :: "TxnId \<Rightarrow> ResourceId \<Rightarrow> ShardInner \<Rightarrow> LockMode option" where
  "mode_section txn res sh =
     map_option h_mode
       (Option.bind (fmlookup (locks sh) res) (\<lambda>e. find (\<lambda>h. h_txn h = txn) (le_holders e)))"

definition blocking_section :: "TxnId \<Rightarrow> ResourceId \<Rightarrow> LockMode \<Rightarrow> ShardInner \<Rightarrow> TxnId list" where
  "blocking_section waiter res mode sh =
     get_map_or []
       (\<lambda>entry. map h_txn
          (filter (\<lambda>h. h_txn h \<noteq> waiter \<and> \<not> compatible_with (h_mode h) mode) (le_holders entry)))
       (locks sh) res"

end
