(* ===== verification/Manager.thy ===== *)
theory Manager
  imports Wait_Graph Shard
begin

text \<open>
  The lock manager (\<open>src/src/manager.rs\<close>): construction, the mapping of resources to shards, and the
  public operations, composed from the critical sections of \<open>Shard\<close> and the wait-for graph of
  \<open>Wait_Graph\<close>.  An operation returns an option: \<open>None\<close> is a panic (the index of \<open>lock_shard\<close> out of
  range, an arithmetic overflow under overflow checks, a failed allocation).  A mutex holds its
  contents and nothing else; both \<open>lock\<close> and \<open>lock_waits\<close> recover a poisoned guard, so locking always
  yields the contents.  This theory runs one operation at a time;
  \<open>Threads\<close> has their interleaving.
\<close>

section \<open>Data\<close>

definition FIB_HASH :: u64 where
  "FIB_HASH = 0x9E3779B97F4A7C15"

definition DEADLOCK_VICTIM_POLICY :: VictimPolicy where
  "DEADLOCK_VICTIM_POLICY = Youngest"

record Shard =
  inner :: ShardInner

record LockManager =
  shards :: "Shard list"
  bits :: u32
  waits :: "(TxnId, ResourceId \<times> LockMode) hash_map"

datatype Acquisition = Granted | Waiting | Deadlock Deadlock

section \<open>Integer operations of the standard library\<close>

text \<open>
  \<open>usize::next_power_of_two\<close>: the least power of two at or above the number.  When it is \<open>2 ^ 64\<close>
  the addition overflows: a panic with overflow checks (\<open>oc\<close>), 0 without them.
\<close>

definition next_power_of_two :: "bool \<Rightarrow> usize \<Rightarrow> usize option" where
  "next_power_of_two oc n =
     (case find (\<lambda>k. unat n \<le> 2 ^ k) [0..<64] of
        Some k \<Rightarrow> Some (2 ^ k)
      | None \<Rightarrow> if oc then None else Some 0)"

definition trailing_zeros :: "usize \<Rightarrow> u32" where
  "trailing_zeros n = of_nat (case find (\<lambda>k. bit n k) [0..<64] of Some k \<Rightarrow> k | None \<Rightarrow> 64)"

definition saturating_mul :: "usize \<Rightarrow> usize \<Rightarrow> usize" where
  "saturating_mul a b = (if unat a * unat b < 2 ^ 64 then a * b else - 1)"

definition clamp :: "usize \<Rightarrow> usize \<Rightarrow> usize \<Rightarrow> usize" where
  "clamp lo hi x = (if x < lo then lo else if hi < x then hi else x)"

section \<open>Construction\<close>

text \<open>
  The environment supplies whether overflow checks are on (\<open>oc\<close>), for which lengths
  \<open>Vec::with_capacity\<close> provides a vector of shards (\<open>alloc\<close>; it panics when the size in bytes would
  exceed \<open>isize::MAX\<close> or memory is short), and what \<open>available_parallelism\<close> reports (\<open>par\<close>).
\<close>

definition with_shards :: "bool \<Rightarrow> (usize \<Rightarrow> bool) \<Rightarrow> usize \<Rightarrow> LockManager option" where
  "with_shards oc alloc n =
     Option.bind (next_power_of_two oc (max n 1)) (\<lambda>m.
       if alloc m
       then Some \<lparr>shards = replicate (unat m) \<lparr>inner = ShardInner_new\<rparr>, bits = trailing_zeros m,
                  waits = fmempty\<rparr>
       else None)"

definition LockManager_new :: "bool \<Rightarrow> (usize \<Rightarrow> bool) \<Rightarrow> usize option \<Rightarrow> LockManager option" where
  "LockManager_new oc alloc par =
     (let parallelism = (case par of Some n \<Rightarrow> n | None \<Rightarrow> 1)
      in Option.bind (next_power_of_two oc (saturating_mul parallelism 4)) (\<lambda>p.
           with_shards oc alloc (clamp 16 1024 p)))"

definition LockManager_default :: "bool \<Rightarrow> (usize \<Rightarrow> bool) \<Rightarrow> usize option \<Rightarrow> LockManager option" where
  "LockManager_default oc alloc par = LockManager_new oc alloc par"

definition shard_count :: "LockManager \<Rightarrow> nat" where
  "shard_count mg = length (shards mg)"

section \<open>Routing to a shard\<close>

definition shard_index :: "LockManager \<Rightarrow> ResourceId \<Rightarrow> usize" where
  "shard_index mg res =
     (if bits mg = 0 then 0
      else (let hash = ResourceId_get res * FIB_HASH in drop_bit (unat (64 - bits mg)) hash))"

text \<open>
  \<open>lock_shard\<close> indexes the slice, which panics out of range.  \<open>with_shard\<close> runs a critical section
  on the shard of a resource and puts the new state in its place; \<open>read_shard\<close> only looks.
\<close>

definition lock_shard :: "LockManager \<Rightarrow> ResourceId \<Rightarrow> ShardInner option" where
  "lock_shard mg res =
     (let i = unat (shard_index mg res)
      in if i < length (shards mg) then Some (inner (shards mg ! i)) else None)"

definition with_shard ::
  "LockManager \<Rightarrow> ResourceId \<Rightarrow> (ShardInner \<Rightarrow> 'a \<times> ShardInner) \<Rightarrow> ('a \<times> LockManager) option"
where
  "with_shard mg res crit =
     map_option (\<lambda>sh. let (x, sh1) = crit sh; i = unat (shard_index mg res)
                      in (x, mg\<lparr>shards := (shards mg)[i := (shards mg ! i)\<lparr>inner := sh1\<rparr>]\<rparr>))
       (lock_shard mg res)"

definition read_shard :: "LockManager \<Rightarrow> ResourceId \<Rightarrow> (ShardInner \<Rightarrow> 'a) \<Rightarrow> 'a option" where
  "read_shard mg res look = map_option look (lock_shard mg res)"

section \<open>Point locks\<close>

definition try_acquire ::
  "LockManager \<Rightarrow> TxnId \<Rightarrow> ResourceId \<Rightarrow> LockMode \<Rightarrow> ((LockError + unit) \<times> LockManager) option"
where
  "try_acquire mg txn res mode =
     map_option (\<lambda>(granted, mg1). (if granted then Ok () else Err Conflict, mg1))
       (with_shard mg res (grant_section txn res mode))"

definition release :: "LockManager \<Rightarrow> TxnId \<Rightarrow> ResourceId \<Rightarrow> ((LockError + unit) \<times> LockManager) option" where
  "release mg txn res = with_shard mg res (release_section txn res)"

primrec release_shards :: "TxnId \<Rightarrow> Shard list \<Rightarrow> nat \<Rightarrow> nat \<times> Shard list" where
  "release_shards txn [] released = (released, [])"
| "release_shards txn (shard # rest) released =
     (let (n, sh) = release_all_section txn (inner shard);
          (total, rest1) = release_shards txn rest (released + n)
      in (total, shard\<lparr>inner := sh\<rparr> # rest1))"

definition release_all :: "LockManager \<Rightarrow> TxnId \<Rightarrow> nat \<times> LockManager" where
  "release_all mg txn =
     (let mg1 = mg\<lparr>waits := fmdrop txn (waits mg)\<rparr>;
          (released, shs) = release_shards txn (shards mg1) 0
      in (released, mg1\<lparr>shards := shs\<rparr>))"

definition holder_count :: "LockManager \<Rightarrow> ResourceId \<Rightarrow> nat option" where
  "holder_count mg res =
     read_shard mg res (\<lambda>sh. get_map_or 0 (\<lambda>e. length (le_holders e)) (locks sh) res)"

definition mode_held :: "LockManager \<Rightarrow> TxnId \<Rightarrow> ResourceId \<Rightarrow> LockMode option option" where
  "mode_held mg txn res = read_shard mg res (mode_section txn res)"

section \<open>Range locks\<close>

definition try_acquire_range ::
  "LockManager \<Rightarrow> TxnId \<Rightarrow> ResourceId \<Rightarrow> KeyRange \<Rightarrow> LockMode \<Rightarrow>
   ((LockError + unit) \<times> LockManager) option"
where
  "try_acquire_range mg txn space rg mode = with_shard mg space (range_acquire_section txn space rg mode)"

definition release_range ::
  "LockManager \<Rightarrow> TxnId \<Rightarrow> ResourceId \<Rightarrow> KeyRange \<Rightarrow> ((LockError + unit) \<times> LockManager) option"
where
  "release_range mg txn space rg = with_shard mg space (range_release_section txn space rg)"

definition range_count :: "LockManager \<Rightarrow> ResourceId \<Rightarrow> nat option" where
  "range_count mg space =
     read_shard mg space (\<lambda>sh. get_map_or 0 (\<lambda>rs. length (rs_holders rs)) (ranges sh) space)"

section \<open>Deadlock-aware acquisition\<close>

definition holders_blocking :: "LockManager \<Rightarrow> TxnId \<Rightarrow> ResourceId \<Rightarrow> LockMode \<Rightarrow> TxnId list option" where
  "holders_blocking mg waiter res mode = read_shard mg res (blocking_section waiter res mode)"

text \<open>
  The loop of \<open>build_wait_graph\<close> over the waits, in the order \<open>ord\<close> in which the map yields its keys.
\<close>

primrec add_waiters :: "LockManager \<Rightarrow> TxnId list \<Rightarrow> WaitForGraph \<Rightarrow> WaitForGraph option" where
  "add_waiters mg [] graph = Some graph"
| "add_waiters mg (waiter # rest) graph =
     (case fmlookup (waits mg) waiter of
        None \<Rightarrow> add_waiters mg rest graph
      | Some (res, mode) \<Rightarrow>
          Option.bind (holders_blocking mg waiter res mode) (\<lambda>blockers.
            add_waiters mg rest (add_waits graph waiter blockers)))"

definition build_wait_graph :: "(TxnId set \<Rightarrow> TxnId list) \<Rightarrow> LockManager \<Rightarrow> WaitForGraph option" where
  "build_wait_graph ord mg = add_waiters mg (ord (fmdom' (waits mg))) WaitForGraph_new"

definition request ::
  "(TxnId set \<Rightarrow> TxnId list) \<Rightarrow> LockManager \<Rightarrow> TxnId \<Rightarrow> ResourceId \<Rightarrow> LockMode \<Rightarrow>
   (Acquisition \<times> LockManager) option"
where
  "request ord mg txn res mode =
     Option.bind (with_shard mg res (grant_section txn res mode)) (\<lambda>(granted, mg1).
       if granted then Some (Granted, mg1\<lparr>waits := fmdrop txn (waits mg1)\<rparr>)
       else
         (let mg2 = mg1\<lparr>waits := fmupd txn (res, mode) (waits mg1)\<rparr>
          in Option.bind (build_wait_graph ord mg2) (\<lambda>graph.
               case cycle_from graph txn of
                 Some cycle \<Rightarrow>
                   (let victim = (case pick_victim cycle DEADLOCK_VICTIM_POLICY of
                        Some v \<Rightarrow> v | None \<Rightarrow> txn)
                    in Some (Deadlock \<lparr>dl_victim = victim, dl_cycle = cycle\<rparr>, mg2))
               | None \<Rightarrow> Some (Waiting, mg2))))"

definition cancel_wait :: "LockManager \<Rightarrow> TxnId \<Rightarrow> LockManager" where
  "cancel_wait mg txn = mg\<lparr>waits := fmdrop txn (waits mg)\<rparr>"

text \<open>The two question marks of \<open>find_deadlock\<close> return \<open>None\<close>, inside the outer option for panics.\<close>

definition find_deadlock :: "(TxnId set \<Rightarrow> TxnId list) \<Rightarrow> LockManager \<Rightarrow> Deadlock option option" where
  "find_deadlock ord mg =
     map_option (\<lambda>graph.
         Option.bind (detect_cycle ord graph) (\<lambda>cycle.
         Option.bind (pick_victim cycle DEADLOCK_VICTIM_POLICY) (\<lambda>victim.
           Some \<lparr>dl_victim = victim, dl_cycle = cycle\<rparr>)))
       (build_wait_graph ord mg)"

definition waiting_count :: "LockManager \<Rightarrow> nat" where
  "waiting_count mg = hash_map_len (waits mg)"

end
