(* ===== verification/Shard_Inv.thy ===== *)
theory Shard_Inv
  imports Shard
begin

text \<open>
  The invariant of a shard and what its critical sections do to it.  For point locks: a transaction
  holds a resource at most once, holders of a resource are pairwise compatible, entries and index
  vectors are never empty, and the reverse index lists exactly the resources held.  For range locks:
  overlapping ranges of different transactions are compatible, and the reverse index lists exactly
  the (space, range) pairs held, with multiplicity.

  Every section is first described by the holders it leaves, as a set or a multiset, so that no
  later proof looks at positions again.
\<close>

section \<open>The two tables as indexed tables\<close>

definition point_clash :: "Holder \<Rightarrow> Holder \<Rightarrow> bool" where
  "point_clash a b \<longleftrightarrow> \<not> compatible_with (h_mode a) (h_mode b)"

definition span_clash :: "RangeHolder \<Rightarrow> RangeHolder \<Rightarrow> bool" where
  "span_clash a b \<longleftrightarrow>
     overlaps (rh_range a) (rh_range b) \<and> \<not> compatible_with (rh_mode a) (rh_mode b)"

definition point_item :: "ResourceId \<Rightarrow> Holder \<Rightarrow> ResourceId" where
  "point_item r h = r"

definition span_item :: "ResourceId \<Rightarrow> RangeHolder \<Rightarrow> ResourceId \<times> KeyRange" where
  "span_item s h = (s, rh_range h)"

interpretation pt: indexed_table h_txn point_item "\<lambda>r. r" point_clash
  using modes.compat_sym by unfold_locales (auto simp: point_item_def point_clash_def)

interpretation sp: indexed_table rh_txn span_item fst span_clash
  using modes.compat_sym overlaps_sym by unfold_locales (auto simp: span_item_def span_clash_def)

definition point_inv ::
  "(ResourceId, LockEntry) hash_map \<Rightarrow> (TxnId, ResourceId list) hash_map \<Rightarrow> bool"
where
  "point_inv lks bt \<longleftrightarrow>
     (\<forall>r. distinct (map h_txn (holders_of lks r)))
     \<and> (\<forall>r. conflict_free h_txn point_clash (holders_of lks r))
     \<and> (\<forall>r e. fmlookup lks r = Some e \<longrightarrow> le_holders e \<noteq> [])
     \<and> index_ok h_txn point_item (\<lambda>r. r) (holders_of lks) (vec_at bt)
     \<and> (\<forall>t v. fmlookup bt t = Some v \<longrightarrow> v \<noteq> [])"

definition span_inv ::
  "(ResourceId, RangeSpace) hash_map \<Rightarrow> (TxnId, (ResourceId \<times> KeyRange) list) hash_map \<Rightarrow> bool"
where
  "span_inv rgs rbt \<longleftrightarrow>
     (\<forall>s. conflict_free rh_txn span_clash (span_holders_of rgs s))
     \<and> (\<forall>s e. fmlookup rgs s = Some e \<longrightarrow> rs_holders e \<noteq> [])
     \<and> index_ok rh_txn span_item fst (span_holders_of rgs) (vec_at rbt)
     \<and> (\<forall>t v. fmlookup rbt t = Some v \<longrightarrow> v \<noteq> [])"

definition shard_inv :: "ShardInner \<Rightarrow> bool" where
  "shard_inv sh \<longleftrightarrow> point_inv (locks sh) (by_txn sh) \<and> span_inv (ranges sh) (range_by_txn sh)"

lemma point_invD:
  assumes "point_inv lks bt"
  shows "distinct (map h_txn (holders_of lks r))"
    and "conflict_free h_txn point_clash (holders_of lks r)"
    and "fmlookup lks r = Some e \<Longrightarrow> le_holders e \<noteq> []"
    and "index_ok h_txn point_item (\<lambda>r. r) (holders_of lks) (vec_at bt)"
    and "fmlookup bt t = Some v \<Longrightarrow> v \<noteq> []"
  using assms unfolding point_inv_def by blast+

lemma span_invD:
  assumes "span_inv rgs rbt"
  shows "conflict_free rh_txn span_clash (span_holders_of rgs s)"
    and "fmlookup rgs s = Some e \<Longrightarrow> rs_holders e \<noteq> []"
    and "index_ok rh_txn span_item fst (span_holders_of rgs) (vec_at rbt)"
    and "fmlookup rbt t = Some v \<Longrightarrow> v \<noteq> []"
  using assms unfolding span_inv_def by blast+

section \<open>Storing vectors back\<close>

lemma holders_of_fmupd [map_simps]:
  "holders_of (fmupd r e lks) = (holders_of lks)(r := le_holders e)"
  by (auto simp: fun_eq_iff holders_of_def map_simps)

lemma holders_of_fmdrop [map_simps]: "holders_of (fmdrop r lks) = (holders_of lks)(r := [])"
  by (auto simp: fun_eq_iff holders_of_def map_simps)

lemma span_holders_of_fmupd [map_simps]:
  "span_holders_of (fmupd s e rgs) = (span_holders_of rgs)(s := rs_holders e)"
  by (auto simp: fun_eq_iff span_holders_of_def map_simps)

lemma span_holders_of_fmdrop [map_simps]:
  "span_holders_of (fmdrop s rgs) = (span_holders_of rgs)(s := [])"
  by (auto simp: fun_eq_iff span_holders_of_def map_simps)

lemma holders_of_Some: "fmlookup lks r = Some e \<Longrightarrow> holders_of lks r = le_holders e"
  by (simp add: holders_of_def get_map_or_Some)

lemma holders_of_None: "fmlookup lks r = None \<Longrightarrow> holders_of lks r = []"
  by (simp add: holders_of_def get_map_or_None)

lemma span_holders_of_Some: "fmlookup rgs s = Some e \<Longrightarrow> span_holders_of rgs s = rs_holders e"
  by (simp add: span_holders_of_def get_map_or_Some)

lemma span_holders_of_None: "fmlookup rgs s = None \<Longrightarrow> span_holders_of rgs s = []"
  by (simp add: span_holders_of_def get_map_or_None)

lemmas holders_lookup = holders_of_Some holders_of_None span_holders_of_Some span_holders_of_None

text \<open>
  The reverse indexes: one occurrence of an item leaves the vector of a transaction.  Both
  \<open>forget\<close> functions obey the same law, which is what the interface states.
\<close>

locale forgetful_index =
  fixes forget :: "('t, 'x list) hash_map \<Rightarrow> 't \<Rightarrow> 'x \<Rightarrow> ('t, 'x list) hash_map"
  assumes forget_vec: "position (\<lambda>y. y = x) (vec_at m t) = Some j \<Longrightarrow>
      vec_at (forget m t x) = (vec_at m)(t := swap_remove j (vec_at m t))"
    and forget_nonempty: "\<forall>u v. fmlookup m u = Some v \<longrightarrow> v \<noteq> [] \<Longrightarrow>
      \<forall>u v. fmlookup (forget m t x) u = Some v \<longrightarrow> v \<noteq> []"
begin

lemma forget_index_ok:
  assumes tab: "indexed_table item key_of clash"
    and ok: "index_ok owner item key_of tbl (vec_at m)" and i: "i < length (tbl k)"
  shows "index_ok owner item key_of (tbl(k := swap_remove i (tbl k)))
           (vec_at (forget m (owner (tbl k ! i)) (item k (tbl k ! i))))"
proof -
  let ?t = "owner (tbl k ! i)" and ?x = "item k (tbl k ! i)"
  have "?x \<in> set (vec_at m ?t)"
    using indexed_table.index_ok_holder_mem [OF tab ok] i by simp
  then obtain j where j: "position (\<lambda>y. y = ?x) (vec_at m ?t) = Some j"
    using position_exists [of ?x _ "\<lambda>y. y = ?x"] by blast
  have "index_ok owner item key_of (tbl(k := swap_remove i (tbl k)))
      ((vec_at m)(?t := swap_remove j (vec_at m ?t)))"
    using position_SomeD [OF j] by (intro indexed_table.index_ok_remove [OF tab ok i]) auto
  with forget_vec [OF j] show ?thesis by simp
qed

end

interpretation fr: forgetful_index forget_resource
proof
  fix m :: "(TxnId, ResourceId list) hash_map" and t x j
  assume j: "position (\<lambda>y. y = x) (vec_at m t) = Some j"
  then have "fmlookup m t = Some (vec_at m t)"
    using position_Some_less [OF j] by (auto simp: get_map_or_def split: option.splits)
  with j show "vec_at (forget_resource m t x) = (vec_at m)(t := swap_remove j (vec_at m t))"
    by (auto simp: forget_resource_def fun_eq_iff map_simps Let_def simp del: swap_remove_eq_Nil)
next
  fix m :: "(TxnId, ResourceId list) hash_map" and t x
  assume "\<forall>u v. fmlookup m u = Some v \<longrightarrow> v \<noteq> []"
  then show "\<forall>u v. fmlookup (forget_resource m t x) u = Some v \<longrightarrow> v \<noteq> []"
    by (auto simp: forget_resource_def Let_def split: option.splits if_splits)
qed

text \<open>\<open>forget_range\<close> with the pair as one argument.\<close>

definition forget_span ::
  "(TxnId, (ResourceId \<times> KeyRange) list) hash_map \<Rightarrow> TxnId \<Rightarrow> ResourceId \<times> KeyRange \<Rightarrow>
   (TxnId, (ResourceId \<times> KeyRange) list) hash_map"
where
  "forget_span rbt t x = forget_range rbt t (fst x) (snd x)"

interpretation fs: forgetful_index forget_span
proof
  have pair: "(\<lambda>(s, r). s = fst x \<and> r = snd x) = (\<lambda>y. y = x)"
    for x :: "ResourceId \<times> KeyRange" by auto
  fix m :: "(TxnId, (ResourceId \<times> KeyRange) list) hash_map" and t x
  show "vec_at (forget_span m t x) = (vec_at m)(t := swap_remove j (vec_at m t))"
    if j: "position (\<lambda>y. y = x) (vec_at m t) = Some j" for j
  proof -
    from j have "fmlookup m t = Some (vec_at m t)"
      using position_Some_less [OF j] by (auto simp: get_map_or_def split: option.splits)
    with j show ?thesis
      by (auto simp: forget_span_def forget_range_def pair fun_eq_iff map_simps Let_def simp del: swap_remove_eq_Nil)
  qed
  show "\<forall>u v. fmlookup (forget_span m t x) u = Some v \<longrightarrow> v \<noteq> []"
    if "\<forall>u v. fmlookup m u = Some v \<longrightarrow> v \<noteq> []"
    using that
    by (auto simp: forget_span_def forget_range_def Let_def split: option.splits if_splits)
qed

section \<open>Holders as a set\<close>

definition held_mode :: "Holder list \<Rightarrow> TxnId \<Rightarrow> LockMode option" where
  "held_mode hs t = map_option h_mode (find (\<lambda>h. h_txn h = t) hs)"

lemma holder_eq_iff: "\<lparr>h_txn = t, h_mode = m\<rparr> = h \<longleftrightarrow> h_txn h = t \<and> h_mode h = m"
  by (cases h) auto

lemma held_mode_Some:
  "distinct (map h_txn hs) \<Longrightarrow> held_mode hs t = Some m \<longleftrightarrow> \<lparr>h_txn = t, h_mode = m\<rparr> \<in> set hs"
  by (induction hs) (auto simp: held_mode_def image_iff holder_eq_iff)

lemma held_mode_None: "held_mode hs t = None \<longleftrightarrow> t \<notin> h_txn ` set hs"
  by (induction hs) (auto simp: held_mode_def)

text \<open>The set of holders determines every mode held.\<close>

lemma held_mode_insert:
  assumes "distinct (map h_txn hs)" and "distinct (map h_txn hs')"
    and "set hs' = insert \<lparr>h_txn = t, h_mode = m\<rparr> {h \<in> set hs. h_txn h \<noteq> t}"
  shows "held_mode hs' u = (if u = t then Some m else held_mode hs u)"
  by (rule option_eqI) (use assms in \<open>auto simp: held_mode_Some\<close>)

lemma held_mode_remove:
  assumes "distinct (map h_txn hs)" and "distinct (map h_txn hs')"
    and "set hs' = {h \<in> set hs. h_txn h \<noteq> t}"
  shows "held_mode hs' u = (if u = t then None else held_mode hs u)"
  by (rule option_eqI) (use assms in \<open>auto simp: held_mode_Some\<close>)

lemma conflict_free_modes:
  assumes "distinct (map h_txn hs)" and "conflict_free h_txn point_clash hs"
    and "held_mode hs t = Some a" and "held_mode hs u = Some b" and "t \<noteq> u"
  shows "compatible_with a b"
  using assms conflict_freeD [of h_txn point_clash hs "\<lparr>h_txn = t, h_mode = a\<rparr>" "\<lparr>h_txn = u, h_mode = b\<rparr>"]
  by (simp add: held_mode_Some point_clash_def)

section \<open>Granting a point lock\<close>

text \<open>The mode a grant leaves the transaction with.\<close>

definition granted_mode :: "LockMode option \<Rightarrow> LockMode \<Rightarrow> LockMode" where
  "granted_mode held mode = (case held of None \<Rightarrow> mode | Some current \<Rightarrow> join current mode)"

lemma replace_at:
  assumes "distinct (map f xs)" and "i < length xs" and "f y = f (xs ! i)"
  shows "map f (xs[i := y]) = map f xs" and "set (xs[i := y]) = insert y {x \<in> set xs. f x \<noteq> f y}"
proof -
  show m: "map f (xs[i := y]) = map f xs"
    using assms by (simp add: map_update list_update_same_conv)
  have "set (xs[i := y]) = insert y (set xs - {xs ! i})"
    using assms(1,2) by (simp add: set_update_distinct distinct_map)
  moreover have "x \<in> set xs \<Longrightarrow> f x = f y \<longleftrightarrow> x = xs ! i" for x
    using assms by (metis distinct_map inj_on_contraD nth_mem)
  ultimately show "set (xs[i := y]) = insert y {x \<in> set xs. f x \<noteq> f y}" by auto
qed

text \<open>
  \<open>grant_effect\<close> says what a decision of \<open>try_grant_locked\<close> means for the tables: refused and
  nothing changed, or granted and the transaction now holds the join of what it held and asked for,
  everything else as before.
\<close>

definition grant_effect ::
  "(ResourceId, LockEntry) hash_map \<Rightarrow> (TxnId, ResourceId list) hash_map \<Rightarrow> TxnId \<Rightarrow> ResourceId \<Rightarrow>
   LockMode \<Rightarrow> bool \<times> (ResourceId, LockEntry) hash_map \<times> (TxnId, ResourceId list) hash_map \<Rightarrow> bool"
where
  "grant_effect lks bt txn res mode = (\<lambda>(granted, lks', bt').
     let want = granted_mode (held_mode (holders_of lks res) txn) mode in
     (granted \<longleftrightarrow> (\<forall>h \<in> set (holders_of lks res). h_txn h \<noteq> txn \<longrightarrow> compatible_with (h_mode h) want))
     \<and> (\<not> granted \<longrightarrow> lks' = lks \<and> bt' = bt)
     \<and> (granted \<longrightarrow>
          set (holders_of lks' res) =
            insert \<lparr>h_txn = txn, h_mode = want\<rparr> {h \<in> set (holders_of lks res). h_txn h \<noteq> txn}
          \<and> distinct (map h_txn (holders_of lks' res))
          \<and> (\<forall>r. r \<noteq> res \<longrightarrow> holders_of lks' r = holders_of lks r)
          \<and> (\<forall>r e. fmlookup lks' r = Some e \<longrightarrow> le_holders e \<noteq> [])
          \<and> index_ok h_txn point_item (\<lambda>r. r) (holders_of lks') (vec_at bt')
          \<and> (\<forall>t v. fmlookup bt' t = Some v \<longrightarrow> v \<noteq> [])))"

text \<open>The transaction already holds the resource at \<open>pos\<close>: re-acquisition or upgrade.\<close>

lemma grant_effect_held:
  assumes inv: "point_inv lks bt" and e: "fmlookup lks res = Some e"
    and pos: "position (\<lambda>h. h_txn h = txn) (le_holders e) = Some pos"
  shows "grant_effect lks bt txn res mode (try_grant_locked lks bt txn res mode)"
proof -
  let ?hs = "le_holders e" let ?cur = "h_mode (?hs ! pos)"
  let ?new = "(?hs ! pos)\<lparr>h_mode := join ?cur mode\<rparr>"
  have hs: "holders_of lks res = ?hs" using e by (rule holders_of_Some)
  have len: "pos < length ?hs" and own: "h_txn (?hs ! pos) = txn"
    using position_SomeD [OF pos] by auto
  have dist: "distinct (map h_txn ?hs)" using point_invD(1) [OF inv, of res] hs by simp
  have self: "?hs ! pos = \<lparr>h_txn = txn, h_mode = ?cur\<rparr>" using own by (cases "?hs ! pos") simp
  have new: "?new = \<lparr>h_txn = txn, h_mode = join ?cur mode\<rparr>" using own by (cases "?hs ! pos") simp
  have held: "held_mode ?hs txn = Some ?cur"
    using self len nth_mem [OF len] by (simp add: held_mode_Some [OF dist])
  have other: "i \<noteq> pos \<longleftrightarrow> h_txn (?hs ! i) \<noteq> txn" if "i < length ?hs" for i
    using dist len own that by (metis distinct_conv_nth length_map nth_map)
  have blocked: "list_ex (\<lambda>(i, h). i \<noteq> pos \<and> \<not> compatible_with (h_mode h) m) (enumerate 0 ?hs) \<longleftrightarrow>
      \<not> (\<forall>h \<in> set ?hs. h_txn h \<noteq> txn \<longrightarrow> compatible_with (h_mode h) m)" for m
  proof -
    have "list_ex (\<lambda>(i, h). i \<noteq> pos \<and> \<not> compatible_with (h_mode h) m) (enumerate 0 ?hs) \<longleftrightarrow>
        (\<exists>i < length ?hs. i \<noteq> pos \<and> \<not> compatible_with (h_mode (?hs ! i)) m)"
      by (force simp: list_ex_iff in_set_enumerate_eq)
    also have "\<dots> \<longleftrightarrow> (\<exists>i < length ?hs. h_txn (?hs ! i) \<noteq> txn \<and> \<not> compatible_with (h_mode (?hs ! i)) m)"
      using other by blast
    finally show ?thesis by (metis in_set_conv_nth)
  qed
  have compat: "\<forall>h \<in> set ?hs. h_txn h \<noteq> txn \<longrightarrow> compatible_with (h_mode h) ?cur"
    using point_invD(2) [OF inv, of res] hs nth_mem [OF len] own
    by (auto simp: point_clash_def dest: conflict_freeD)
  show ?thesis
  proof (cases "covers ?cur mode")
    case True
    then have want: "join ?cur mode = ?cur" by (simp add: covers_join)
    have "set ?hs = insert \<lparr>h_txn = txn, h_mode = ?cur\<rparr> {h \<in> set ?hs. h_txn h \<noteq> txn}"
      using replace_at(2) [OF dist len, of "?hs ! pos"] own by (simp flip: self)
    with True inv e pos hs held want compat dist show ?thesis
      by (simp add: grant_effect_def try_grant_locked_def entry_or_insert_def granted_mode_def
          Let_def point_invD)
  next
    case False
    let ?lks = "fmupd res (e\<lparr>le_holders := ?hs[pos := ?new]\<rparr>) lks"
    have idx: "index_ok h_txn point_item (\<lambda>r. r) (holders_of ?lks) (vec_at bt)"
      using pt.index_ok_replace [OF point_invD(4) [OF inv], of pos res ?new] len hs
      by (simp add: map_simps point_item_def)
    let ?ok = "\<forall>h \<in> set ?hs. h_txn h \<noteq> txn \<longrightarrow> compatible_with (h_mode h) (join ?cur mode)"
    have eff: "try_grant_locked lks bt txn res mode =
        (if ?ok then (True, ?lks, bt) else (False, lks, bt))"
      using False e pos blocked by (simp add: try_grant_locked_def entry_or_insert_def Let_def)
    have set_new: "set (?hs[pos := ?new]) =
        insert \<lparr>h_txn = txn, h_mode = join ?cur mode\<rparr> {h \<in> set ?hs. h_txn h \<noteq> txn}"
      using replace_at(2) [OF dist len, of ?new] own by (simp flip: new)
    have dist_new: "distinct (map h_txn (?hs[pos := ?new]))"
      using replace_at(1) [OF dist len, of ?new] own dist by simp
    have want: "granted_mode (held_mode ?hs txn) mode = join ?cur mode"
      by (simp add: held granted_mode_def)
    have "?hs[pos := ?new] \<noteq> []" using len by auto
    with inv idx dist_new show ?thesis
      unfolding eff grant_effect_def Let_def hs want
      by (auto simp: set_new map_simps point_invD)
  qed
qed

text \<open>The transaction holds nothing on the resource: a fresh grant.\<close>

lemma grant_effect_fresh:
  assumes inv: "point_inv lks bt" and pos: "position (\<lambda>h. h_txn h = txn) (holders_of lks res) = None"
  shows "grant_effect lks bt txn res mode (try_grant_locked lks bt txn res mode)"
proof -
  let ?hs = "holders_of lks res" let ?h = "\<lparr>h_txn = txn, h_mode = mode\<rparr>"
  obtain e lks1 where ent: "entry_or_insert res LockEntry_new lks = (e, lks1)"
    by fastforce
  have e: "le_holders e = ?hs" and lks1: "fmlookup lks res = Some e \<Longrightarrow> lks1 = lks"
    using ent by (auto simp: entry_or_insert_def holders_of_def get_map_or_def LockEntry_new_def
        split: option.splits)
  have upd: "fmupd res v lks1 = fmupd res v lks" for v
    using ent by (auto simp: entry_or_insert_def split: option.splits)
  have fresh: "\<forall>h \<in> set ?hs. h_txn h \<noteq> txn" using pos by simp
  have none: "held_mode ?hs txn = None" using fresh by (auto simp: held_mode_None)
  let ?ok = "\<forall>h \<in> set ?hs. compatible_with (h_mode h) mode"
  have eff: "try_grant_locked lks bt txn res mode =
      (if ?ok then (True, fmupd res (e\<lparr>le_holders := ?hs @ [?h]\<rparr>) lks, entry_push txn res bt)
       else (False, lks1, bt))"
    using pos by (simp add: try_grant_locked_def ent e upd list_all_iff Let_def del: position_None)
  have keep: "\<not> ?ok \<Longrightarrow> lks1 = lks"
  proof -
    assume "\<not> ?ok"
    then have "?hs \<noteq> []" by auto
    then have "fmlookup lks res = Some e"
      using e ent by (auto simp: entry_or_insert_def holders_of_def get_map_or_def split: option.splits)
    then show "lks1 = lks" by (rule lks1)
  qed
  have "index_ok h_txn point_item (\<lambda>r. r) ((holders_of lks)(res := ?hs @ [?h]))
      ((vec_at bt)(txn := vec_at bt txn @ [res]))"
    using pt.index_ok_push [OF point_invD(4) [OF inv], of res ?h] by (simp add: point_item_def)
  then have idx: "index_ok h_txn point_item (\<lambda>r. r)
      (holders_of (fmupd res (e\<lparr>le_holders := ?hs @ [?h]\<rparr>) lks)) (vec_at (entry_push txn res bt))"
    by (simp add: holders_of_fmupd vec_at_entry_push_fun del: fun_upd_apply)
  have "distinct (map h_txn (?hs @ [?h]))"
    using point_invD(1) [OF inv, of res] fresh by auto
  moreover have "{h \<in> set ?hs. h_txn h \<noteq> txn} = set ?hs" using fresh by auto
  ultimately show ?thesis
    using none fresh inv idx keep
    by (auto simp: grant_effect_def eff granted_mode_def map_simps point_invD Let_def)
qed

lemma try_grant_effect:
  assumes "point_inv lks bt"
  shows "grant_effect lks bt txn res mode (try_grant_locked lks bt txn res mode)"
proof (cases "position (\<lambda>h. h_txn h = txn) (holders_of lks res)")
  case None
  with assms show ?thesis by (rule grant_effect_fresh)
next
  case (Some pos)
  then obtain e where "fmlookup lks res = Some e" "le_holders e = holders_of lks res"
    by (auto simp: holders_of_def get_map_or_def split: option.splits)
  with Some assms show ?thesis by (simp add: grant_effect_held)
qed

text \<open>A grant keeps the invariant: the granted mode is compatible with every other holder.\<close>

lemma grant_effect_inv:
  assumes inv: "point_inv lks bt" and eff: "grant_effect lks bt txn res mode (granted, lks', bt')"
  shows "point_inv lks' bt'"
proof (cases granted)
  case False
  with assms show ?thesis by (simp add: grant_effect_def)
next
  case True
  let ?want = "granted_mode (held_mode (holders_of lks res) txn) mode"
  let ?h = "\<lparr>h_txn = txn, h_mode = ?want\<rparr>"
  have new: "set (holders_of lks' res) = insert ?h {h \<in> set (holders_of lks res). h_txn h \<noteq> txn}"
    and ok: "\<forall>h \<in> set (holders_of lks res). h_txn h \<noteq> txn \<longrightarrow> compatible_with (h_mode h) ?want"
    and dist: "distinct (map h_txn (holders_of lks' res))"
    and same: "r \<noteq> res \<Longrightarrow> holders_of lks' r = holders_of lks r"
    and rest: "\<forall>r e. fmlookup lks' r = Some e \<longrightarrow> le_holders e \<noteq> []"
      "index_ok h_txn point_item (\<lambda>r. r) (holders_of lks') (vec_at bt')"
      "\<forall>t v. fmlookup bt' t = Some v \<longrightarrow> v \<noteq> []" for r
    using eff True by (auto simp: grant_effect_def Let_def)
  have "conflict_free h_txn point_clash (holders_of lks' res)"
    using point_invD(2) [OF inv, of res]
    by (rule pt.conflict_free_insert [where x = ?h]) (use new ok in \<open>auto simp: point_clash_def\<close>)
  with dist same rest inv show ?thesis
    unfolding point_inv_def by metis
qed

lemma try_grant_inv:
  "point_inv lks bt \<Longrightarrow> try_grant_locked lks bt txn res mode = (granted, lks', bt') \<Longrightarrow> point_inv lks' bt'"
  using try_grant_effect grant_effect_inv by metis

end
