(* ===== verification/Shard_Ops.thy ===== *)
theory Shard_Ops
  imports Shard_Inv
begin

text \<open>
  What the remaining critical sections do to a shard, in terms of two views of it: the mode a
  transaction holds on a resource (\<open>point_mode\<close>) and the vector of range holders of a space
  (\<open>spans\<close>).  Each section is described by its result, the views afterwards, and the invariant, on
  every branch; a section that fails leaves the shard exactly as it was.
\<close>

section \<open>The views of a shard\<close>

definition point_mode :: "ShardInner \<Rightarrow> TxnId \<Rightarrow> ResourceId \<Rightarrow> LockMode option" where
  "point_mode sh t r = held_mode (holders_of (locks sh) r) t"

definition spans :: "ShardInner \<Rightarrow> ResourceId \<Rightarrow> RangeHolder list" where
  "spans sh s = span_holders_of (ranges sh) s"

lemma shard_inv_new: "shard_inv ShardInner_new"
proof -
  have "holders_of fmempty = (\<lambda>r. [])" "span_holders_of fmempty = (\<lambda>s. [])"
    "vec_at (fmempty :: (TxnId, ResourceId list) hash_map) = (\<lambda>t. [])"
    "vec_at (fmempty :: (TxnId, (ResourceId \<times> KeyRange) list) hash_map) = (\<lambda>t. [])"
    by (simp_all add: fun_eq_iff holders_of_def span_holders_of_def map_simps)
  then show ?thesis
    by (simp add: shard_inv_def point_inv_def span_inv_def ShardInner_new_def index_ok_empty)
qed

lemma point_mode_new [simp]: "point_mode ShardInner_new t r = None"
  by (simp add: point_mode_def holders_of_def ShardInner_new_def map_simps held_mode_def)

lemma spans_new [simp]: "spans ShardInner_new s = []"
  by (simp add: spans_def span_holders_of_def ShardInner_new_def map_simps)

lemma shard_inv_point: "shard_inv sh \<Longrightarrow> point_inv (locks sh) (by_txn sh)"
  by (simp add: shard_inv_def)

lemma shard_inv_span: "shard_inv sh \<Longrightarrow> span_inv (ranges sh) (range_by_txn sh)"
  by (simp add: shard_inv_def)

lemma shard_holders_distinct: "shard_inv sh \<Longrightarrow> distinct (map h_txn (holders_of (locks sh) r))"
  using point_invD(1) shard_inv_point by blast

lemma mode_section_point_mode: "mode_section txn res sh = point_mode sh txn res"
  by (auto simp: mode_section_def point_mode_def holders_of_def get_map_or_def held_mode_def
      split: option.splits)

lemma point_mode_holder:
  "shard_inv sh \<Longrightarrow> point_mode sh t r = Some m \<longleftrightarrow> \<lparr>h_txn = t, h_mode = m\<rparr> \<in> set (holders_of (locks sh) r)"
  by (simp add: point_mode_def held_mode_Some shard_holders_distinct)

lemma holder_point_mode:
  "shard_inv sh \<Longrightarrow> h \<in> set (holders_of (locks sh) r) \<longleftrightarrow> point_mode sh (h_txn h) r = Some (h_mode h)"
  by (cases h) (simp add: point_mode_holder)

lemma all_holders:
  "shard_inv sh \<Longrightarrow> (\<forall>h \<in> set (holders_of (locks sh) r). P (h_txn h) (h_mode h)) \<longleftrightarrow>
     (\<forall>t m. point_mode sh t r = Some m \<longrightarrow> P t m)"
  by (metis holder_point_mode point_mode_holder Holder.select_convs(1) Holder.select_convs(2))

text \<open>The number of holders of a resource is the number of transactions that hold it.\<close>

lemma length_holders:
  assumes "shard_inv sh"
  shows "length (holders_of (locks sh) r) = card {t. point_mode sh t r \<noteq> None}"
proof -
  have d: "distinct (map h_txn (holders_of (locks sh) r))"
    using assms by (rule shard_holders_distinct)
  have "{t. point_mode sh t r \<noteq> None} = set (map h_txn (holders_of (locks sh) r))"
    by (auto simp: point_mode_def held_mode_None)
  then show ?thesis using distinct_card [OF d] by simp
qed

lemma point_modes_compatible:
  assumes "shard_inv sh" and "point_mode sh t r = Some a" and "point_mode sh u r = Some b" and "t \<noteq> u"
  shows "compatible_with a b"
  using assms conflict_free_modes
  by (metis point_invD(1) point_invD(2) point_mode_def shard_inv_def)

lemma spans_compatible:
  assumes "shard_inv sh" and "a \<in> set (spans sh s)" and "b \<in> set (spans sh s)" and "rh_txn a \<noteq> rh_txn b"
    and "overlaps (rh_range a) (rh_range b)"
  shows "compatible_with (rh_mode a) (rh_mode b)"
  using conflict_freeD [OF span_invD(1) [OF shard_inv_span]] assms
  by (fastforce simp: spans_def span_clash_def)

section \<open>Granting\<close>

lemma grant_section_effect:
  assumes inv: "shard_inv sh" and run: "grant_section txn res mode sh = (granted, sh')"
  defines "want \<equiv> granted_mode (point_mode sh txn res) mode"
  shows "granted \<longleftrightarrow> (\<forall>u m. u \<noteq> txn \<and> point_mode sh u res = Some m \<longrightarrow> compatible_with m want)"
    and "point_mode sh' t r =
           (if granted \<and> t = txn \<and> r = res then Some want else point_mode sh t r)"
    and "spans sh' = spans sh"
    and "\<not> granted \<Longrightarrow> sh' = sh"
    and "shard_inv sh'"
proof -
  obtain lks bt where t: "try_grant_locked (locks sh) (by_txn sh) txn res mode = (granted, lks, bt)"
    and sh': "sh' = sh\<lparr>locks := lks, by_txn := bt\<rparr>"
    using run by (auto simp: grant_section_def split: prod.splits)
  have p: "point_inv (locks sh) (by_txn sh)" using inv by (simp add: shard_inv_def)
  note eff = try_grant_effect [OF p, of txn res mode, unfolded t grant_effect_def Let_def prod.case]
  show "granted \<longleftrightarrow> (\<forall>u m. u \<noteq> txn \<and> point_mode sh u res = Some m \<longrightarrow> compatible_with m want)"
    using eff all_holders [OF inv, of res "\<lambda>u m. u \<noteq> txn \<longrightarrow> compatible_with m want"]
    unfolding want_def point_mode_def by blast
  show "point_mode sh' t r =
      (if granted \<and> t = txn \<and> r = res then Some want else point_mode sh t r)"
  proof (cases "granted \<and> r = res")
    case True
    then have "held_mode (holders_of lks res) t =
        (if t = txn then Some want else held_mode (holders_of (locks sh) res) t)"
      using eff by (intro held_mode_insert) (auto simp: want_def point_mode_def point_invD [OF p])
    with True show ?thesis by (simp add: sh' point_mode_def)
  next
    case False
    with eff show ?thesis by (auto simp: sh' point_mode_def)
  qed
  show "spans sh' = spans sh" by (simp add: sh' spans_def fun_eq_iff)
  show "\<not> granted \<Longrightarrow> sh' = sh" using eff by (simp add: sh')
  show "shard_inv sh'" using try_grant_inv [OF p t] inv by (simp add: sh' shard_inv_def)
qed

section \<open>Releasing a point lock\<close>

text \<open>Storing a shortened vector back, or dropping the key with the last holder.\<close>

abbreviation store_holders ::
  "ResourceId \<Rightarrow> LockEntry \<Rightarrow> Holder list \<Rightarrow> (ResourceId, LockEntry) hash_map \<Rightarrow> (ResourceId, LockEntry) hash_map"
where
  "store_holders res e hs lks \<equiv>
     (if hs = [] then fmdrop res lks else fmupd res (e\<lparr>le_holders := hs\<rparr>) lks)"

abbreviation store_spans ::
  "ResourceId \<Rightarrow> RangeSpace \<Rightarrow> RangeHolder list \<Rightarrow> (ResourceId, RangeSpace) hash_map \<Rightarrow> (ResourceId, RangeSpace) hash_map"
where
  "store_spans s e hs rgs \<equiv>
     (if hs = [] then fmdrop s rgs else fmupd s (e\<lparr>rs_holders := hs\<rparr>) rgs)"

lemma holders_of_store [map_simps]:
  "holders_of (store_holders res e hs lks) = (holders_of lks)(res := hs)"
  by (simp add: map_simps)

lemma span_holders_of_store [map_simps]:
  "span_holders_of (store_spans s e hs rgs) = (span_holders_of rgs)(s := hs)"
  by (simp add: map_simps)

lemma store_holders_nonempty:
  "\<forall>r e. fmlookup lks r = Some e \<longrightarrow> le_holders e \<noteq> [] \<Longrightarrow>
   fmlookup (store_holders res e' hs lks) r = Some e \<Longrightarrow> le_holders e \<noteq> []"
  by (auto split: if_splits)

lemma store_spans_nonempty:
  "\<forall>r e. fmlookup rgs r = Some e \<longrightarrow> rs_holders e \<noteq> [] \<Longrightarrow>
   fmlookup (store_spans res e' hs rgs) r = Some e \<Longrightarrow> rs_holders e \<noteq> []"
  by (auto split: if_splits)

lemma point_inv_remove:
  assumes inv: "point_inv lks bt" and i: "i < length (holders_of lks res)"
    and txn: "h_txn (holders_of lks res ! i) = txn"
  shows "point_inv (store_holders res e (swap_remove i (holders_of lks res)) lks)
           (forget_resource bt txn res)"
proof -
  let ?hs = "holders_of lks res"
  have dist: "distinct (map h_txn ?hs)" using point_invD(1) [OF inv] .
  have sub: "set (swap_remove i ?hs) \<subseteq> set ?hs" using i by (rule set_swap_remove_subset)
  have "index_ok h_txn point_item (\<lambda>r. r) ((holders_of lks)(res := swap_remove i ?hs))
      (vec_at (forget_resource bt txn res))"
    using fr.forget_index_ok [OF pt.indexed_table_axioms point_invD(4) [OF inv], of i res] i txn
    by (simp add: point_item_def)
  moreover have "conflict_free h_txn point_clash (swap_remove i ?hs)"
    using point_invD(2) [OF inv] sub by (rule conflict_free_subset)
  moreover have "\<forall>r e. fmlookup lks r = Some e \<longrightarrow> le_holders e \<noteq> []"
    "\<forall>t v. fmlookup bt t = Some v \<longrightarrow> v \<noteq> []"
    using inv by (simp_all add: point_inv_def)
  moreover have "\<forall>t v. fmlookup (forget_resource bt txn res) t = Some v \<longrightarrow> v \<noteq> []"
    using calculation(4) by (rule fr.forget_nonempty)
  moreover have "distinct (map h_txn (swap_remove i ?hs))"
    using distinct_map_swap_remove(1) [OF dist i] .
  ultimately show ?thesis
    unfolding point_inv_def holders_of_store
    using point_invD(1,2) [OF inv] store_holders_nonempty by auto
qed

lemma release_section_not_held:
  assumes "point_mode sh txn res = None"
  shows "release_section txn res sh = (Err NotHeld, sh)"
proof (cases "fmlookup (locks sh) res")
  case (Some e)
  then have "position (\<lambda>h. h_txn h = txn) (le_holders e) = None"
    using assms by (auto simp: point_mode_def held_mode_None holders_of_Some)
  with Some show ?thesis by (simp add: release_section_def del: position_None)
qed (simp add: release_section_def)

lemma release_section_held:
  assumes inv: "shard_inv sh" and held: "point_mode sh txn res \<noteq> None"
  shows "\<exists>sh'. release_section txn res sh = (Ok (), sh') \<and> shard_inv sh' \<and> spans sh' = spans sh
    \<and> (\<forall>t r. point_mode sh' t r = (if t = txn \<and> r = res then None else point_mode sh t r))"
proof -
  let ?hs = "holders_of (locks sh) res"
  have p: "point_inv (locks sh) (by_txn sh)" using inv by (simp add: shard_inv_def)
  have ne: "\<exists>h \<in> set ?hs. h_txn h = txn"
    using held by (auto simp: point_mode_def held_mode_None)
  then obtain pos where pos: "position (\<lambda>h. h_txn h = txn) ?hs = Some pos"
    using position_exists [of _ ?hs "\<lambda>h. h_txn h = txn"] by blast
  obtain e where e: "fmlookup (locks sh) res = Some e" "le_holders e = ?hs"
    using ne by (cases "fmlookup (locks sh) res") (auto simp: holders_lookup)
  have len: "pos < length ?hs" and own: "h_txn (?hs ! pos) = txn"
    using position_SomeD [OF pos] by auto
  define lks where "lks = store_holders res e (swap_remove pos ?hs) (locks sh)"
  define sh' where "sh' = sh\<lparr>locks := lks, by_txn := forget_resource (by_txn sh) txn res\<rparr>"
  have run: "release_section txn res sh = (Ok (), sh')"
    using pos e by (simp add: release_section_def sh'_def lks_def Let_def)
  have hs': "holders_of lks = (holders_of (locks sh))(res := swap_remove pos ?hs)"
    unfolding lks_def by (rule holders_of_store)
  have p': "point_inv lks (forget_resource (by_txn sh) txn res)"
    unfolding lks_def by (rule point_inv_remove [OF p len own])
  have "held_mode (holders_of lks res) t =
      (if t = txn then None else held_mode ?hs t)" for t
    using distinct_map_swap_remove [OF point_invD(1) [OF p] len] point_invD(1) [OF p] own
    by (intro held_mode_remove) (simp_all add: hs')
  then have "\<forall>t r. point_mode sh' t r = (if t = txn \<and> r = res then None else point_mode sh t r)"
    by (simp add: point_mode_def sh'_def hs')
  moreover have "shard_inv sh'" using inv p' by (simp add: shard_inv_def sh'_def)
  moreover have "spans sh' = spans sh" by (simp add: spans_def sh'_def fun_eq_iff)
  ultimately show ?thesis using run by blast
qed

section \<open>Range locks\<close>

text \<open>What makes a request for a range wait: a holder of another transaction that clashes.\<close>

definition range_blocked :: "RangeHolder list \<Rightarrow> TxnId \<Rightarrow> KeyRange \<Rightarrow> LockMode \<Rightarrow> bool" where
  "range_blocked hs txn rg mode \<longleftrightarrow>
     list_ex (\<lambda>h. rh_txn h \<noteq> txn \<and> overlaps (rh_range h) rg \<and> \<not> compatible_with (rh_mode h) mode) hs"

lemma range_acquire_blocked:
  assumes "range_blocked (spans sh space) txn rg mode"
  shows "range_acquire_section txn space rg mode sh = (Err Conflict, sh)"
proof (cases "fmlookup (ranges sh) space")
  case None
  then show ?thesis using assms by (simp add: range_blocked_def spans_def span_holders_of_None)
next
  case (Some e)
  with assms show ?thesis
    by (simp add: range_acquire_section_def range_blocked_def spans_def span_holders_of_Some
        entry_or_insert_def)
qed

lemma range_acquire_granted:
  assumes inv: "shard_inv sh" and free: "\<not> range_blocked (spans sh space) txn rg mode"
  shows "\<exists>sh'. range_acquire_section txn space rg mode sh = (Ok (), sh') \<and> shard_inv sh'
    \<and> point_mode sh' = point_mode sh
    \<and> spans sh' = (spans sh)(space := spans sh space @ [\<lparr>rh_txn = txn, rh_range = rg, rh_mode = mode\<rparr>])"
proof -
  let ?hs = "spans sh space" let ?h = "\<lparr>rh_txn = txn, rh_range = rg, rh_mode = mode\<rparr>"
  have sp: "span_inv (ranges sh) (range_by_txn sh)" using inv by (rule shard_inv_span)
  obtain e rgs1 where ent: "entry_or_insert space RangeSpace_new (ranges sh) = (e, rgs1)"
    by fastforce
  have e: "rs_holders e = ?hs" and upd: "fmupd space v rgs1 = fmupd space v (ranges sh)" for v
    using ent by (auto simp: entry_or_insert_def spans_def span_holders_of_def get_map_or_def
        RangeSpace_new_def split: option.splits)
  define rgs where "rgs = fmupd space (e\<lparr>rs_holders := ?hs @ [?h]\<rparr>) (ranges sh)"
  define rbt where "rbt = entry_push txn (space, rg) (range_by_txn sh)"
  have run: "range_acquire_section txn space rg mode sh =
      (Ok (), sh\<lparr>ranges := rgs, range_by_txn := rbt\<rparr>)"
    using free by (simp add: range_acquire_section_def ent e upd rgs_def rbt_def range_blocked_def Let_def)
  have tbl: "span_holders_of rgs = (span_holders_of (ranges sh))(space := ?hs @ [?h])"
    by (simp add: rgs_def map_simps)
  have "index_ok rh_txn span_item fst (span_holders_of rgs) (vec_at rbt)"
    using sp.index_ok_push [OF span_invD(3) [OF sp], of space ?h]
    by (simp add: tbl rbt_def vec_at_entry_push_fun span_item_def spans_def del: fun_upd_apply)
  moreover have "conflict_free rh_txn span_clash (?hs @ [?h])"
    using span_invD(1) [OF sp, of space]
    by (rule sp.conflict_free_insert [where x = ?h])
      (use free in \<open>auto simp: spans_def range_blocked_def list_ex_iff span_clash_def\<close>)
  ultimately have "span_inv rgs rbt"
    unfolding span_inv_def tbl
    using span_invD [OF sp] by (auto simp: rgs_def rbt_def entry_push_fmupd split: if_splits)
  then have "shard_inv (sh\<lparr>ranges := rgs, range_by_txn := rbt\<rparr>)"
    using inv by (simp add: shard_inv_def)
  with run tbl show ?thesis
    by (intro exI [of _ "sh\<lparr>ranges := rgs, range_by_txn := rbt\<rparr>"])
      (simp add: point_mode_def spans_def fun_eq_iff)
qed

abbreviation span_at :: "TxnId \<Rightarrow> KeyRange \<Rightarrow> RangeHolder \<Rightarrow> bool" where
  "span_at txn rg h \<equiv> rh_txn h = txn \<and> rh_range h = rg"

lemma range_release_not_held:
  assumes "position (span_at txn rg) (spans sh space) = None"
  shows "range_release_section txn space rg sh = (Err NotHeld, sh)"
proof (cases "fmlookup (ranges sh) space")
  case (Some e)
  with assms show ?thesis
    by (simp add: range_release_section_def spans_def span_holders_of_Some del: position_None)
qed (simp add: range_release_section_def)

lemma range_release_held:
  assumes inv: "shard_inv sh" and pos: "position (span_at txn rg) (spans sh space) = Some pos"
  shows "\<exists>sh'. range_release_section txn space rg sh = (Ok (), sh') \<and> shard_inv sh'
    \<and> point_mode sh' = point_mode sh
    \<and> spans sh' = (spans sh)(space := swap_remove pos (spans sh space))"
proof -
  let ?hs = "span_holders_of (ranges sh) space"
  have sp: "span_inv (ranges sh) (range_by_txn sh)" using inv by (rule shard_inv_span)
  have len: "pos < length ?hs" and own: "span_at txn rg (?hs ! pos)"
    using position_SomeD [OF pos] by (auto simp: spans_def)
  then have "?hs \<noteq> []" by auto
  then obtain e where e: "fmlookup (ranges sh) space = Some e" "rs_holders e = ?hs"
    by (cases "fmlookup (ranges sh) space") (auto simp: holders_lookup)
  define rgs where "rgs = store_spans space e (swap_remove pos ?hs) (ranges sh)"
  define rbt where "rbt = forget_range (range_by_txn sh) txn space rg"
  define sh' where "sh' = sh\<lparr>ranges := rgs, range_by_txn := rbt\<rparr>"
  have run: "range_release_section txn space rg sh = (Ok (), sh')"
    using pos e by (simp add: range_release_section_def spans_def sh'_def rgs_def rbt_def Let_def)
  have rbt: "rbt = forget_span (range_by_txn sh) txn (space, rg)"
    by (simp add: rbt_def forget_span_def)
  have tbl: "span_holders_of rgs = (span_holders_of (ranges sh))(space := swap_remove pos ?hs)"
    unfolding rgs_def by (rule span_holders_of_store)
  have "index_ok rh_txn span_item fst (span_holders_of rgs) (vec_at rbt)"
    using fs.forget_index_ok [OF sp.indexed_table_axioms span_invD(3) [OF sp], of pos space] len own
    by (simp add: tbl rbt span_item_def)
  moreover have "conflict_free rh_txn span_clash (swap_remove pos ?hs)"
    using span_invD(1) [OF sp] set_swap_remove_subset [OF len] by (rule conflict_free_subset)
  moreover have nonempty: "\<forall>s e. fmlookup (ranges sh) s = Some e \<longrightarrow> rs_holders e \<noteq> []"
    "\<forall>t v. fmlookup (range_by_txn sh) t = Some v \<longrightarrow> v \<noteq> []"
    using sp by (simp_all add: span_inv_def)
  moreover have "\<forall>t v. fmlookup rbt t = Some v \<longrightarrow> v \<noteq> []"
    unfolding rbt using nonempty(2) by (rule fs.forget_nonempty)
  moreover have "\<forall>s e. fmlookup rgs s = Some e \<longrightarrow> rs_holders e \<noteq> []"
    using store_spans_nonempty [OF nonempty(1)] unfolding rgs_def by blast
  ultimately have "span_inv rgs rbt"
    unfolding span_inv_def using span_invD(1) [OF sp] by (simp add: tbl)
  then have "shard_inv sh'" using inv by (simp add: shard_inv_def sh'_def)
  with run tbl show ?thesis
    by (intro exI [of _ sh']) (simp add: sh'_def point_mode_def spans_def fun_eq_iff)
qed

end
