(* ===== verification/Shard_Release_All.thy ===== *)
theory Shard_Release_All
  imports Shard_Ops
begin

text \<open>
  The per-shard part of \<open>release_all\<close>: the two loops over the vectors taken out of the reverse
  indexes drop exactly the holders of the transaction, everything else stays, and the counter is the
  number of locks dropped.  The loops edit hash maps; each iteration is the generic \<open>drop_one\<close> of
  \<open>Holder_Table\<close> on the table that the map stands for, so the loop lemma proved there applies to both.
\<close>

section \<open>The loops on the tables\<close>

lemma release_point_drop_one:
  "\<exists>lks'. release_point txn res (lks, n) = (lks', snd (drop_one h_txn point_item (\<lambda>r. r) txn res (holders_of lks, n)))
     \<and> holders_of lks' = fst (drop_one h_txn point_item (\<lambda>r. r) txn res (holders_of lks, n))
     \<and> ((\<forall>r e. fmlookup lks r = Some e \<longrightarrow> le_holders e \<noteq> []) \<longrightarrow>
        (\<forall>r e. fmlookup lks' r = Some e \<longrightarrow> le_holders e \<noteq> []))"
proof (cases "position (\<lambda>h. h_txn h = txn) (holders_of lks res)")
  case None
  then have "release_point txn res (lks, n) = (lks, n)"
    by (cases "fmlookup lks res")
      (simp_all add: release_point_def holders_lookup del: position_None)
  with None show ?thesis by (simp add: drop_one_def point_item_def del: position_None)
next
  case (Some pos)
  then have "holders_of lks res \<noteq> []" by auto
  then obtain e where e: "fmlookup lks res = Some e" "le_holders e = holders_of lks res"
    by (cases "fmlookup lks res") (auto simp: holders_lookup)
  let ?lks = "store_holders res e (swap_remove pos (holders_of lks res)) lks"
  have "release_point txn res (lks, n) = (?lks, Suc n)"
    using Some e by (simp add: release_point_def Let_def)
  moreover have "holders_of ?lks = (holders_of lks)(res := swap_remove pos (holders_of lks res))"
    by (rule holders_of_store)
  ultimately show ?thesis
    using Some store_holders_nonempty [of lks]
    by (intro exI [of _ ?lks]) (simp add: drop_one_def point_item_def)
qed

lemma release_span_drop_one:
  "\<exists>rgs'. release_span txn x (rgs, n) = (rgs', snd (drop_one rh_txn span_item fst txn x (span_holders_of rgs, n)))
     \<and> span_holders_of rgs' = fst (drop_one rh_txn span_item fst txn x (span_holders_of rgs, n))
     \<and> ((\<forall>r e. fmlookup rgs r = Some e \<longrightarrow> rs_holders e \<noteq> []) \<longrightarrow>
        (\<forall>r e. fmlookup rgs' r = Some e \<longrightarrow> rs_holders e \<noteq> []))"
proof -
  obtain space rg where x: "x = (space, rg)" by fastforce
  show ?thesis
  proof (cases "position (span_at txn rg) (span_holders_of rgs space)")
    case None
    then have "release_span txn x (rgs, n) = (rgs, n)"
      by (cases "fmlookup rgs space")
        (simp_all add: x release_span_def holders_lookup del: position_None)
    with None show ?thesis by (simp add: x drop_one_def span_item_def del: position_None)
  next
    case (Some pos)
    then have "span_holders_of rgs space \<noteq> []" by auto
    then obtain e where e: "fmlookup rgs space = Some e" "rs_holders e = span_holders_of rgs space"
      by (cases "fmlookup rgs space") (auto simp: holders_lookup)
    let ?rgs = "store_spans space e (swap_remove pos (span_holders_of rgs space)) rgs"
    have "release_span txn x (rgs, n) = (?rgs, Suc n)"
      using Some e by (simp add: x release_span_def Let_def)
    moreover have "span_holders_of ?rgs =
        (span_holders_of rgs)(space := swap_remove pos (span_holders_of rgs space))"
      by (rule span_holders_of_store)
    ultimately show ?thesis
      using Some store_spans_nonempty [of rgs]
      by (intro exI [of _ ?rgs]) (simp add: x drop_one_def span_item_def)
  qed
qed

text \<open>A fold over map updates is the fold of the same updates on the tables.\<close>

lemma fold_simulated:
  assumes "\<And>x m n. \<exists>m'. f x (m, n) = (m', snd (g x (tab m, n))) \<and> tab m' = fst (g x (tab m, n))
      \<and> (P m \<longrightarrow> P m')"
  shows "\<exists>m'. fold f xs (m, n) = (m', snd (fold g xs (tab m, n :: nat)))
      \<and> tab m' = fst (fold g xs (tab m, n)) \<and> (P m \<longrightarrow> P m')"
proof (induction xs arbitrary: m n)
  case (Cons x xs)
  from assms [of x m n] obtain m1 where
    m1: "f x (m, n) = (m1, snd (g x (tab m, n)))" "tab m1 = fst (g x (tab m, n))" "P m \<longrightarrow> P m1"
    by blast
  from m1(2) have step: "(tab m1, snd (g x (tab m, n))) = g x (tab m, n)" by simp
  show ?case
    using Cons.IH [of m1 "snd (g x (tab m, n))"] m1 by (auto simp: step)
qed simp

section \<open>The vectors of the reverse index\<close>

text \<open>What \<open>by_txn.remove(txn)\<close> hands to the loop is every item the transaction holds.\<close>

lemma point_loop:
  assumes "point_inv lks bt"
  shows "\<exists>lks'. fold (release_point txn) (vec_at bt txn) (lks, n) = (lks', n + length (vec_at bt txn))
    \<and> (\<forall>r. mset (holders_of lks' r) = filter_mset (\<lambda>h. h_txn h \<noteq> txn) (mset (holders_of lks r)))
    \<and> point_inv lks' (fmdrop txn bt)"
proof -
  let ?d = "drop_one h_txn point_item (\<lambda>r. r) txn"
  have ok: "index_ok h_txn point_item (\<lambda>r. r) (holders_of lks) (vec_at bt)"
    using point_invD(4) [OF assms] .
  have nonempty: "\<forall>r e. fmlookup lks r = Some e \<longrightarrow> le_holders e \<noteq> []"
    using assms by (simp add: point_inv_def)
  obtain lks' where lks': "fold (release_point txn) (vec_at bt txn) (lks, n) =
        (lks', snd (fold ?d (vec_at bt txn) (holders_of lks, n)))"
      "holders_of lks' = fst (fold ?d (vec_at bt txn) (holders_of lks, n))"
      "\<forall>r e. fmlookup lks' r = Some e \<longrightarrow> le_holders e \<noteq> []"
    using fold_simulated [of "release_point txn" ?d holders_of
        "\<lambda>m. \<forall>r e. fmlookup m r = Some e \<longrightarrow> le_holders e \<noteq> []", OF release_point_drop_one]
      nonempty by blast
  have "\<forall>x. count (mset (vec_at bt txn)) x =
      held_count h_txn point_item (\<lambda>r. r) (holders_of lks) txn x"
    using ok by (simp add: index_ok_def)
  note loop = pt.drop_loop [OF this, of n, folded lks'(2)]
  have dropped: "\<forall>r. mset (holders_of lks' r) = filter_mset (\<lambda>h. h_txn h \<noteq> txn) (mset (holders_of lks r))"
    using loop by blast
  have "set (holders_of lks' r) \<subseteq> set (holders_of lks r)" for r
    using dropped by (metis mset_filter filter_is_subset set_mset_mset)
  then have cf: "conflict_free h_txn point_clash (holders_of lks' r)" for r
    using conflict_free_subset point_invD(2) [OF assms] by blast
  have dist: "distinct (map h_txn (holders_of lks' r))" for r
  proof -
    have "mset (map h_txn (holders_of lks' r)) = mset (map h_txn (filter (\<lambda>h. h_txn h \<noteq> txn) (holders_of lks r)))"
      using dropped by simp
    moreover have "distinct (map h_txn (filter (\<lambda>h. h_txn h \<noteq> txn) (holders_of lks r)))"
      using point_invD(1) [OF assms] by (rule distinct_map_filter)
    ultimately show ?thesis using mset_eq_imp_distinct_iff by blast
  qed
  have "index_ok h_txn point_item (\<lambda>r. r) (holders_of lks') (vec_at (fmdrop txn bt))"
    unfolding vec_at_fmdrop_fun using ok dropped by (rule pt.index_ok_drop_owner)
  then have "point_inv lks' (fmdrop txn bt)"
    unfolding point_inv_def using cf dist lks'(3) point_invD(5) [OF assms] by (auto split: if_splits)
  with lks'(1) loop dropped show ?thesis by auto
qed

lemma span_loop:
  assumes "span_inv rgs rbt"
  shows "\<exists>rgs'. fold (release_span txn) (vec_at rbt txn) (rgs, n) = (rgs', n + length (vec_at rbt txn))
    \<and> (\<forall>r. mset (span_holders_of rgs' r) =
          filter_mset (\<lambda>h. rh_txn h \<noteq> txn) (mset (span_holders_of rgs r)))
    \<and> span_inv rgs' (fmdrop txn rbt)"
proof -
  let ?d = "drop_one rh_txn span_item fst txn"
  have ok: "index_ok rh_txn span_item fst (span_holders_of rgs) (vec_at rbt)"
    using span_invD(3) [OF assms] .
  have nonempty: "\<forall>r e. fmlookup rgs r = Some e \<longrightarrow> rs_holders e \<noteq> []"
    using assms by (simp add: span_inv_def)
  obtain rgs' where rgs': "fold (release_span txn) (vec_at rbt txn) (rgs, n) =
        (rgs', snd (fold ?d (vec_at rbt txn) (span_holders_of rgs, n)))"
      "span_holders_of rgs' = fst (fold ?d (vec_at rbt txn) (span_holders_of rgs, n))"
      "\<forall>r e. fmlookup rgs' r = Some e \<longrightarrow> rs_holders e \<noteq> []"
    using fold_simulated [of "release_span txn" ?d span_holders_of
        "\<lambda>m. \<forall>r e. fmlookup m r = Some e \<longrightarrow> rs_holders e \<noteq> []", OF release_span_drop_one]
      nonempty by blast
  have "\<forall>x. count (mset (vec_at rbt txn)) x =
      held_count rh_txn span_item fst (span_holders_of rgs) txn x"
    using ok by (simp add: index_ok_def)
  note loop = sp.drop_loop [OF this, of n, folded rgs'(2)]
  have dropped: "\<forall>r. mset (span_holders_of rgs' r) =
      filter_mset (\<lambda>h. rh_txn h \<noteq> txn) (mset (span_holders_of rgs r))"
    using loop by blast
  have "set (span_holders_of rgs' r) \<subseteq> set (span_holders_of rgs r)" for r
    using dropped by (metis mset_filter filter_is_subset set_mset_mset)
  then have cf: "conflict_free rh_txn span_clash (span_holders_of rgs' r)" for r
    using conflict_free_subset span_invD(1) [OF assms] by blast
  have "index_ok rh_txn span_item fst (span_holders_of rgs') (vec_at (fmdrop txn rbt))"
    unfolding vec_at_fmdrop_fun using ok dropped by (rule sp.index_ok_drop_owner)
  then have "span_inv rgs' (fmdrop txn rbt)"
    unfolding span_inv_def using cf rgs'(3) span_invD(4) [OF assms] by (auto split: if_splits)
  with rgs'(1) loop dropped show ?thesis by auto
qed

section \<open>The critical section\<close>

text \<open>The number of locks a transaction holds in a shard, as the reverse indexes count them.\<close>

definition locks_held :: "ShardInner \<Rightarrow> TxnId \<Rightarrow> nat" where
  "locks_held sh t = length (vec_at (by_txn sh) t) + length (vec_at (range_by_txn sh) t)"

lemma fold_absent_point:
  "(case fmlookup bt txn of None \<Rightarrow> (lks, bt, 0)
    | Some v \<Rightarrow> (let (l, n) = fold (release_point txn) v (lks, 0) in (l, fmdrop txn bt, n))) =
   (let (l, n) = fold (release_point txn) (vec_at bt txn) (lks, 0) in (l, fmdrop txn bt, n))"
  by (cases "fmlookup bt txn") (auto simp: get_map_or_def fmdrop_lookup intro!: fmap_ext)

lemma fold_absent_span:
  "(case fmlookup rbt txn of None \<Rightarrow> (rgs, rbt, n1)
    | Some v \<Rightarrow> (let (l, n) = fold (release_span txn) v (rgs, n1) in (l, fmdrop txn rbt, n))) =
   (let (l, n) = fold (release_span txn) (vec_at rbt txn) (rgs, n1) in (l, fmdrop txn rbt, n))"
  by (cases "fmlookup rbt txn") (auto simp: get_map_or_def intro!: fmap_ext)

lemma release_all_section_effect:
  assumes inv: "shard_inv sh"
  shows "\<exists>sh'. release_all_section txn sh = (locks_held sh txn, sh') \<and> shard_inv sh'
    \<and> (\<forall>t r. point_mode sh' t r = (if t = txn then None else point_mode sh t r))
    \<and> (\<forall>s. mset (spans sh' s) = filter_mset (\<lambda>h. rh_txn h \<noteq> txn) (mset (spans sh s)))"
proof -
  have p: "point_inv (locks sh) (by_txn sh)" using inv by (rule shard_inv_point)
  obtain lks where lks:
      "fold (release_point txn) (vec_at (by_txn sh) txn) (locks sh, 0) = (lks, length (vec_at (by_txn sh) txn))"
      "\<forall>r. mset (holders_of lks r) = filter_mset (\<lambda>h. h_txn h \<noteq> txn) (mset (holders_of (locks sh) r))"
      "point_inv lks (fmdrop txn (by_txn sh))"
    using point_loop [OF p, of txn 0] by auto
  obtain rgs where rgs:
      "fold (release_span txn) (vec_at (range_by_txn sh) txn) (ranges sh, length (vec_at (by_txn sh) txn)) =
         (rgs, locks_held sh txn)"
      "\<forall>s. mset (span_holders_of rgs s) =
         filter_mset (\<lambda>h. rh_txn h \<noteq> txn) (mset (span_holders_of (ranges sh) s))"
      "span_inv rgs (fmdrop txn (range_by_txn sh))"
    using span_loop [OF shard_inv_span [OF inv], of txn "length (vec_at (by_txn sh) txn)"]
    by (auto simp: locks_held_def)
  define sh' where "sh' = \<lparr>locks = lks, by_txn = fmdrop txn (by_txn sh), ranges = rgs,
    range_by_txn = fmdrop txn (range_by_txn sh)\<rparr>"
  have run: "release_all_section txn sh = (locks_held sh txn, sh')"
    unfolding release_all_section_def fold_absent_point fold_absent_span
    by (simp add: lks(1) rgs(1) sh'_def)
  have "held_mode (holders_of lks r) t = (if t = txn then None else held_mode (holders_of (locks sh) r) t)" for t r
  proof (rule held_mode_remove)
    show "set (holders_of lks r) = {h \<in> set (holders_of (locks sh) r). h_txn h \<noteq> txn}"
      using lks(2) by (metis mset_filter set_filter set_mset_mset)
  qed (use point_invD(1) p lks(3) in blast)+
  then have "\<forall>t r. point_mode sh' t r = (if t = txn then None else point_mode sh t r)"
    by (simp add: point_mode_def sh'_def)
  moreover have "shard_inv sh'" using lks(3) rgs(3) by (simp add: shard_inv_def sh'_def)
  moreover have "\<forall>s. mset (spans sh' s) = filter_mset (\<lambda>h. rh_txn h \<noteq> txn) (mset (spans sh s))"
    using rgs(2) by (simp add: spans_def sh'_def)
  ultimately show ?thesis using run by blast
qed

section \<open>Counting what is held\<close>

text \<open>The vector of the reverse index has one element per lock, so its length is a count of locks.\<close>

lemma point_vec:
  assumes "shard_inv sh"
  shows "distinct (vec_at (by_txn sh) t)" and "set (vec_at (by_txn sh) t) = {r. point_mode sh t r \<noteq> None}"
proof -
  have ok: "index_ok h_txn point_item (\<lambda>r. r) (holders_of (locks sh)) (vec_at (by_txn sh))"
    using point_invD(4) [OF shard_inv_point [OF assms]] .
  have "size (filter_mset (\<lambda>h. h_txn h = t) (mset hs)) \<le> 1" if "distinct (map h_txn hs)" for hs
    using that by (induction hs) (auto simp: filter_mset_eq_conv image_iff filter_empty_conv
        simp flip: mset_filter)
  then have le1: "count (mset (vec_at (by_txn sh) t)) r \<le> 1" for r
    using ok shard_holders_distinct [OF assms, of r]
    unfolding index_ok_def held_count_def point_item_def by simp
  have "count (mset (vec_at (by_txn sh) t)) r = (if r \<in> set (vec_at (by_txn sh) t) then 1 else 0)" for r
    using le1 [of r] count_mset_0_iff [of "vec_at (by_txn sh) t" r]
    by (cases "count (mset (vec_at (by_txn sh) t)) r") auto
  then show "distinct (vec_at (by_txn sh) t)"
    by (simp add: distinct_count_atmost_1)
  show "set (vec_at (by_txn sh) t) = {r. point_mode sh t r \<noteq> None}"
    by (auto simp: pt.index_ok_mem [OF ok] point_item_def point_mode_def held_mode_None)
qed

lemma point_vec_length:
  assumes "shard_inv sh"
  shows "length (vec_at (by_txn sh) t) = card {r. point_mode sh t r \<noteq> None}"
  using distinct_card [OF point_vec(1) [OF assms, of t]] point_vec(2) [OF assms, of t] by simp

lemma finite_point_mode: "shard_inv sh \<Longrightarrow> finite {r. point_mode sh t r \<noteq> None}"
  using point_vec(2) by (metis List.finite_set)

lemma finite_spans: "finite {s. spans sh s \<noteq> []}"
  by (rule finite_subset [of _ "fmdom' (ranges sh)"])
    (auto simp: spans_def span_holders_of_def get_map_or_def fmlookup_dom'_iff split: option.splits)

lemma size_by_key:
  assumes "finite S" and "f ` set_mset M \<subseteq> S"
  shows "size M = (\<Sum>s\<in>S. size (filter_mset (\<lambda>x. f x = s) M))"
  using assms
proof (induction M)
  case (add x M)
  have "(\<Sum>s\<in>S. size (filter_mset (\<lambda>y. f y = s) (add_mset x M))) =
      (\<Sum>s\<in>S. size (filter_mset (\<lambda>y. f y = s) M) + (if s = f x then 1 else 0))"
    by (intro sum.cong) auto
  also have "\<dots> = size M + 1"
    using add by (simp add: sum.distrib)
  finally show ?case by simp
qed simp

lemma span_vec_length:
  assumes "shard_inv sh"
  shows "length (vec_at (range_by_txn sh) t) =
    (\<Sum>s\<in>{s. spans sh s \<noteq> []}. length (filter (\<lambda>h. rh_txn h = t) (spans sh s)))"
proof -
  let ?v = "mset (vec_at (range_by_txn sh) t)" let ?S = "{s. spans sh s \<noteq> []}"
  have ok: "index_ok rh_txn span_item fst (spans sh) (vec_at (range_by_txn sh))"
    using span_invD(3) [OF shard_inv_span [OF assms]] by (simp add: spans_def [abs_def])
  have "fst ` set_mset ?v \<subseteq> ?S"
    by (auto simp: sp.index_ok_mem [OF ok])
  then have total: "size ?v = (\<Sum>s\<in>?S. size (filter_mset (\<lambda>x. fst x = s) ?v))"
    by (intro size_by_key finite_spans)
  have item: "filter_mset (\<lambda>x. fst x = s) ?v =
      image_mset (span_item s) (filter_mset (\<lambda>h. rh_txn h = t) (mset (spans sh s)))" for s
  proof (rule multiset_eqI)
    fix x :: "ResourceId \<times> KeyRange"
    have hit: "count (image_mset (span_item s) M) x = size (filter_mset (\<lambda>h. span_item s h = x) M)" for M
      by (induction M) auto
    show "count (filter_mset (\<lambda>x. fst x = s) ?v) x =
        count (image_mset (span_item s) (filter_mset (\<lambda>h. rh_txn h = t) (mset (spans sh s)))) x"
    proof (cases "fst x = s")
      case True
      have "count ?v x = size (filter_mset (\<lambda>h. rh_txn h = t \<and> span_item s h = x) (mset (spans sh s)))"
        using ok True unfolding index_ok_def held_count_def by blast
      with True show ?thesis by (simp add: hit filter_filter_mset)
    next
      case False
      then have "span_item s h \<noteq> x" for h by (auto simp: span_item_def)
      with False show ?thesis by (simp add: hit)
    qed
  qed
  have "size (filter_mset (\<lambda>x. fst x = s) ?v) = length (filter (\<lambda>h. rh_txn h = t) (spans sh s))" for s
    unfolding item by (simp flip: mset_filter)
  with total show ?thesis by simp
qed

section \<open>Who blocks\<close>

lemma blocking_section_set:
  assumes "shard_inv sh"
  shows "set (blocking_section waiter res mode sh) =
    {u. u \<noteq> waiter \<and> (\<exists>m. point_mode sh u res = Some m \<and> \<not> compatible_with m mode)}"
proof -
  have "blocking_section waiter res mode sh = map h_txn
      (filter (\<lambda>h. h_txn h \<noteq> waiter \<and> \<not> compatible_with (h_mode h) mode) (holders_of (locks sh) res))"
    by (simp add: blocking_section_def holders_of_def get_map_or_def split: option.splits)
  then have "set (blocking_section waiter res mode sh) =
      {h_txn h |h. h \<in> set (holders_of (locks sh) res) \<and> h_txn h \<noteq> waiter
        \<and> \<not> compatible_with (h_mode h) mode}"
    by auto
  also have "\<dots> = {u. u \<noteq> waiter \<and> (\<exists>m. point_mode sh u res = Some m \<and> \<not> compatible_with m mode)}"
    using point_mode_holder [OF assms] holder_point_mode [OF assms]
    by (metis (no_types, lifting) Holder.select_convs(1) Holder.select_convs(2))
  finally show ?thesis .
qed

lemma blocking_section_distinct:
  assumes "shard_inv sh"
  shows "distinct (blocking_section waiter res mode sh)"
proof -
  have "blocking_section waiter res mode sh = map h_txn
      (filter (\<lambda>h. h_txn h \<noteq> waiter \<and> \<not> compatible_with (h_mode h) mode) (holders_of (locks sh) res))"
    by (simp add: blocking_section_def holders_of_def get_map_or_def split: option.splits)
  with shard_holders_distinct [OF assms, of res] show ?thesis
    by (simp add: distinct_map_filter)
qed

text \<open>
  A refused request has a blocker, and a granted one has none: asking for the join of the mode held
  and the mode requested meets the same obstacles as the mode requested, because what the transaction
  already holds is compatible with every other holder.
\<close>

lemma grant_iff_no_blocker:
  assumes inv: "shard_inv sh" and run: "grant_section txn res mode sh = (granted, sh')"
  shows "granted \<longleftrightarrow> blocking_section txn res mode sh = []"
proof -
  have join: "compatible_with m (granted_mode (point_mode sh txn res) mode) \<longleftrightarrow> compatible_with m mode"
    if "u \<noteq> txn" "point_mode sh u res = Some m" for u m
    using point_modes_compatible [OF inv that(2) _ that(1)]
    by (cases "point_mode sh txn res") (auto simp: granted_mode_def modes.compat_lub)
  have "granted \<longleftrightarrow> (\<forall>u m. u \<noteq> txn \<and> point_mode sh u res = Some m \<longrightarrow> compatible_with m mode)"
    using grant_section_effect(1) [OF inv run] join by blast
  also have "\<dots> \<longleftrightarrow> set (blocking_section txn res mode sh) = {}"
    unfolding blocking_section_set [OF inv] by blast
  finally show ?thesis by simp
qed

end
