(* ===== verification/Manager_Inv.thy ===== *)
theory Manager_Inv
  imports Manager Shard_Release_All
begin

text \<open>
  The invariant of the lock manager and the effect of every operation on two views of the whole
  table: the mode a transaction holds on a resource (\<open>holds\<close>), and the vector of range holders of a
  space (\<open>range_holders\<close>).  Which shard a resource lives in appears only here; above this theory the
  table is one map.
\<close>

section \<open>Routing stays in range\<close>

definition route :: "LockManager \<Rightarrow> ResourceId \<Rightarrow> nat" where
  "route mg r = unat (shard_index mg r)"

definition shard_at :: "LockManager \<Rightarrow> nat \<Rightarrow> ShardInner" where
  "shard_at mg i = inner (shards mg ! i)"

text \<open>The table has \<open>2 ^ bits\<close> shards.\<close>

definition shape_ok :: "LockManager \<Rightarrow> bool" where
  "shape_ok mg \<longleftrightarrow> unat (bits mg) < 64 \<and> length (shards mg) = 2 ^ unat (bits mg)"

lemma drop_bit_top_bound:
  fixes x :: u64
  assumes "b \<le> 64"
  shows "unat (drop_bit (64 - b) x) < 2 ^ b"
proof -
  have "unat x < 2 ^ (64 - b) * 2 ^ b"
    using unsigned_less [of x] assms by (simp flip: power_add)
  then have "unat x div 2 ^ (64 - b) < 2 ^ b"
    by (simp add: less_mult_imp_div_less mult.commute)
  then show ?thesis
    by (simp only: unat_drop_bit_eq drop_bit_eq_div [where ?'a = nat])
qed

lemma route_less:
  assumes "shape_ok mg"
  shows "route mg r < length (shards mg)"
proof (cases "bits mg = 0")
  case False
  have "unat (64 - bits mg) = 64 - unat (bits mg)"
    using assms by (simp add: shape_ok_def unat_sub word_le_nat_alt)
  with False drop_bit_top_bound [of "unat (bits mg)"] assms show ?thesis
    by (simp add: route_def shard_index_def shape_ok_def Let_def)
qed (use assms in \<open>simp add: route_def shard_index_def shape_ok_def\<close>)

lemma lock_shard_Some: "shape_ok mg \<Longrightarrow> lock_shard mg r = Some (shard_at mg (route mg r))"
  using route_less [of mg r] by (simp add: lock_shard_def route_def shard_at_def Let_def)

section \<open>The invariant and the views\<close>

text \<open>Every shard satisfies its invariant and holds only resources and spaces that route to it.\<close>

definition shard_ok :: "LockManager \<Rightarrow> nat \<Rightarrow> bool" where
  "shard_ok mg i \<longleftrightarrow> shard_inv (shard_at mg i)
     \<and> (\<forall>t r. point_mode (shard_at mg i) t r \<noteq> None \<longrightarrow> route mg r = i)
     \<and> (\<forall>s. spans (shard_at mg i) s \<noteq> [] \<longrightarrow> route mg s = i)"

definition manager_inv :: "LockManager \<Rightarrow> bool" where
  "manager_inv mg \<longleftrightarrow> shape_ok mg \<and> (\<forall>i < length (shards mg). shard_ok mg i)"

definition holds :: "LockManager \<Rightarrow> TxnId \<Rightarrow> ResourceId \<Rightarrow> LockMode option" where
  "holds mg t r = point_mode (shard_at mg (route mg r)) t r"

definition range_holders :: "LockManager \<Rightarrow> ResourceId \<Rightarrow> RangeHolder list" where
  "range_holders mg s = spans (shard_at mg (route mg s)) s"

lemma manager_inv_shape: "manager_inv mg \<Longrightarrow> shape_ok mg"
  by (simp add: manager_inv_def)

lemma shard_okI:
  "shard_inv (shard_at mg i) \<Longrightarrow> (\<And>t r. point_mode (shard_at mg i) t r \<noteq> None \<Longrightarrow> route mg r = i) \<Longrightarrow>
   (\<And>s. spans (shard_at mg i) s \<noteq> [] \<Longrightarrow> route mg s = i) \<Longrightarrow> shard_ok mg i"
  unfolding shard_ok_def by blast

lemma manager_inv_ok: "manager_inv mg \<Longrightarrow> i < length (shards mg) \<Longrightarrow> shard_ok mg i"
  by (simp add: manager_inv_def)

lemma shard_okD:
  assumes "shard_ok mg i"
  shows "shard_inv (shard_at mg i)"
    and "point_mode (shard_at mg i) t r \<noteq> None \<Longrightarrow> route mg r = i"
    and "spans (shard_at mg i) s \<noteq> [] \<Longrightarrow> route mg s = i"
  using assms unfolding shard_ok_def by blast+

lemma manager_inv_shard: "manager_inv mg \<Longrightarrow> shard_inv (shard_at mg (route mg r))"
  using shard_okD(1) manager_inv_ok manager_inv_shape route_less by blast

lemma point_mode_shard:
  "manager_inv mg \<Longrightarrow> i < length (shards mg) \<Longrightarrow>
   point_mode (shard_at mg i) t r = (if route mg r = i then holds mg t r else None)"
  unfolding holds_def using shard_okD(2) manager_inv_ok by metis

lemma spans_shard:
  "manager_inv mg \<Longrightarrow> i < length (shards mg) \<Longrightarrow>
   spans (shard_at mg i) s = (if route mg s = i then range_holders mg s else [])"
  unfolding range_holders_def using shard_okD(3) manager_inv_ok by metis

lemma waits_update_views [simp]:
  "route (mg\<lparr>waits := w\<rparr>) = route mg" "shard_at (mg\<lparr>waits := w\<rparr>) = shard_at mg"
  "holds (mg\<lparr>waits := w\<rparr>) = holds mg" "range_holders (mg\<lparr>waits := w\<rparr>) = range_holders mg"
  by (simp_all add: fun_eq_iff route_def shard_index_def shard_at_def holds_def range_holders_def)

lemma waits_update_inv [simp]: "manager_inv (mg\<lparr>waits := w\<rparr>) = manager_inv mg"
  by (simp add: manager_inv_def shape_ok_def shard_ok_def)

section \<open>Critical sections\<close>

text \<open>
  A critical section on the shard of \<open>res\<close> that keeps the shard's invariant and changes its views
  at \<open>res\<close> only never panics, keeps the manager's invariant, and changes the manager's views at \<open>res\<close>
  only.
\<close>

lemma with_shard_effect:
  assumes inv: "manager_inv mg" and run: "crit (shard_at mg (route mg res)) = (x, sh)"
    and shard: "shard_inv sh"
    and frame: "\<And>t r. r \<noteq> res \<Longrightarrow> point_mode sh t r = point_mode (shard_at mg (route mg res)) t r"
      "\<And>s. s \<noteq> res \<Longrightarrow> spans sh s = spans (shard_at mg (route mg res)) s"
  shows "\<exists>mg'. with_shard mg res crit = Some (x, mg') \<and> manager_inv mg' \<and> waits mg' = waits mg
    \<and> (\<forall>t r. holds mg' t r = (if r = res then point_mode sh t res else holds mg t r))
    \<and> (\<forall>s. range_holders mg' s = (if s = res then spans sh res else range_holders mg s))"
proof -
  let ?i = "route mg res"
  define mg' where "mg' = mg\<lparr>shards := (shards mg)[?i := (shards mg ! ?i)\<lparr>inner := sh\<rparr>]\<rparr>"
  have len: "?i < length (shards mg)"
    using inv route_less by (simp add: manager_inv_def)
  have eq: "with_shard mg res crit = Some (x, mg')"
    using run lock_shard_Some [OF manager_inv_shape [OF inv], of res]
    by (simp add: with_shard_def mg'_def route_def Let_def)
  have rt: "route mg' = route mg" by (simp add: fun_eq_iff route_def shard_index_def mg'_def)
  have at: "shard_at mg' j = (if j = ?i then sh else shard_at mg j)" for j
    using len by (simp add: shard_at_def mg'_def)
  have pm: "point_mode (shard_at mg' j) t r =
      (if j = ?i \<and> r = res then point_mode sh t res else point_mode (shard_at mg j) t r)" for j t r
    using frame(1) by (auto simp: at)
  have sp: "spans (shard_at mg' j) s =
      (if j = ?i \<and> s = res then spans sh res else spans (shard_at mg j) s)" for j s
    using frame(2) by (auto simp: at)
  have "shard_ok mg' j" if "j < length (shards mg)" for j
  proof -
    have ok: "shard_ok mg j" using inv that by (rule manager_inv_ok)
    show ?thesis
    proof (rule shard_okI, unfold rt pm sp)
      show "shard_inv (shard_at mg' j)" using shard shard_okD(1) [OF ok] by (simp add: at)
      show "route mg r = j"
        if "(if j = ?i \<and> r = res then point_mode sh t res else point_mode (shard_at mg j) t r) \<noteq> None" for t r
        using that shard_okD(2) [OF ok] by presburger
      show "route mg s = j"
        if "(if j = ?i \<and> s = res then spans sh res else spans (shard_at mg j) s) \<noteq> []" for s
        using that shard_okD(3) [OF ok] by presburger
    qed
  qed
  moreover have "shape_ok mg'" using inv by (simp add: manager_inv_def shape_ok_def mg'_def)
  ultimately have "manager_inv mg'" by (simp add: manager_inv_def mg'_def)
  moreover have "holds mg' t r = (if r = res then point_mode sh t res else holds mg t r)" for t r
    unfolding holds_def rt pm by simp
  moreover have "range_holders mg' s = (if s = res then spans sh res else range_holders mg s)" for s
    unfolding range_holders_def rt sp by simp
  moreover have "waits mg' = waits mg" by (simp add: mg'_def)
  ultimately show ?thesis using eq by blast
qed

text \<open>A section that leaves its shard as it was leaves the manager as it was.\<close>

lemma with_shard_unchanged:
  assumes inv: "manager_inv mg" and run: "crit (shard_at mg (route mg res)) = (x, shard_at mg (route mg res))"
  shows "with_shard mg res crit = Some (x, mg)"
proof -
  let ?i = "route mg res"
  have len: "?i < length (shards mg)"
    using inv route_less by (simp add: manager_inv_def)
  have "(shards mg ! ?i)\<lparr>inner := shard_at mg ?i\<rparr> = shards mg ! ?i"
    by (simp add: shard_at_def)
  then have "mg\<lparr>shards := (shards mg)[?i := (shards mg ! ?i)\<lparr>inner := shard_at mg ?i\<rparr>]\<rparr> = mg"
    by simp
  with run lock_shard_Some [OF manager_inv_shape [OF inv], of res] show ?thesis
    by (simp add: with_shard_def route_def Let_def)
qed

lemma read_shard_Some:
  "manager_inv mg \<Longrightarrow> read_shard mg res look = Some (look (shard_at mg (route mg res)))"
  by (simp add: read_shard_def lock_shard_Some manager_inv_shape)

section \<open>Construction\<close>

lemma find_less_Some: "find P [0..<n] = Some k \<Longrightarrow> k < n \<and> P k \<and> (\<forall>j<k. \<not> P j)"
  by (auto simp: find_Some_iff)

lemma next_power_of_two_Some:
  assumes "next_power_of_two oc n = Some p" and "p \<noteq> 0"
  shows "\<exists>k < 64. p = 2 ^ k \<and> unat n \<le> 2 ^ k \<and> (\<forall>j < k. 2 ^ j < unat n)"
proof -
  from assms obtain k where "find (\<lambda>k. unat n \<le> 2 ^ k) [0..<64] = Some k" "p = 2 ^ k"
    by (auto simp: next_power_of_two_def split: option.splits if_splits)
  with find_less_Some [OF this(1)] show ?thesis by (auto simp: not_le intro!: exI [of _ k])
qed

lemma trailing_zeros_power:
  assumes "k < 64"
  shows "trailing_zeros (2 ^ k) = of_nat k"
proof -
  have "bit (2 ^ k :: usize) j \<longleftrightarrow> j = k" if "j < 64" for j
    using that assms by (auto simp: bit_exp_iff)
  then have "find (\<lambda>j. bit (2 ^ k :: usize) j) [0..<64] = Some k"
    using assms by (force simp: find_Some_iff)
  then show ?thesis by (simp add: trailing_zeros_def)
qed

lemma unat_power2:
  assumes "k < 64"
  shows "unat (2 ^ k :: usize) = 2 ^ k"
proof -
  have "(2 :: nat) ^ k < 2 ^ 64" using assms by (intro power_strict_increasing) auto
  moreover have "(2 ^ k :: usize) = of_nat (2 ^ k)" by simp
  ultimately show ?thesis by (simp only: unat_of_nat) simp
qed

lemma with_shards_inv:
  assumes "with_shards oc alloc n = Some mg" and "shards mg \<noteq> []"
  shows "manager_inv mg" and "waits mg = fmempty" and "holds mg t r = None"
    and "range_holders mg s = []"
    and "\<exists>k < 64. shard_count mg = 2 ^ k \<and> unat (max n 1) \<le> 2 ^ k \<and> (\<forall>j < k. 2 ^ j < unat (max n 1))"
proof -
  from assms obtain m where p: "next_power_of_two oc (max n 1) = Some m"
    and mg: "mg = \<lparr>shards = replicate (unat m) \<lparr>inner = ShardInner_new\<rparr>, bits = trailing_zeros m, waits = fmempty\<rparr>"
    by (auto simp: with_shards_def bind_eq_Some_conv split: if_splits)
  with assms(2) have "m \<noteq> 0" by auto
  then obtain k where k: "k < 64" "m = 2 ^ k" "unat (max n 1) \<le> 2 ^ k" "\<forall>j < k. 2 ^ j < unat (max n 1)"
    using next_power_of_two_Some [OF p] by blast
  have b: "unat (bits mg) = k"
    using k by (simp add: mg trailing_zeros_power unat_of_nat)
  have len: "length (shards mg) = 2 ^ k" using k by (simp add: mg unat_power2)
  have shape: "shape_ok mg" using b len k(1) by (simp add: shape_ok_def)
  have at: "shard_at mg i = ShardInner_new" if "i < length (shards mg)" for i
    using that by (simp add: shard_at_def mg)
  show "manager_inv mg"
    using shape at by (simp add: manager_inv_def shard_ok_def shard_inv_new)
  show "waits mg = fmempty" by (simp add: mg)
  show "holds mg t r = None" "range_holders mg s = []"
    using at route_less [OF shape] by (simp_all add: holds_def range_holders_def)
  show "\<exists>k < 64. shard_count mg = 2 ^ k \<and> unat (max n 1) \<le> 2 ^ k \<and> (\<forall>j < k. 2 ^ j < unat (max n 1))"
    using k len by (auto simp: shard_count_def)
qed

text \<open>A manager for concrete runs: a request for three shards gives four.\<close>

lemma four_shards: "\<exists>mg. with_shards True (\<lambda>_. True) 3 = Some mg \<and> shard_count mg = 4"
proof -
  have "map_option shard_count (with_shards True (\<lambda>_. True) 3) = Some 4" by code_simp
  then show ?thesis by auto
qed

end
