(* ===== verification/Manager_Ops.thy ===== *)
theory Manager_Ops
  imports Manager_Inv
begin

text \<open>
  What the operations of the lock manager return and do, over the views \<open>holds\<close> and
  \<open>range_holders\<close>.  No operation panics on a manager that satisfies the invariant, every operation
  keeps the invariant, and the lemmas give the result and the new views on every branch.
\<close>

section \<open>Point locks\<close>

text \<open>The mode held by one transaction on one resource, replaced.\<close>

definition set_held ::
  "(TxnId \<Rightarrow> ResourceId \<Rightarrow> LockMode option) \<Rightarrow> TxnId \<Rightarrow> ResourceId \<Rightarrow> LockMode option \<Rightarrow>
   TxnId \<Rightarrow> ResourceId \<Rightarrow> LockMode option"
where
  "set_held held txn res v = held(txn := (held txn)(res := v))"

lemma set_held_apply [simp]:
  "set_held held txn res v t r = (if t = txn \<and> r = res then v else held t r)"
  by (simp add: set_held_def)

definition grantable :: "(TxnId \<Rightarrow> ResourceId \<Rightarrow> LockMode option) \<Rightarrow> TxnId \<Rightarrow> ResourceId \<Rightarrow> LockMode \<Rightarrow> bool" where
  "grantable held txn res mode \<longleftrightarrow>
     (\<forall>u m. u \<noteq> txn \<and> held u res = Some m \<longrightarrow> compatible_with m (granted_mode (held txn res) mode))"

lemma holds_compatible:
  "manager_inv mg \<Longrightarrow> holds mg t r = Some a \<Longrightarrow> holds mg u r = Some b \<Longrightarrow> t \<noteq> u \<Longrightarrow> compatible_with a b"
  unfolding holds_def by (rule point_modes_compatible [OF manager_inv_shard])

text \<open>What stands against a grant is what stands against the mode asked for alone.\<close>

lemma grantable_iff:
  assumes inv: "manager_inv mg"
  shows "grantable (holds mg) txn res mode \<longleftrightarrow>
    (\<forall>u m. u \<noteq> txn \<and> holds mg u res = Some m \<longrightarrow> compatible_with m mode)"
proof -
  have "compatible_with m (granted_mode (holds mg txn res) mode) \<longleftrightarrow> compatible_with m mode"
    if "u \<noteq> txn" "holds mg u res = Some m" for u m
    using holds_compatible [OF inv that(2) _ that(1)]
    by (cases "holds mg txn res") (auto simp: granted_mode_def modes.compat_lub)
  then show ?thesis unfolding grantable_def by blast
qed

lemma grant_section_manager:
  assumes inv: "manager_inv mg"
  shows "\<exists>mg'. with_shard mg res (grant_section txn res mode) = Some (grantable (holds mg) txn res mode, mg')
    \<and> manager_inv mg' \<and> waits mg' = waits mg \<and> range_holders mg' = range_holders mg
    \<and> (grantable (holds mg) txn res mode \<longrightarrow>
        holds mg' = set_held (holds mg) txn res (Some (granted_mode (holds mg txn res) mode)))
    \<and> (\<not> grantable (holds mg) txn res mode \<longrightarrow> mg' = mg)"
proof -
  let ?sh = "shard_at mg (route mg res)" let ?g = "grantable (holds mg) txn res mode"
  obtain granted sh where run: "grant_section txn res mode ?sh = (granted, sh)" by fastforce
  note eff = grant_section_effect [OF manager_inv_shard [OF inv] run]
  have at: "point_mode ?sh t res = holds mg t res" for t by (simp add: holds_def)
  have g: "granted = ?g" using eff(1) unfolding grantable_def at by blast
  show ?thesis
  proof (cases ?g)
    case False
    then have "with_shard mg res (grant_section txn res mode) = Some (False, mg)"
      using run g eff(4) by (auto intro: with_shard_unchanged [OF inv])
    with False inv show ?thesis by auto
  next
    case True
    obtain mg' where mg': "with_shard mg res (grant_section txn res mode) = Some (granted, mg')"
        "manager_inv mg'" "waits mg' = waits mg"
        "\<forall>t r. holds mg' t r = (if r = res then point_mode sh t res else holds mg t r)"
        "\<forall>s. range_holders mg' s = (if s = res then spans sh res else range_holders mg s)"
      using with_shard_effect [where crit = "grant_section txn res mode", OF inv run eff(5)] eff(2,3) by auto
    have "holds mg' = set_held (holds mg) txn res (Some (granted_mode (holds mg txn res) mode))"
      using mg'(4) eff(2) True g by (auto simp: fun_eq_iff at)
    moreover have "range_holders mg' = range_holders mg"
      using mg'(5) eff(3) by (auto simp: fun_eq_iff range_holders_def)
    ultimately show ?thesis using mg'(1,2,3) True g by auto
  qed
qed

lemma try_acquire_effect:
  assumes "manager_inv mg"
  shows "\<exists>mg'. try_acquire mg txn res mode =
        Some (if grantable (holds mg) txn res mode then Ok () else Err Conflict, mg')
    \<and> manager_inv mg' \<and> waits mg' = waits mg \<and> range_holders mg' = range_holders mg
    \<and> (grantable (holds mg) txn res mode \<longrightarrow>
        holds mg' = set_held (holds mg) txn res (Some (granted_mode (holds mg txn res) mode)))
    \<and> (\<not> grantable (holds mg) txn res mode \<longrightarrow> mg' = mg)"
proof -
  obtain mg' where "with_shard mg res (grant_section txn res mode) =
        Some (grantable (holds mg) txn res mode, mg')"
    and rest: "manager_inv mg'" "waits mg' = waits mg" "range_holders mg' = range_holders mg"
      "grantable (holds mg) txn res mode \<longrightarrow>
        holds mg' = set_held (holds mg) txn res (Some (granted_mode (holds mg txn res) mode))"
      "\<not> grantable (holds mg) txn res mode \<longrightarrow> mg' = mg"
    using grant_section_manager [OF assms] by blast
  then have "try_acquire mg txn res mode =
      Some (if grantable (holds mg) txn res mode then Ok () else Err Conflict, mg')"
    by (simp add: try_acquire_def)
  with rest show ?thesis by blast
qed

lemma release_effect:
  assumes inv: "manager_inv mg"
  shows "\<exists>mg'. release mg txn res = Some (if holds mg txn res = None then Err NotHeld else Ok (), mg')
    \<and> manager_inv mg' \<and> waits mg' = waits mg \<and> range_holders mg' = range_holders mg
    \<and> holds mg' = set_held (holds mg) txn res None
    \<and> (holds mg txn res = None \<longrightarrow> mg' = mg)"
proof (cases "holds mg txn res = None")
  case True
  then have "release_section txn res (shard_at mg (route mg res)) = (Err NotHeld, shard_at mg (route mg res))"
    unfolding holds_def by (rule release_section_not_held)
  then have "release mg txn res = Some (Err NotHeld, mg)"
    unfolding release_def by (rule with_shard_unchanged [OF inv])
  with True inv show ?thesis by (auto simp: fun_eq_iff)
next
  case False
  then obtain sh where sh: "release_section txn res (shard_at mg (route mg res)) = (Ok (), sh)"
      "shard_inv sh" "spans sh = spans (shard_at mg (route mg res))"
      "\<forall>t r. point_mode sh t r =
         (if t = txn \<and> r = res then None else point_mode (shard_at mg (route mg res)) t r)"
    using release_section_held [OF manager_inv_shard [OF inv]] unfolding holds_def by blast
  obtain mg' where mg': "release mg txn res = Some (Ok (), mg')"
      "manager_inv mg'" "waits mg' = waits mg"
      "\<forall>t r. holds mg' t r = (if r = res then point_mode sh t res else holds mg t r)"
      "\<forall>s. range_holders mg' s = (if s = res then spans sh res else range_holders mg s)"
    using with_shard_effect [where crit = "release_section txn res", OF inv sh(1,2)] sh(3,4) unfolding release_def by auto
  have "holds mg' = set_held (holds mg) txn res None"
    using mg'(4) sh(4) by (auto simp: fun_eq_iff holds_def)
  moreover have "range_holders mg' = range_holders mg"
    using mg'(5) sh(3) by (auto simp: fun_eq_iff range_holders_def)
  ultimately show ?thesis using mg'(1,2,3) False by auto
qed

lemma mode_held_eq: "manager_inv mg \<Longrightarrow> mode_held mg txn res = Some (holds mg txn res)"
  by (simp add: mode_held_def read_shard_Some mode_section_point_mode holds_def)

lemma holder_count_eq:
  assumes "manager_inv mg"
  shows "holder_count mg res = Some (card {t. holds mg t res \<noteq> None})"
proof -
  let ?sh = "shard_at mg (route mg res)"
  have "get_map_or 0 (\<lambda>e. length (le_holders e)) (locks ?sh) res = length (holders_of (locks ?sh) res)"
    by (simp add: holders_of_def get_map_or_def split: option.splits)
  then show ?thesis
    using assms length_holders [OF manager_inv_shard [OF assms], of res res]
    by (simp add: holder_count_def read_shard_Some holds_def)
qed

section \<open>Range locks\<close>

lemma try_acquire_range_effect:
  fixes txn :: TxnId and space :: ResourceId and rg :: KeyRange and mode :: LockMode
  assumes inv: "manager_inv mg"
  defines "blocked \<equiv> range_blocked (range_holders mg space) txn rg mode"
  shows "\<exists>mg'. try_acquire_range mg txn space rg mode = Some (if blocked then Err Conflict else Ok (), mg')
    \<and> manager_inv mg' \<and> waits mg' = waits mg \<and> holds mg' = holds mg
    \<and> (\<not> blocked \<longrightarrow> range_holders mg' = (range_holders mg)
        (space := range_holders mg space @ [\<lparr>rh_txn = txn, rh_range = rg, rh_mode = mode\<rparr>]))
    \<and> (blocked \<longrightarrow> mg' = mg)"
proof (cases blocked)
  case True
  then have "try_acquire_range mg txn space rg mode = Some (Err Conflict, mg)"
    unfolding try_acquire_range_def blocked_def range_holders_def
    by (intro with_shard_unchanged [OF inv] range_acquire_blocked)
  with True inv show ?thesis by auto
next
  case False
  let ?sh = "shard_at mg (route mg space)"
  obtain sh where sh: "range_acquire_section txn space rg mode ?sh = (Ok (), sh)" "shard_inv sh"
      "point_mode sh = point_mode ?sh"
      "spans sh = (spans ?sh)(space := spans ?sh space @ [\<lparr>rh_txn = txn, rh_range = rg, rh_mode = mode\<rparr>])"
    using range_acquire_granted [OF manager_inv_shard [OF inv]] False
    unfolding blocked_def range_holders_def by blast
  obtain mg' where mg': "try_acquire_range mg txn space rg mode = Some (Ok (), mg')"
      "manager_inv mg'" "waits mg' = waits mg"
      "\<forall>t r. holds mg' t r = (if r = space then point_mode sh t space else holds mg t r)"
      "\<forall>s. range_holders mg' s = (if s = space then spans sh space else range_holders mg s)"
    using with_shard_effect [where crit = "range_acquire_section txn space rg mode", OF inv sh(1,2)] sh(3,4) unfolding try_acquire_range_def by auto
  have "holds mg' = holds mg"
    using mg'(4) sh(3) by (auto simp: fun_eq_iff holds_def)
  moreover have "range_holders mg' = (range_holders mg)
      (space := range_holders mg space @ [\<lparr>rh_txn = txn, rh_range = rg, rh_mode = mode\<rparr>])"
    using mg'(5) sh(4) by (auto simp: fun_eq_iff range_holders_def)
  ultimately show ?thesis using mg'(1,2,3) False by auto
qed

lemma release_range_effect:
  fixes txn :: TxnId and space :: ResourceId and rg :: KeyRange
  assumes inv: "manager_inv mg"
  defines "pos \<equiv> position (span_at txn rg) (range_holders mg space)"
  shows "\<exists>mg'. release_range mg txn space rg = Some (if pos = None then Err NotHeld else Ok (), mg')
    \<and> manager_inv mg' \<and> waits mg' = waits mg \<and> holds mg' = holds mg
    \<and> (\<forall>i. pos = Some i \<longrightarrow> range_holders mg' =
         (range_holders mg)(space := swap_remove i (range_holders mg space)))
    \<and> (pos = None \<longrightarrow> mg' = mg)"
proof (cases pos)
  case None
  then have "release_range mg txn space rg = Some (Err NotHeld, mg)"
    unfolding release_range_def pos_def range_holders_def
    by (intro with_shard_unchanged [OF inv] range_release_not_held)
  with None inv show ?thesis by auto
next
  case (Some i)
  let ?sh = "shard_at mg (route mg space)"
  obtain sh where sh: "range_release_section txn space rg ?sh = (Ok (), sh)" "shard_inv sh"
      "point_mode sh = point_mode ?sh" "spans sh = (spans ?sh)(space := swap_remove i (spans ?sh space))"
    using range_release_held [OF manager_inv_shard [OF inv]] Some
    unfolding pos_def range_holders_def by blast
  obtain mg' where mg': "release_range mg txn space rg = Some (Ok (), mg')"
      "manager_inv mg'" "waits mg' = waits mg"
      "\<forall>t r. holds mg' t r = (if r = space then point_mode sh t space else holds mg t r)"
      "\<forall>s. range_holders mg' s = (if s = space then spans sh space else range_holders mg s)"
    using with_shard_effect [where crit = "range_release_section txn space rg", OF inv sh(1,2)] sh(3,4) unfolding release_range_def by auto
  have "holds mg' = holds mg"
    using mg'(4) sh(3) by (auto simp: fun_eq_iff holds_def)
  moreover have "range_holders mg' = (range_holders mg)(space := swap_remove i (range_holders mg space))"
    using mg'(5) sh(4) by (auto simp: fun_eq_iff range_holders_def)
  ultimately show ?thesis using mg'(1,2,3) Some by auto
qed

lemma range_count_eq: "manager_inv mg \<Longrightarrow> range_count mg space = Some (length (range_holders mg space))"
  by (simp add: range_count_def read_shard_Some range_holders_def spans_def span_holders_of_def
      get_map_or_def split: option.splits)

lemma range_holders_compatible:
  "manager_inv mg \<Longrightarrow> a \<in> set (range_holders mg s) \<Longrightarrow> b \<in> set (range_holders mg s) \<Longrightarrow>
   rh_txn a \<noteq> rh_txn b \<Longrightarrow> overlaps (rh_range a) (rh_range b) \<Longrightarrow> compatible_with (rh_mode a) (rh_mode b)"
  unfolding range_holders_def by (rule spans_compatible [OF manager_inv_shard])

section \<open>Releasing everything\<close>

lemma release_shards_eq:
  assumes "\<forall>s \<in> set ss. shard_inv (inner s)"
  shows "release_shards txn ss n =
    (n + sum_list (map (\<lambda>s. locks_held (inner s) txn) ss),
     map (\<lambda>s. s\<lparr>inner := snd (release_all_section txn (inner s))\<rparr>) ss)"
  using assms
proof (induction ss arbitrary: n)
  case (Cons s ss)
  obtain sh where "release_all_section txn (inner s) = (locks_held (inner s) txn, sh)"
    using release_all_section_effect Cons.prems by (metis list.set_intros(1))
  with Cons show ?case by simp
qed simp

text \<open>What a transaction holds in the whole table, counted over resources and over spaces.\<close>

definition lock_total :: "LockManager \<Rightarrow> TxnId \<Rightarrow> nat" where
  "lock_total mg t = card {r. holds mg t r \<noteq> None}
     + (\<Sum>s\<in>{s. range_holders mg s \<noteq> []}. length (filter (\<lambda>h. rh_txn h = t) (range_holders mg s)))"

lemma finite_holds: "manager_inv mg \<Longrightarrow> finite {r. holds mg t r \<noteq> None}"
  and finite_range_holders: "manager_inv mg \<Longrightarrow> finite {s. range_holders mg s \<noteq> []}"
proof -
  assume inv: "manager_inv mg"
  let ?n = "length (shards mg)"
  have less: "route mg r < ?n" for r using inv by (simp add: route_less manager_inv_shape)
  have "finite (\<Union>i<?n. {r. point_mode (shard_at mg i) t r \<noteq> None})"
    using finite_point_mode shard_okD(1) manager_inv_ok [OF inv] by auto
  moreover have "{r. holds mg t r \<noteq> None} \<subseteq> (\<Union>i<?n. {r. point_mode (shard_at mg i) t r \<noteq> None})"
    using less by (auto simp: holds_def)
  ultimately show "finite {r. holds mg t r \<noteq> None}" by (rule finite_subset [rotated])
  have "finite (\<Union>i<?n. {s. spans (shard_at mg i) s \<noteq> []})" by (auto simp: finite_spans)
  moreover have "{s. range_holders mg s \<noteq> []} \<subseteq> (\<Union>i<?n. {s. spans (shard_at mg i) s \<noteq> []})"
    using less by (auto simp: range_holders_def)
  ultimately show "finite {s. range_holders mg s \<noteq> []}" by (rule finite_subset [rotated])
qed

text \<open>The counts of the shards add up, because every key lives in one shard.\<close>

lemma sum_locks_held:
  assumes inv: "manager_inv mg"
  shows "(\<Sum>i<length (shards mg). locks_held (shard_at mg i) t) = lock_total mg t"
proof -
  let ?n = "length (shards mg)"
  have less: "route mg r < ?n" for r using inv by (simp add: route_less manager_inv_shape)
  define R where "R i = {r. holds mg t r \<noteq> None \<and> route mg r = i}" for i
  define S where "S i = {s. range_holders mg s \<noteq> [] \<and> route mg s = i}" for i
  let ?f = "\<lambda>s. length (filter (\<lambda>h. rh_txn h = t) (range_holders mg s))"
  have held: "locks_held (shard_at mg i) t = card (R i) + (\<Sum>s\<in>S i. ?f s)" if i: "i < ?n" for i
  proof -
    have ok: "shard_inv (shard_at mg i)" using shard_okD(1) manager_inv_ok [OF inv i] .
    have "{r. point_mode (shard_at mg i) t r \<noteq> None} = R i"
      using point_mode_shard [OF inv i] by (auto simp: R_def)
    moreover have "{s. spans (shard_at mg i) s \<noteq> []} = S i"
      using spans_shard [OF inv i] by (auto simp: S_def)
    moreover have "(\<Sum>s\<in>S i. length (filter (\<lambda>h. rh_txn h = t) (spans (shard_at mg i) s))) = (\<Sum>s\<in>S i. ?f s)"
      using spans_shard [OF inv i] by (intro sum.cong) (auto simp: S_def)
    ultimately show ?thesis
      using point_vec_length [OF ok, of t] span_vec_length [OF ok, of t] by (simp add: locks_held_def)
  qed
  have fin: "finite (R i)" "finite (S i)" for i
    using finite_holds [OF inv, of t] finite_range_holders [OF inv]
    by (auto simp: R_def S_def intro: rev_finite_subset)
  have "(\<Union>i<?n. R i) = {r. holds mg t r \<noteq> None}" and "(\<Union>i<?n. S i) = {s. range_holders mg s \<noteq> []}"
    using less by (auto simp: R_def S_def)
  moreover have "card (\<Union>i<?n. R i) = (\<Sum>i<?n. card (R i))"
    using fin by (intro card_UN_disjoint) (auto simp: R_def)
  moreover have "sum ?f (\<Union>i<?n. S i) = (\<Sum>i<?n. sum ?f (S i))"
    using fin by (intro sum.UNION_disjoint) (auto simp: S_def)
  ultimately show ?thesis using held by (simp add: lock_total_def sum.distrib)
qed

lemma release_all_effect:
  assumes inv: "manager_inv mg"
  shows "\<exists>mg'. release_all mg txn = (lock_total mg txn, mg') \<and> manager_inv mg'
    \<and> waits mg' = fmdrop txn (waits mg)
    \<and> holds mg' = (holds mg)(txn := (\<lambda>r. None))
    \<and> (\<forall>s. mset (range_holders mg' s) = filter_mset (\<lambda>h. rh_txn h \<noteq> txn) (mset (range_holders mg s)))"
proof -
  let ?rel = "\<lambda>s. s\<lparr>inner := snd (release_all_section txn (inner s))\<rparr>"
  define mg' where "mg' = mg\<lparr>shards := map ?rel (shards mg), waits := fmdrop txn (waits mg)\<rparr>"
  have ok: "shard_inv (shard_at mg i)" if "i < length (shards mg)" for i
    using shard_okD(1) manager_inv_ok [OF inv that] .
  then have all: "\<forall>s \<in> set (shards mg). shard_inv (inner s)"
    by (auto simp: in_set_conv_nth shard_at_def)
  have "sum_list (map (\<lambda>s. locks_held (inner s) txn) (shards mg)) = lock_total mg txn"
    using sum_locks_held [OF inv, of txn]
    by (simp add: sum_list_sum_nth shard_at_def lessThan_atLeast0)
  then have run: "release_all mg txn = (lock_total mg txn, mg')"
    using release_shards_eq [OF all, of txn 0] by (simp add: release_all_def mg'_def)
  have rt: "route mg' = route mg" by (simp add: fun_eq_iff route_def shard_index_def mg'_def)
  have less: "route mg r < length (shards mg)" for r
    using inv by (simp add: route_less manager_inv_shape)
  have at: "shard_inv (shard_at mg' i)"
      "point_mode (shard_at mg' i) t r = (if t = txn then None else point_mode (shard_at mg i) t r)"
      "mset (spans (shard_at mg' i) s) = filter_mset (\<lambda>h. rh_txn h \<noteq> txn) (mset (spans (shard_at mg i) s))"
    if i: "i < length (shards mg)" for i t r s
  proof -
    have sec: "shard_at mg' i = snd (release_all_section txn (shard_at mg i))"
      using i by (simp add: shard_at_def mg'_def)
    with release_all_section_effect [OF ok [OF i], of txn]
    show "shard_inv (shard_at mg' i)"
      "point_mode (shard_at mg' i) t r = (if t = txn then None else point_mode (shard_at mg i) t r)"
      "mset (spans (shard_at mg' i) s) = filter_mset (\<lambda>h. rh_txn h \<noteq> txn) (mset (spans (shard_at mg i) s))"
      by auto
  qed
  have "shard_ok mg' i" if i: "i < length (shards mg)" for i
  proof (rule shard_okI, unfold rt)
    show "shard_inv (shard_at mg' i)" using at(1) [OF i] .
    show "route mg r = i" if "point_mode (shard_at mg' i) t r \<noteq> None" for t r
      using that shard_okD(2) [OF manager_inv_ok [OF inv i]] unfolding at(2) [OF i] by presburger
    show "route mg s = i" if ne: "spans (shard_at mg' i) s \<noteq> []" for s
    proof -
      have "spans (shard_at mg i) s \<noteq> []" using at(3) [OF i, of s] ne by auto
      then show ?thesis using shard_okD(3) [OF manager_inv_ok [OF inv i]] by blast
    qed
  qed
  then have "manager_inv mg'" using inv by (simp add: manager_inv_def shape_ok_def mg'_def)
  moreover have "holds mg' = (holds mg)(txn := (\<lambda>r. None))"
    using at(2) [OF less] by (auto simp: fun_eq_iff holds_def rt)
  moreover have "\<forall>s. mset (range_holders mg' s) = filter_mset (\<lambda>h. rh_txn h \<noteq> txn) (mset (range_holders mg s))"
    using at(3) [OF less] by (simp add: range_holders_def rt)
  moreover have "waits mg' = fmdrop txn (waits mg)" by (simp add: mg'_def)
  ultimately show ?thesis using run by blast
qed

end
