(* ===== verification/Construction.thy ===== *)
theory Construction
  imports Manager_Ops
begin

text \<open>
  Properties of construction and of the mapping of resources to shards: the shard counts that
  \<open>with_shards\<close> and \<open>new\<close> produce, what happens above \<open>2 ^ 63\<close>, and that Fibonacci hashing gives
  every shard the same share of the identifiers.
\<close>

section \<open>Shard counts\<close>

lemma next_power_of_two_least:
  assumes "unat n \<le> 2 ^ k" and "k < 64" and "\<forall>j < k. 2 ^ j < unat n"
  shows "next_power_of_two oc n = Some (2 ^ k)"
proof -
  have "find (\<lambda>k. unat n \<le> 2 ^ k) [0..<64] = Some k"
    unfolding find_Some_iff using assms by (intro exI [of _ k]) (auto simp: not_le)
  then show ?thesis by (simp add: next_power_of_two_def)
qed

lemma least_power:
  assumes "unat (n :: usize) \<le> 2 ^ K"
  shows "\<exists>k \<le> K. unat n \<le> 2 ^ k \<and> (\<forall>j < k. 2 ^ j < unat n)"
proof -
  define k where "k = (LEAST k. unat n \<le> 2 ^ k)"
  have "unat n \<le> 2 ^ k" unfolding k_def using assms by (rule LeastI)
  moreover have "k \<le> K" unfolding k_def using assms by (rule Least_le)
  moreover have "2 ^ j < unat n" if "j < k" for j
    using not_less_Least [of j "\<lambda>k. unat n \<le> 2 ^ k"] that by (simp add: k_def not_le)
  ultimately show ?thesis by blast
qed

lemma with_shards_power:
  assumes "unat (max n 1) \<le> 2 ^ k" and "k < 64" and "\<forall>j < k. 2 ^ j < unat (max n 1)"
  shows "alloc (2 ^ k) \<Longrightarrow> \<exists>mg. with_shards oc alloc n = Some mg \<and> shard_count mg = 2 ^ k \<and> unat (bits mg) = k"
    and "\<not> alloc (2 ^ k) \<Longrightarrow> with_shards oc alloc n = None"
  using assms next_power_of_two_least [of "max n 1" k oc]
  by (simp_all add: with_shards_def shard_count_def unat_power2 trailing_zeros_power unat_of_nat)

text \<open>
  C37: For a request of up to \<open>2 ^ 63\<close> shards, let \<open>2 ^ k\<close> be the least power of two at or above the request
  (at least one).  If the allocator provides a vector of that many shards, \<open>with_shards\<close> makes exactly
  that many and records the logarithm, and the new manager holds no lock, no range and no wait; if it
  does not, which \<open>Vec::with_capacity\<close> documents for large capacities, \<open>with_shards\<close> panics.
\<close>

theorem with_shards_rounds_up:
  assumes "unat n \<le> 2 ^ 63"
  shows "\<exists>k. max (unat n) 1 \<le> 2 ^ k \<and> (\<forall>j < k. 2 ^ j < max (unat n) 1)
    \<and> (if alloc (2 ^ k)
       then \<exists>mg. with_shards oc alloc n = Some mg \<and> shard_count mg = 2 ^ k \<and> unat (bits mg) = k
         \<and> waiting_count mg = 0 \<and> (\<forall>t r. mode_held mg t r = Some None) \<and> (\<forall>s. range_count mg s = Some 0)
       else with_shards oc alloc n = None)"
proof -
  have max: "unat (max n 1) = max (unat n) 1"
    by (simp add: max_def word_le_nat_alt)
  have "unat (max n 1) \<le> 2 ^ 63" using assms by (simp add: max)
  then obtain k where k: "k \<le> 63" "unat (max n 1) \<le> 2 ^ k" "\<forall>j < k. 2 ^ j < unat (max n 1)"
    using least_power by blast
  note power = with_shards_power [of n k alloc oc, OF k(2) _ k(3)]
  have made: "\<exists>mg. with_shards oc alloc n = Some mg \<and> shard_count mg = 2 ^ k \<and> unat (bits mg) = k
      \<and> waiting_count mg = 0 \<and> (\<forall>t r. mode_held mg t r = Some None) \<and> (\<forall>s. range_count mg s = Some 0)"
    if provided: "alloc (2 ^ k)"
  proof -
    obtain mg where mg: "with_shards oc alloc n = Some mg" "shard_count mg = 2 ^ k" "unat (bits mg) = k"
      using power(1) [OF _ provided] k(1) by auto
    have "shards mg \<noteq> []" using mg(2) by (auto simp: shard_count_def)
    note new = with_shards_inv [OF mg(1) this]
    have "range_count mg s = Some 0" for s using range_count_eq [OF new(1)] new(4) by simp
    moreover have "mode_held mg t r = Some None" for t r using mode_held_eq [OF new(1)] new(3) by simp
    moreover have "waiting_count mg = 0" by (simp add: waiting_count_def hash_map_len_def new(2))
    ultimately show ?thesis using mg by blast
  qed
  have "with_shards oc alloc n = None" if "\<not> alloc (2 ^ k)" using power(2) that k(1) by simp
  with made k(2,3) max show ?thesis by (intro exI [of _ k]) auto
qed

theorem with_shards_rounds_up_witness:
  "\<exists>mg k. with_shards True (\<lambda>m. m \<le> 2 ^ 50) 5 = Some mg \<and> shard_count mg = 2 ^ k \<and> 5 \<le> (2 :: nat) ^ k"
proof -
  obtain k where k: "5 \<le> (2 :: nat) ^ k" "\<forall>j < k. 2 ^ j < (5 :: nat)"
      "if (2 :: usize) ^ k \<le> 2 ^ 50 then \<exists>mg. with_shards True (\<lambda>m. m \<le> 2 ^ 50) 5 = Some mg \<and> shard_count mg = 2 ^ k
       else with_shards True (\<lambda>m. m \<le> 2 ^ 50) 5 = None"
    using with_shards_rounds_up [of 5 "\<lambda>m. m \<le> 2 ^ 50" True] by (fastforce split: if_splits)
  have "\<not> 3 < k" using k(2) by (auto dest: spec [of _ 3])
  then consider "k = 0" | "k = 1" | "k = 2" | "k = 3" by linarith
  then have "(2 :: usize) ^ k \<le> 2 ^ 50" by cases simp_all
  with k show ?thesis by auto
qed

text \<open>
  C40: Above \<open>2 ^ 63\<close> the rounding overflows: with overflow checks the constructor panics, without
  them it returns a manager with no shard at all, on which the first operation panics.  The
  documentation of \<open>shards\<close>, which promises a power of two, does not cover this.
\<close>

theorem with_shards_overflow:
  assumes "2 ^ 63 < unat n" and "alloc 0"
  shows "with_shards True alloc n = None
    \<and> (\<exists>mg. with_shards False alloc n = Some mg \<and> shard_count mg = 0
         \<and> (\<forall>txn res mode. try_acquire mg txn res mode = None))"
proof -
  have "unat (max n 1) = max (unat n) 1" by (simp add: max_def word_le_nat_alt)
  then have big: "2 ^ 63 < unat (max n 1)" using assms(1) by simp
  have "\<not> unat (max n 1) \<le> 2 ^ k" if "k < 64" for k
  proof -
    have "(2 :: nat) ^ k \<le> 2 ^ 63" using that by (intro power_increasing) auto
    with big show ?thesis by linarith
  qed
  then have none: "find (\<lambda>k. unat (max n 1) \<le> 2 ^ k) [0..<64] = None"
    by (auto simp: find_None_iff)
  then have "with_shards True alloc n = None"
    by (simp add: with_shards_def next_power_of_two_def)
  moreover have "with_shards False alloc n = Some \<lparr>shards = [], bits = trailing_zeros 0, waits = fmempty\<rparr>"
    using none assms(2) by (simp add: with_shards_def next_power_of_two_def)
  ultimately show ?thesis
    by (simp add: shard_count_def try_acquire_def with_shard_def lock_shard_def)
qed

theorem with_shards_overflow_witness:
  "\<exists>mg. with_shards False (\<lambda>_. True) 0x8000000000000001 = Some mg \<and> shard_count mg = 0"
  using with_shards_overflow [of "0x8000000000000001" "\<lambda>_. True"] by auto

lemma saturating_mul_small: "unat a * unat b < 2 ^ 64 \<Longrightarrow> unat (saturating_mul a b) = unat a * unat b"
  by (simp add: saturating_mul_def unat_word_ariths)

text \<open>
  \<open>LockManager::new\<close> takes four shards per available CPU, rounded up to a power of two and kept
  between 16 and 1024; without a CPU count it assumes one.
\<close>

theorem LockManager_new_shards:
  assumes "\<And>m. m \<le> 1024 \<Longrightarrow> alloc m" and "case par of Some p \<Rightarrow> 0 < unat p \<and> unat p \<le> 2 ^ 61 | None \<Rightarrow> True"
  defines "cpus \<equiv> (case par of Some p \<Rightarrow> unat p | None \<Rightarrow> 1)"
  shows "\<exists>mg k. LockManager_new oc alloc par = Some mg \<and> shard_count mg = 2 ^ k \<and> 4 \<le> k \<and> k \<le> 10
    \<and> (k < 10 \<longrightarrow> 4 * cpus \<le> 2 ^ k) \<and> (4 < k \<longrightarrow> 2 ^ (k - 1) < 4 * cpus)"
proof -
  define p where "p = (case par of Some n \<Rightarrow> n | None \<Rightarrow> (1 :: usize))"
  have p: "unat p = cpus" "0 < cpus" "cpus \<le> 2 ^ 61"
    using assms(2) by (auto simp: p_def cpus_def split: option.splits)
  have q: "unat (saturating_mul p 4) = 4 * cpus"
    using p(1,3) saturating_mul_small [of p 4] by simp
  obtain k where k: "k \<le> 63" "4 * cpus \<le> 2 ^ k" "\<forall>j < k. 2 ^ j < 4 * cpus"
    using least_power [of "saturating_mul p 4" 63] p(3) unfolding q by auto
  have np: "next_power_of_two oc (saturating_mul p 4) = Some (2 ^ k)"
    using k by (intro next_power_of_two_least) (simp_all add: q)
  define e where "e = max 4 (min 10 k)"
  have clamp: "clamp 16 1024 (2 ^ k) = 2 ^ e"
  proof -
    consider "k < 4" | "4 \<le> k" "k \<le> 10" | "10 < k" by linarith
    then show ?thesis
    proof cases
      case 1
      then have "(2 :: nat) ^ k < 2 ^ 4" by (intro power_strict_increasing) auto
      with 1 show ?thesis by (simp add: clamp_def e_def word_less_nat_alt unat_power2)
    next
      case 2
      then have "(2 :: nat) ^ 4 \<le> 2 ^ k" "(2 :: nat) ^ k \<le> 2 ^ 10" by (intro power_increasing; simp)+
      with 2 show ?thesis by (simp add: clamp_def e_def word_less_nat_alt unat_power2)
    next
      case 3
      then have "(2 :: nat) ^ 10 < 2 ^ k" by (intro power_strict_increasing) auto
      with 3 k(1) show ?thesis by (simp add: clamp_def e_def word_less_nat_alt unat_power2)
    qed
  qed
  have e: "4 \<le> e" "e \<le> 10" by (auto simp: e_def)
  then have ue: "unat (2 ^ e :: usize) = 2 ^ e" by (intro unat_power2) simp
  have "(2 :: nat) ^ 4 \<le> 2 ^ e" using e(1) by (intro power_increasing) auto
  then have m: "unat (max (2 ^ e) 1 :: usize) = 2 ^ e"
    using ue by (simp add: max_def word_le_nat_alt)
  have "(2 :: nat) ^ e \<le> 2 ^ 10" using e(2) by (intro power_increasing) auto
  then have provided: "alloc (2 ^ e)" using assms(1) by (simp add: word_le_nat_alt ue)
  have "\<forall>j < e. (2 :: nat) ^ j < 2 ^ e" by (auto intro: power_strict_increasing)
  then obtain mg where mg: "with_shards oc alloc (2 ^ e) = Some mg" "shard_count mg = 2 ^ e"
    using with_shards_power(1) [of "2 ^ e" e alloc oc] provided m e(2) \<open>\<forall>j < e. (2 :: nat) ^ j < 2 ^ e\<close> by auto
  have "LockManager_new oc alloc par = Some mg"
    using np clamp mg(1) by (simp add: LockManager_new_def p_def [symmetric])
  moreover have "4 * cpus \<le> 2 ^ e" if "e < 10"
  proof -
    have "k \<le> e" using that by (auto simp: e_def)
    then have "(2 :: nat) ^ k \<le> 2 ^ e" by (intro power_increasing) auto
    with k(2) show ?thesis by linarith
  qed
  moreover have "2 ^ (e - 1) < 4 * cpus" if "4 < e"
    using that k(3) by (auto simp: e_def)
  ultimately show ?thesis using mg(2) e by blast
qed

theorem LockManager_new_shards_witness:
  "\<exists>mg k. LockManager_new True (\<lambda>_. True) (Some 8) = Some mg \<and> shard_count mg = 2 ^ k \<and> 32 \<le> (2 :: nat) ^ k"
  using LockManager_new_shards [of "\<lambda>_. True" "Some 8" True] by fastforce

section \<open>Fibonacci hashing\<close>

text \<open>The multiplier is odd, so it has an inverse and the hash is a bijection of \<open>u64\<close>.\<close>

definition FIB_INV :: u64 where
  "FIB_INV = 0xF1DE83E19937733D"

lemma FIB_HASH_inverse: "FIB_HASH * FIB_INV = 1"
  by (simp add: FIB_HASH_def FIB_INV_def)

lemma bij_fib_hash: "bij (\<lambda>x :: u64. x * FIB_HASH)"
proof (rule bijI')
  fix x y :: u64
  have cancel: "z * FIB_HASH * FIB_INV = z" for z
    by (simp add: mult.assoc FIB_HASH_inverse)
  show "x * FIB_HASH = y * FIB_HASH \<longleftrightarrow> x = y" using cancel by metis
  show "\<exists>z. y = z * FIB_HASH"
    by (rule exI [of _ "y * FIB_INV"]) (simp add: mult.assoc mult.commute [of FIB_INV] FIB_HASH_inverse)
qed

lemma unat_drop_bit: "unat (drop_bit k x) = unat (x :: u64) div 2 ^ k"
  by (simp only: unat_drop_bit_eq drop_bit_eq_div [where ?'a = nat])

lemma card_top_bits:
  assumes "k \<le> 64" and "i < 2 ^ (64 - k)"
  shows "card {h :: u64. unat h div 2 ^ k = i} = 2 ^ k"
proof -
  have split: "(2 :: nat) ^ 64 = 2 ^ (64 - k) * 2 ^ k" using assms(1) by (simp flip: power_add)
  have "unat ` {h :: u64. unat h div 2 ^ k = i} = {i * 2 ^ k ..< i * 2 ^ k + 2 ^ k}"
  proof (intro equalityI subsetI)
    fix n assume n: "n \<in> {i * 2 ^ k ..< i * 2 ^ k + 2 ^ k}"
    have "Suc i * 2 ^ k \<le> 2 ^ (64 - k) * 2 ^ k" using assms(2) by (intro mult_right_mono) auto
    with n split have "n < 2 ^ 64" by simp
    then have "unat (of_nat n :: u64) = n" by (simp add: unat_of_nat)
    moreover have "n div 2 ^ k = i" using n by (intro div_nat_eqI) (auto simp: algebra_simps)
    ultimately show "n \<in> unat ` {h :: u64. unat h div 2 ^ k = i}" by (metis (mono_tags) imageI mem_Collect_eq)
  next
    fix n assume "n \<in> unat ` {h :: u64. unat h div 2 ^ k = i}"
    then have "n div 2 ^ k = i" by auto
    then show "n \<in> {i * 2 ^ k ..< i * 2 ^ k + 2 ^ k}"
      using div_times_less_eq_dividend [of n "2 ^ k"] dividend_less_times_div [of "2 ^ k" n]
      by (auto simp: mult.commute)
  qed
  moreover have "inj_on (unat :: u64 \<Rightarrow> nat) A" for A
    by (rule inj_onI) (simp only: word_unat_eq_iff)
  ultimately have "card {h :: u64. unat h div 2 ^ k = i} = card {i * 2 ^ k ..< i * 2 ^ k + 2 ^ k}"
    using card_image [of unat "{h :: u64. unat h div 2 ^ k = i}"] by simp
  then show ?thesis by simp
qed

lemma surj_image_Collect: "surj f \<Longrightarrow> f ` {x. P (f x)} = {y. P y}"
  by (auto simp: image_iff)

text \<open>
  Hashing spreads the resources evenly: of all \<open>2 ^ 64\<close> identifiers every shard gets exactly the
  same number, \<open>2 ^ (64 - bits)\<close>, whatever the shard count.
\<close>

theorem shards_share_evenly:
  assumes "with_shards oc alloc n = Some mg" and "shard_count mg \<noteq> 0" and "i < shard_count mg"
  shows "card {r. unat (shard_index mg r) = i} * shard_count mg = 2 ^ 64"
proof -
  have "shards mg \<noteq> []" using assms(2) by (auto simp: shard_count_def)
  then have shape: "shape_ok mg" using with_shards_inv(1) [OF assms(1)] manager_inv_shape by blast
  define b where "b = unat (bits mg)"
  have b: "b < 64" "shard_count mg = 2 ^ b" using shape by (auto simp: shape_ok_def b_def shard_count_def)
  have top: "unat (shard_index mg r) = unat (ResourceId_get r * FIB_HASH) div 2 ^ (64 - b)" for r
  proof (cases "bits mg = 0")
    case True
    have "unat (ResourceId_get r * FIB_HASH) < 2 ^ LENGTH(64)" by (rule unsigned_less)
    with True show ?thesis by (simp add: shard_index_def b_def)
  next
    case False
    have "unat (64 - bits mg) = 64 - b"
      using b(1) by (simp add: b_def unat_sub word_le_nat_alt)
    with False show ?thesis
      by (simp add: shard_index_def Let_def unat_drop_bit)
  qed
  let ?f = "\<lambda>r. ResourceId_get r * FIB_HASH"
  have bij: "bij ?f"
  proof -
    have "bij ResourceId_get"
      by (rule bijI') (auto simp: ResourceId_get_def split: ResourceId.splits intro: exI [of _ "ResourceId _"])
    from bij_comp [OF this bij_fib_hash] show ?thesis by (simp add: comp_def)
  qed
  have img: "?f ` {r. unat (shard_index mg r) = i} = {h :: u64. unat h div 2 ^ (64 - b) = i}"
    unfolding top using surj_image_Collect [OF bij_is_surj [OF bij]] .
  have "card (?f ` {r. unat (shard_index mg r) = i}) = card {r. unat (shard_index mg r) = i}"
    using bij_is_inj [OF bij] by (intro card_image) (rule inj_on_subset, assumption, rule subset_UNIV)
  then have "card {r. unat (shard_index mg r) = i} = card {h :: u64. unat h div 2 ^ (64 - b) = i}"
    unfolding img by (rule sym)
  also have "\<dots> = 2 ^ (64 - b)" using assms(3) b by (intro card_top_bits) auto
  finally show ?thesis using b by (simp flip: power_add)
qed

theorem shards_share_evenly_witness:
  "\<exists>mg. with_shards True (\<lambda>_. True) 3 = Some mg \<and> card {r. unat (shard_index mg r) = 2} * 4 = 2 ^ 64"
  using four_shards shards_share_evenly [of True "\<lambda>_. True" 3 _ 2] by fastforce

end
