(* ===== verification/Ref_Model.thy ===== *)
theory Ref_Model
  imports Manager_Ops "HOL-Library.Product_Lexorder"
begin

text \<open>
  The reference models of \<open>src/tests/properties.rs\<close> as abstract specifications of the lock manager,
  and the proof that the manager implements them for every sequence of operations and every shard
  count.  \<open>Model\<close> is one map from (transaction, resource) to the mode held; \<open>RangeModel\<close> keeps one vector
  of range holders per space.  Neither knows of shards, reverse indexes or cleanup.
\<close>

section \<open>Point locks\<close>

datatype Op =
    Acquire u64 u64 LockMode
  | Release u64 u64

record Model =
  held :: "(u64 \<times> u64, LockMode) hash_map"

definition Model_default :: Model where
  "Model_default = \<lparr>held = fmempty\<rparr>"

definition model_holders_of ::
  "((u64 \<times> u64) set \<Rightarrow> (u64 \<times> u64) list) \<Rightarrow> Model \<Rightarrow> u64 \<Rightarrow> (u64 \<times> LockMode) list"
where
  "model_holders_of ord m res =
     map (\<lambda>(t, r). (t, the (fmlookup (held m) (t, r))))
       (filter (\<lambda>(t, r). r = res) (ord (fmdom' (held m))))"

definition apply_acquire ::
  "((u64 \<times> u64) set \<Rightarrow> (u64 \<times> u64) list) \<Rightarrow> Model \<Rightarrow> u64 \<Rightarrow> u64 \<Rightarrow> LockMode \<Rightarrow> (LockError + unit) \<times> Model"
where
  "apply_acquire ord m txn res mode =
     (case fmlookup (held m) (txn, res) of
        Some current \<Rightarrow>
          if covers current mode then (Ok (), m)
          else
            (let target = join current mode;
                 blocked = list_ex (\<lambda>(t, h). t \<noteq> txn \<and> \<not> compatible_with h target)
                   (model_holders_of ord m res)
             in if blocked then (Err Conflict, m)
                else (Ok (), m\<lparr>held := fmupd (txn, res) target (held m)\<rparr>))
      | None \<Rightarrow>
          if list_all (\<lambda>(_, h). compatible_with h mode) (model_holders_of ord m res)
          then (Ok (), m\<lparr>held := fmupd (txn, res) mode (held m)\<rparr>)
          else (Err Conflict, m))"

definition apply_release :: "Model \<Rightarrow> u64 \<Rightarrow> u64 \<Rightarrow> (LockError + unit) \<times> Model" where
  "apply_release m txn res =
     (if fmlookup (held m) (txn, res) \<noteq> None
      then (Ok (), m\<lparr>held := fmdrop (txn, res) (held m)\<rparr>)
      else (Err NotHeld, m))"

primrec model_step ::
  "((u64 \<times> u64) set \<Rightarrow> (u64 \<times> u64) list) \<Rightarrow> Model \<Rightarrow> Op \<Rightarrow> (LockError + unit) \<times> Model"
where
  "model_step ord m (Acquire txn res mode) = apply_acquire ord m txn res mode"
| "model_step ord m (Release txn res) = apply_release m txn res"

primrec manager_step :: "LockManager \<Rightarrow> Op \<Rightarrow> ((LockError + unit) \<times> LockManager) option" where
  "manager_step mg (Acquire txn res mode) = try_acquire mg (TxnId_new txn) (ResourceId_new res) mode"
| "manager_step mg (Release txn res) = release mg (TxnId_new txn) (ResourceId_new res)"

section \<open>Range locks\<close>

datatype RangeOp =
    RangeAcquire u64 u64 KeyRange LockMode
  | RangeRelease u64 u64 KeyRange

record RangeModel =
  spaces :: "(u64, (u64 \<times> KeyRange \<times> LockMode) list) hash_map"

definition RangeModel_default :: RangeModel where
  "RangeModel_default = \<lparr>spaces = fmempty\<rparr>"

definition range_apply_acquire ::
  "RangeModel \<Rightarrow> u64 \<Rightarrow> u64 \<Rightarrow> KeyRange \<Rightarrow> LockMode \<Rightarrow> (LockError + unit) \<times> RangeModel"
where
  "range_apply_acquire m txn space rg mode =
     (let (holders, sps) = entry_or_insert space [] (spaces m);
          conflict = list_ex (\<lambda>(t, r, h). t \<noteq> txn \<and> overlaps r rg \<and> \<not> compatible_with h mode) holders
      in if conflict then (Err Conflict, m\<lparr>spaces := sps\<rparr>)
         else (Ok (), m\<lparr>spaces := fmupd space (holders @ [(txn, rg, mode)]) sps\<rparr>))"

definition range_apply_release ::
  "RangeModel \<Rightarrow> u64 \<Rightarrow> u64 \<Rightarrow> KeyRange \<Rightarrow> (LockError + unit) \<times> RangeModel"
where
  "range_apply_release m txn space rg =
     (case fmlookup (spaces m) space of
        None \<Rightarrow> (Err NotHeld, m)
      | Some holders \<Rightarrow>
          (case position (\<lambda>(t, r, _). t = txn \<and> r = rg) holders of
             None \<Rightarrow> (Err NotHeld, m)
           | Some pos \<Rightarrow> (Ok (), m\<lparr>spaces := fmupd space (swap_remove pos holders) (spaces m)\<rparr>)))"

primrec range_model_step :: "RangeModel \<Rightarrow> RangeOp \<Rightarrow> (LockError + unit) \<times> RangeModel" where
  "range_model_step m (RangeAcquire txn space rg mode) = range_apply_acquire m txn space rg mode"
| "range_model_step m (RangeRelease txn space rg) = range_apply_release m txn space rg"

primrec range_manager_step :: "LockManager \<Rightarrow> RangeOp \<Rightarrow> ((LockError + unit) \<times> LockManager) option" where
  "range_manager_step mg (RangeAcquire txn space rg mode) =
     try_acquire_range mg (TxnId_new txn) (ResourceId_new space) rg mode"
| "range_manager_step mg (RangeRelease txn space rg) =
     release_range mg (TxnId_new txn) (ResourceId_new space) rg"

section \<open>The manager simulates the point model\<close>

text \<open>The relation between a manager and a model: the invariant, and the same modes held.\<close>

definition point_rel ::
  "((u64 \<times> u64) set \<Rightarrow> (u64 \<times> u64) list) \<Rightarrow> LockManager \<Rightarrow> Model \<Rightarrow> bool"
where
  "point_rel ord mg m \<longleftrightarrow> key_order ord \<and> manager_inv mg
     \<and> (\<forall>t r. fmlookup (held m) (t, r) = holds mg (TxnId t) (ResourceId r))"

lemma model_holders_set:
  assumes "key_order ord"
  shows "set (model_holders_of ord m res) = {(t, h). fmlookup (held m) (t, res) = Some h}"
  using assms by (force simp: model_holders_of_def fmlookup_dom'_iff)

lemma model_holders_length:
  assumes "key_order ord"
  shows "length (model_holders_of ord m res) = card {t. fmlookup (held m) (t, res) \<noteq> None}"
proof -
  let ?ks = "filter (\<lambda>(t, r). r = res) (ord (fmdom' (held m)))"
  have "distinct ?ks" using key_orderD [OF assms finite_fmdom'] by (blast intro: distinct_filter)
  then have "length ?ks = card (set ?ks)" by (rule distinct_card [symmetric])
  also have "set ?ks = (\<lambda>t. (t, res)) ` {t. fmlookup (held m) (t, res) \<noteq> None}"
    using assms by (force simp: fmlookup_dom'_iff)
  also have "card \<dots> = card {t. fmlookup (held m) (t, res) \<noteq> None}"
    by (intro card_image inj_onI) simp
  finally show ?thesis by (simp add: model_holders_of_def)
qed

lemma acquire_simulates:
  assumes rel: "point_rel ord mg m"
  shows "\<exists>mg'. try_acquire mg (TxnId txn) (ResourceId res) mode = Some (fst (apply_acquire ord m txn res mode), mg')
    \<and> point_rel ord mg' (snd (apply_acquire ord m txn res mode))"
proof -
  let ?h = "holds mg" let ?t = "TxnId txn" let ?r = "ResourceId res"
  have ord: "key_order ord" and inv: "manager_inv mg"
    and look: "fmlookup (held m) (t, r) = ?h (TxnId t) (ResourceId r)" for t r
    using rel by (auto simp: point_rel_def)
  have others: "(\<forall>(t, h) \<in> set (model_holders_of ord m res). t \<noteq> txn \<longrightarrow> compatible_with h w) \<longleftrightarrow>
      (\<forall>u h. u \<noteq> ?t \<and> ?h u ?r = Some h \<longrightarrow> compatible_with h w)" for w
    unfolding model_holders_set [OF ord] look
    by (auto simp: split_paired_all) (metis TxnId.exhaust)
  obtain mg' where mg': "try_acquire mg ?t ?r mode =
        Some (if grantable ?h ?t ?r mode then Ok () else Err Conflict, mg')"
      "manager_inv mg'"
      "grantable ?h ?t ?r mode \<longrightarrow> holds mg' = set_held ?h ?t ?r (Some (granted_mode (?h ?t ?r) mode))"
      "\<not> grantable ?h ?t ?r mode \<longrightarrow> mg' = mg"
    using try_acquire_effect [OF inv] by blast
  have model: "apply_acquire ord m txn res mode =
      (if grantable ?h ?t ?r mode
       then (Ok (), if (\<exists>c. ?h ?t ?r = Some c \<and> covers c mode) then m
                    else m\<lparr>held := fmupd (txn, res) (granted_mode (?h ?t ?r) mode) (held m)\<rparr>)
       else (Err Conflict, m))"
  proof (cases "?h ?t ?r")
    case None
    then have "(\<forall>(t, h) \<in> set (model_holders_of ord m res). compatible_with h mode) \<longleftrightarrow>
        (\<forall>(t, h) \<in> set (model_holders_of ord m res). t \<noteq> txn \<longrightarrow> compatible_with h mode)"
      using None by (auto simp: model_holders_set [OF ord] look) (metis option.distinct(1))
    with None others [of mode] show ?thesis
      by (auto simp: apply_acquire_def look granted_mode_def grantable_def list_all_iff case_prod_beta)
  next
    case (Some c)
    have blocked: "list_ex (\<lambda>(t, h). t \<noteq> txn \<and> \<not> compatible_with h (join c mode)) (model_holders_of ord m res)
        \<longleftrightarrow> \<not> grantable ?h ?t ?r mode"
      using others [of "join c mode"] Some
      by (auto simp: list_ex_iff granted_mode_def grantable_def case_prod_beta)
    have "grantable ?h ?t ?r mode" if "covers c mode"
      using that holds_compatible [OF inv _ Some]
      by (auto simp: grantable_def granted_mode_def Some covers_join)
    with blocked Some show ?thesis
      by (auto simp: apply_acquire_def look granted_mode_def Let_def)
  qed
  have "point_rel ord mg' (snd (apply_acquire ord m txn res mode))"
  proof (cases "grantable ?h ?t ?r mode")
    case True
    have "granted_mode (?h ?t ?r) mode = c" if "?h ?t ?r = Some c" "covers c mode" for c
      using that by (simp add: granted_mode_def covers_join)
    with True mg' show ?thesis
      by (auto simp: point_rel_def model ord look)
  qed (use mg' rel in \<open>simp add: model\<close>)
  with mg'(1) model show ?thesis by auto
qed

lemma release_simulates:
  assumes rel: "point_rel ord mg m"
  shows "\<exists>mg'. release mg (TxnId txn) (ResourceId res) = Some (fst (apply_release m txn res), mg')
    \<and> point_rel ord mg' (snd (apply_release m txn res))"
proof -
  have inv: "manager_inv mg" using rel by (simp add: point_rel_def)
  obtain mg' where "release mg (TxnId txn) (ResourceId res) =
        Some (if holds mg (TxnId txn) (ResourceId res) = None then Err NotHeld else Ok (), mg')"
      "manager_inv mg'" "holds mg' = set_held (holds mg) (TxnId txn) (ResourceId res) None"
    using release_effect [OF inv] by blast
  with rel show ?thesis by (auto simp: apply_release_def point_rel_def)
qed

interpretation point: simulation manager_step "model_step ord" "point_rel ord"
  for ord :: "(u64 \<times> u64) set \<Rightarrow> (u64 \<times> u64) list"
proof
  fix mg m a
  assume "point_rel ord mg m"
  then show "\<exists>mg'. manager_step mg a = Some (fst (model_step ord m a), mg')
      \<and> point_rel ord mg' (snd (model_step ord m a))"
    by (cases a) (simp_all add: TxnId_new_def ResourceId_new_def acquire_simulates release_simulates)
qed

section \<open>The manager simulates the range model\<close>

definition span_triple :: "RangeHolder \<Rightarrow> u64 \<times> KeyRange \<times> LockMode" where
  "span_triple h = (TxnId_get (rh_txn h), rh_range h, rh_mode h)"

definition range_rel :: "LockManager \<Rightarrow> RangeModel \<Rightarrow> bool" where
  "range_rel mg m \<longleftrightarrow> manager_inv mg
     \<and> (\<forall>s. vec_at (spaces m) s = map span_triple (range_holders mg (ResourceId s)))"

lemma TxnId_get_eq [simp]: "TxnId_get t = i \<longleftrightarrow> t = TxnId i"
  by (cases t) (simp add: TxnId_get_def)

lemma TxnId_get_TxnId [simp]: "TxnId_get (TxnId i) = i"
  by simp

lemma position_map: "position p (map f xs) = position (\<lambda>x. p (f x)) xs"
  by (induction xs) auto

lemma swap_remove_map: "swap_remove i (map f xs) = map f (swap_remove i xs)"
  by (cases "xs = []") (simp_all add: swap_remove_def map_butlast last_map map_update)

lemma list_ex_map: "list_ex p (map f xs) \<longleftrightarrow> list_ex (\<lambda>x. p (f x)) xs"
  by (induction xs) auto

lemma range_acquire_simulates:
  assumes rel: "range_rel mg m"
  shows "\<exists>mg'. try_acquire_range mg (TxnId txn) (ResourceId space) rg mode =
      Some (fst (range_apply_acquire m txn space rg mode), mg')
    \<and> range_rel mg' (snd (range_apply_acquire m txn space rg mode))"
proof -
  let ?s = "ResourceId space"
  have inv: "manager_inv mg" and look: "vec_at (spaces m) s = map span_triple (range_holders mg (ResourceId s))" for s
    using rel by (auto simp: range_rel_def)
  let ?b = "range_blocked (range_holders mg ?s) (TxnId txn) rg mode"
  obtain mg' where mg': "try_acquire_range mg (TxnId txn) ?s rg mode =
        Some (if ?b then Err Conflict else Ok (), mg')" "manager_inv mg'"
      "\<not> ?b \<longrightarrow> range_holders mg' = (range_holders mg)
        (?s := range_holders mg ?s @ [\<lparr>rh_txn = TxnId txn, rh_range = rg, rh_mode = mode\<rparr>])"
      "?b \<longrightarrow> mg' = mg"
    using try_acquire_range_effect [OF inv] by blast
  obtain holders sps where ent: "entry_or_insert space [] (spaces m) = (holders, sps)" by fastforce
  then have h: "holders = map span_triple (range_holders mg ?s)"
    and sps: "vec_at sps = vec_at (spaces m)" "vec_at (fmupd space v sps) = vec_at (fmupd space v (spaces m))" for v
    using look [of space]
    by (cases "fmlookup (spaces m) space";
        auto simp: entry_or_insert_def fun_eq_iff map_simps get_map_or_Some get_map_or_None)+
  have "list_ex (\<lambda>(t, r, h). t \<noteq> txn \<and> overlaps r rg \<and> \<not> compatible_with h mode) holders \<longleftrightarrow> ?b"
    by (simp add: h list_ex_map range_blocked_def span_triple_def)
  then have model: "range_apply_acquire m txn space rg mode =
      (if ?b then (Err Conflict, m\<lparr>spaces := sps\<rparr>)
       else (Ok (), m\<lparr>spaces := fmupd space (holders @ [(txn, rg, mode)]) sps\<rparr>))"
    by (simp add: range_apply_acquire_def ent)
  have "range_rel mg' (snd (range_apply_acquire m txn space rg mode))"
    using mg' rel by (auto simp: range_rel_def model sps map_simps h look span_triple_def)
  with mg'(1) model show ?thesis by auto
qed

lemma range_release_simulates:
  assumes rel: "range_rel mg m"
  shows "\<exists>mg'. release_range mg (TxnId txn) (ResourceId space) rg =
      Some (fst (range_apply_release m txn space rg), mg')
    \<and> range_rel mg' (snd (range_apply_release m txn space rg))"
proof -
  let ?s = "ResourceId space"
  have inv: "manager_inv mg" and look: "vec_at (spaces m) s = map span_triple (range_holders mg (ResourceId s))" for s
    using rel by (auto simp: range_rel_def)
  let ?p = "position (span_at (TxnId txn) rg) (range_holders mg ?s)"
  obtain mg' where mg': "release_range mg (TxnId txn) ?s rg =
        Some (if ?p = None then Err NotHeld else Ok (), mg')" "manager_inv mg'"
      "\<forall>i. ?p = Some i \<longrightarrow> range_holders mg' =
         (range_holders mg)(?s := swap_remove i (range_holders mg ?s))"
      "?p = None \<longrightarrow> mg' = mg"
    using release_range_effect [OF inv] by blast
  have pos: "position (\<lambda>(t, r, _). t = txn \<and> r = rg) (vec_at (spaces m) space) = ?p"
    by (simp add: look position_map span_triple_def)
  show ?thesis
  proof (cases ?p)
    case None
    then have "range_apply_release m txn space rg = (Err NotHeld, m)"
      using pos by (cases "fmlookup (spaces m) space")
        (simp_all add: range_apply_release_def get_map_or_def del: position_None)
    with None mg' rel show ?thesis by simp
  next
    case (Some i)
    with pos have "fmlookup (spaces m) space = Some (vec_at (spaces m) space)"
      by (cases "fmlookup (spaces m) space") (simp_all add: get_map_or_def)
    with Some pos have "range_apply_release m txn space rg =
        (Ok (), m\<lparr>spaces := fmupd space (swap_remove i (vec_at (spaces m) space)) (spaces m)\<rparr>)"
      by (simp add: range_apply_release_def)
    with Some mg' rel show ?thesis
      by (simp add: range_rel_def map_simps look swap_remove_map)
  qed
qed

interpretation range: simulation range_manager_step range_model_step range_rel
proof
  fix mg m a
  assume "range_rel mg m"
  then show "\<exists>mg'. range_manager_step mg a = Some (fst (range_model_step m a), mg')
      \<and> range_rel mg' (snd (range_model_step m a))"
    by (cases a) (simp_all add: TxnId_new_def ResourceId_new_def range_acquire_simulates range_release_simulates)
qed

section \<open>Refinement\<close>

lemma point_rel_start:
  assumes "with_shards oc alloc n = Some mg" and "shard_count mg \<noteq> 0" and "key_order ord"
  shows "point_rel ord mg Model_default"
  using with_shards_inv [OF assms(1)] assms(2,3)
  by (simp add: point_rel_def Model_default_def shard_count_def)

lemma range_rel_start:
  assumes "with_shards oc alloc n = Some mg" and "shard_count mg \<noteq> 0"
  shows "range_rel mg RangeModel_default"
  using with_shards_inv [OF assms(1)] assms(2)
  by (simp add: range_rel_def RangeModel_default_def shard_count_def map_simps)

text \<open>
  C3: The manager agrees with the reference model, for every shard count and every sequence of
  acquires and releases: no operation panics, every result is the one the model gives, and
  afterwards \<open>mode_held\<close> of every transaction and resource and \<open>holder_count\<close> of every resource are
  those of the model.
\<close>

theorem manager_matches_model:
  assumes "with_shards oc alloc n = Some mg" and "shard_count mg \<noteq> 0" and "key_order ord"
  shows "\<exists>mg'. run_program manager_step mg ops =
        Some (fst (run_model (model_step ord) Model_default ops), mg')
    \<and> (\<forall>t r. mode_held mg' (TxnId_new t) (ResourceId_new r) =
          Some (fmlookup (held (snd (run_model (model_step ord) Model_default ops))) (t, r)))
    \<and> (\<forall>r. holder_count mg' (ResourceId_new r) =
          Some (length (model_holders_of ord (snd (run_model (model_step ord) Model_default ops)) r)))"
proof -
  let ?m = "snd (run_model (model_step ord) Model_default ops)"
  obtain mg' where run: "run_program manager_step mg ops =
        Some (fst (run_model (model_step ord) Model_default ops), mg')"
    and rel: "point_rel ord mg' ?m"
    using point.run_simulates [OF point_rel_start [OF assms]] by blast
  have inv: "manager_inv mg'" and look: "fmlookup (held ?m) (t, r) = holds mg' (TxnId t) (ResourceId r)" for t r
    using rel by (auto simp: point_rel_def)
  have "card {t. holds mg' (TxnId t) r \<noteq> None} = card {t. holds mg' t r \<noteq> None}" for r
  proof -
    have "{t. holds mg' t r \<noteq> None} = TxnId ` {t. holds mg' (TxnId t) r \<noteq> None}"
      by (auto simp: image_iff) (metis TxnId.exhaust)
    then show ?thesis by (simp add: card_image inj_on_def)
  qed
  with run inv look assms(3) show ?thesis
    by (intro exI [of _ mg'])
      (simp add: mode_held_eq holder_count_eq model_holders_length TxnId_new_def ResourceId_new_def)
qed

theorem manager_matches_model_witness:
  "\<exists>mg mg'. with_shards True (\<lambda>_. True) 3 = Some mg \<and> shard_count mg = 4
    \<and> run_program manager_step mg
        [Acquire 1 7 Shared, Acquire 2 7 Shared, Acquire 1 7 Exclusive, Release 2 7, Acquire 1 7 Exclusive,
         Release 2 7]
      = Some ([Ok (), Ok (), Err Conflict, Ok (), Ok (), Err NotHeld], mg')
    \<and> mode_held mg' (TxnId_new 1) (ResourceId_new 7) = Some (Some Exclusive)"
proof -
  let ?ops = "[Acquire 1 7 Shared, Acquire 2 7 Shared, Acquire 1 7 Exclusive, Release 2 7, Acquire 1 7 Exclusive,
    Release 2 7]"
  obtain mg where mg: "with_shards True (\<lambda>_. True) 3 = Some mg" "shard_count mg = 4"
    using four_shards by blast
  moreover have "fst (run_model (model_step sorted_list_of_set) Model_default ?ops) =
        [Ok (), Ok (), Err Conflict, Ok (), Ok (), Err NotHeld]"
      "fmlookup (held (snd (run_model (model_step sorted_list_of_set) Model_default ?ops))) (1, 7) = Some Exclusive"
    by code_simp+
  ultimately show ?thesis
    using manager_matches_model [OF mg(1) _ key_order_sorted, of ?ops] by fastforce
qed

text \<open>
  C4: The range locks agree with their reference model, for every shard count and every sequence of
  acquires and releases: no operation panics, every result is the one the model gives, and afterwards
  \<open>range_count\<close> of every space is the length of the model's vector.
\<close>

theorem range_manager_matches_model:
  assumes "with_shards oc alloc n = Some mg" and "shard_count mg \<noteq> 0"
  shows "\<exists>mg'. run_program range_manager_step mg ops =
        Some (fst (run_model range_model_step RangeModel_default ops), mg')
    \<and> (\<forall>s. range_count mg' (ResourceId_new s) =
          Some (get_map_or 0 length (spaces (snd (run_model range_model_step RangeModel_default ops))) s))"
proof -
  let ?m = "snd (run_model range_model_step RangeModel_default ops)"
  obtain mg' where run: "run_program range_manager_step mg ops =
        Some (fst (run_model range_model_step RangeModel_default ops), mg')"
    and rel: "range_rel mg' ?m"
    using range.run_simulates [OF range_rel_start [OF assms]] by blast
  have "length (range_holders mg' (ResourceId s)) = get_map_or 0 length (spaces ?m) s" for s
  proof -
    have "length (range_holders mg' (ResourceId s)) = length (vec_at (spaces ?m) s)"
      using rel by (simp add: range_rel_def)
    then show ?thesis by (simp add: get_map_or_def split: option.splits)
  qed
  then show ?thesis
    using run rel by (intro exI [of _ mg']) (simp add: range_rel_def range_count_eq ResourceId_new_def)
qed

theorem range_manager_matches_model_witness:
  "\<exists>mg mg'. with_shards True (\<lambda>_. True) 3 = Some mg
    \<and> run_program range_manager_step mg
        [RangeAcquire 1 9 \<lparr>kr_start = 0, kr_end = 100\<rparr> Exclusive, RangeAcquire 2 9 \<lparr>kr_start = 100, kr_end = 200\<rparr> Shared,
         RangeRelease 1 9 \<lparr>kr_start = 0, kr_end = 100\<rparr>, RangeAcquire 2 9 \<lparr>kr_start = 100, kr_end = 200\<rparr> Shared]
      = Some ([Ok (), Err Conflict, Ok (), Ok ()], mg')
    \<and> range_count mg' (ResourceId_new 9) = Some 1"
proof -
  let ?ops = "[RangeAcquire 1 9 \<lparr>kr_start = 0, kr_end = 100\<rparr> Exclusive, RangeAcquire 2 9 \<lparr>kr_start = 100, kr_end = 200\<rparr> Shared,
    RangeRelease 1 9 \<lparr>kr_start = 0, kr_end = 100\<rparr>, RangeAcquire 2 9 \<lparr>kr_start = 100, kr_end = 200\<rparr> Shared]"
  obtain mg where mg: "with_shards True (\<lambda>_. True) 3 = Some mg" "shard_count mg = 4"
    using four_shards by blast
  moreover have "fst (run_model range_model_step RangeModel_default ?ops) = [Ok (), Err Conflict, Ok (), Ok ()]"
      "get_map_or 0 length (spaces (snd (run_model range_model_step RangeModel_default ?ops))) 9 = 1"
    by code_simp+
  ultimately show ?thesis
    using range_manager_matches_model [OF mg(1), of ?ops] by fastforce
qed

end
