(* ===== verification/Detection.thy ===== *)
theory Detection
  imports Manager_Ops Wait_Graph_Props
begin

text \<open>
  Deadlock detection on the lock manager: the wait-for relation that the registered waits and the
  lock table define (\<open>waits_for\<close>), the graph that \<open>build_wait_graph\<close> builds from them, and the
  outcomes of \<open>request\<close> and \<open>find_deadlock\<close> in terms of that relation.  The iteration order of the
  map of waits is arbitrary throughout.
\<close>

section \<open>The wait-for relation\<close>

definition waits_for :: "LockManager \<Rightarrow> TxnId \<Rightarrow> TxnId \<Rightarrow> bool" where
  "waits_for mg w u \<longleftrightarrow>
     (\<exists>res mode m. fmlookup (waits mg) w = Some (res, mode) \<and> u \<noteq> w
        \<and> holds mg u res = Some m \<and> \<not> compatible_with m mode)"

definition wait_rel :: "LockManager \<Rightarrow> (TxnId \<times> TxnId) set" where
  "wait_rel mg = {(w, u). waits_for mg w u}"

text \<open>A deadlock: distinct transactions, each blocked by the next and the last by the first.\<close>

definition deadlock_cycle :: "LockManager \<Rightarrow> TxnId list \<Rightarrow> bool" where
  "deadlock_cycle mg c \<longleftrightarrow> c \<noteq> [] \<and> distinct c
     \<and> (\<forall>i < length c. waits_for mg (c ! i) (c ! (Suc i mod length c)))"

lemma holders_blocking_eq:
  assumes "manager_inv mg"
  shows "\<exists>bs. holders_blocking mg w res mode = Some bs \<and> distinct bs
    \<and> set bs = {u. u \<noteq> w \<and> (\<exists>m. holds mg u res = Some m \<and> \<not> compatible_with m mode)}"
  using blocking_section_set [OF manager_inv_shard [OF assms], of w res mode res]
    blocking_section_distinct [OF manager_inv_shard [OF assms]]
  by (auto simp: holders_blocking_def read_shard_Some [OF assms] holds_def)

lemma add_waiters_neighbors:
  assumes inv: "manager_inv mg"
  shows "\<exists>g'. add_waiters mg ws g = Some g'
    \<and> (\<forall>t. set (neighbors g' t) = set (neighbors g t) \<union> (if t \<in> set ws then {u. waits_for mg t u} else {}))"
proof (induction ws arbitrary: g)
  case (Cons w ws)
  show ?case
  proof (cases "fmlookup (waits mg) w")
    case None
    then have "{u. waits_for mg w u} = {}" by (simp add: waits_for_def)
    with None Cons.IH [of g] show ?thesis by auto
  next
    case (Some rm)
    obtain res mode where rm: "rm = (res, mode)" by fastforce
    obtain bs where bs: "holders_blocking mg w res mode = Some bs"
        "set bs = {u. u \<noteq> w \<and> (\<exists>m. holds mg u res = Some m \<and> \<not> compatible_with m mode)}"
      using holders_blocking_eq [OF inv] by blast
    have w: "set (filter (\<lambda>h. h \<noteq> w) bs) = {u. waits_for mg w u}"
      using Some rm bs(2) by (auto simp: waits_for_def)
    from Cons.IH [of "add_waits g w bs"] obtain g' where g':
        "add_waiters mg ws (add_waits g w bs) = Some g'"
        "\<forall>t. set (neighbors g' t) = set (neighbors (add_waits g w bs) t) \<union>
           (if t \<in> set ws then {u. waits_for mg t u} else {})"
      by blast
    have "set (neighbors (add_waits g w bs) t) =
        set (neighbors g t) \<union> (if t = w then {u. waits_for mg w u} else {})" for t
      using w by (auto simp: neighbors_add_waits)
    with g' Some rm bs(1) show ?thesis by auto
  qed
qed simp

lemma build_wait_graph_neighbors:
  assumes inv: "manager_inv mg" and ord: "key_order ord"
  shows "\<exists>g. build_wait_graph ord mg = Some g \<and> (\<forall>t. set (neighbors g t) = {u. waits_for mg t u})"
proof -
  obtain g where g: "build_wait_graph ord mg = Some g"
      "\<forall>t. set (neighbors g t) = (if t \<in> fmdom' (waits mg) then {u. waits_for mg t u} else {})"
    using add_waiters_neighbors [OF inv, of "ord (fmdom' (waits mg))" WaitForGraph_new] ord
    by (auto simp: build_wait_graph_def)
  have "t \<notin> fmdom' (waits mg) \<Longrightarrow> {u. waits_for mg t u} = {}" for t
    by (auto simp: waits_for_def fmlookup_dom'_iff)
  with g show ?thesis by auto
qed

section \<open>The iteration order\<close>

text \<open>
  Every registered transaction is visited once and has a vector of its own, so the graph does not
  depend on the order in which the map of waits yields its keys: not even the order of its vectors.
\<close>

lemma add_waits_lookup:
  "fmlookup (edges (add_waits g w hs)) x =
     (if x = w \<and> (\<exists>h \<in> set hs. h \<noteq> w) then Some (vec_at (edges g) w @ filter (\<lambda>h. h \<noteq> w) hs) else fmlookup (edges g) x)"
proof (induction hs arbitrary: g)
  case (Cons h hs)
  show ?case
  proof (cases "h = w")
    case True
    with Cons.IH [of g] show ?thesis by (auto simp: add_wait_def)
  next
    case False
    have "filter (\<lambda>h. h \<noteq> w) hs = []" if "\<not> (\<exists>h \<in> set hs. h \<noteq> w)" using that by (simp add: filter_empty_conv)
    with False Cons.IH [of "add_wait g w h"] show ?thesis
      by (auto simp: add_wait_def map_simps)
  qed
qed simp

definition waiter_vec :: "LockManager \<Rightarrow> TxnId \<Rightarrow> TxnId list" where
  "waiter_vec mg w =
     (case fmlookup (waits mg) w of
        None \<Rightarrow> []
      | Some (res, mode) \<Rightarrow> filter (\<lambda>h. h \<noteq> w) (the (holders_blocking mg w res mode)))"

lemma add_waiters_vectors:
  assumes inv: "manager_inv mg" and "distinct ws"
  shows "\<exists>g'. add_waiters mg ws g = Some g' \<and> (\<forall>x. fmlookup (edges g') x =
    (if x \<in> set ws \<and> waiter_vec mg x \<noteq> [] then Some (vec_at (edges g) x @ waiter_vec mg x) else fmlookup (edges g) x))"
  using assms(2)
proof (induction ws arbitrary: g)
  case (Cons w ws)
  show ?case
  proof (cases "fmlookup (waits mg) w")
    case None
    then have "waiter_vec mg w = []" by (simp add: waiter_vec_def)
    with None Cons show ?thesis by fastforce
  next
    case (Some rm)
    obtain res mode where rm: "rm = (res, mode)" by fastforce
    obtain bs where bs: "holders_blocking mg w res mode = Some bs" using holders_blocking_eq [OF inv] by blast
    have w: "waiter_vec mg w = filter (\<lambda>h. h \<noteq> w) bs" using Some rm bs by (simp add: waiter_vec_def)
    let ?g = "add_waits g w bs"
    have look: "fmlookup (edges ?g) x =
        (if x = w \<and> waiter_vec mg w \<noteq> [] then Some (vec_at (edges g) w @ waiter_vec mg w) else fmlookup (edges g) x)" for x
      by (auto simp: add_waits_lookup w filter_empty_conv)
    have vec: "x \<noteq> w \<Longrightarrow> vec_at (edges ?g) x = vec_at (edges g) x" for x
      by (simp add: get_map_or_def look)
    from Cons.IH [of ?g] Cons.prems obtain g' where g': "add_waiters mg ws ?g = Some g'"
        "\<forall>x. fmlookup (edges g') x =
          (if x \<in> set ws \<and> waiter_vec mg x \<noteq> [] then Some (vec_at (edges ?g) x @ waiter_vec mg x) else fmlookup (edges ?g) x)"
      by auto
    have "fmlookup (edges g') x = (if x \<in> set (w # ws) \<and> waiter_vec mg x \<noteq> []
        then Some (vec_at (edges g) x @ waiter_vec mg x) else fmlookup (edges g) x)" for x
      using Cons.prems by (cases "x = w") (auto simp: g'(2) look vec)
    with g'(1) Some rm bs show ?thesis by simp
  qed
qed simp

lemma build_wait_graph_order:
  assumes inv: "manager_inv mg" and ord: "key_order ord1" "key_order ord2"
  shows "build_wait_graph ord1 mg = build_wait_graph ord2 mg"
proof -
  let ?ws = "\<lambda>ord. ord (fmdom' (waits mg))"
  note keys = key_orderD [OF ord(1), of "fmdom' (waits mg)"] key_orderD [OF ord(2), of "fmdom' (waits mg)"]
  from add_waiters_vectors [OF inv, of "?ws ord1" WaitForGraph_new] obtain g1 where g1:
      "add_waiters mg (?ws ord1) WaitForGraph_new = Some g1"
      "\<forall>x. fmlookup (edges g1) x = (if x \<in> set (?ws ord1) \<and> waiter_vec mg x \<noteq> []
        then Some (vec_at (edges WaitForGraph_new) x @ waiter_vec mg x) else fmlookup (edges WaitForGraph_new) x)"
    using keys by auto
  from add_waiters_vectors [OF inv, of "?ws ord2" WaitForGraph_new] obtain g2 where g2:
      "add_waiters mg (?ws ord2) WaitForGraph_new = Some g2"
      "\<forall>x. fmlookup (edges g2) x = (if x \<in> set (?ws ord2) \<and> waiter_vec mg x \<noteq> []
        then Some (vec_at (edges WaitForGraph_new) x @ waiter_vec mg x) else fmlookup (edges WaitForGraph_new) x)"
    using keys by auto
  have "edges g1 = edges g2" using keys by (intro fmap_ext) (simp add: g1(2) g2(2))
  then have "g1 = g2" by simp
  with g1(1) g2(1) show ?thesis by (simp add: build_wait_graph_def)
qed

lemma graph_edge_rel: "\<forall>t. set (neighbors g t) = {u. waits_for mg t u} \<Longrightarrow> edge_rel (neighbors g) = wait_rel mg"
  by (auto simp: edge_rel_def wait_rel_def)

lemma graph_cycle:
  "\<forall>t. set (neighbors g t) = {u. waits_for mg t u} \<Longrightarrow> cycle_in (neighbors g) c \<longleftrightarrow> deadlock_cycle mg c"
  by (simp add: cycle_in_def deadlock_cycle_def)

text \<open>The facts about graph cycles that the manager needs, on the wait-for relation.\<close>

lemma wait_graph_exists: "manager_inv mg \<Longrightarrow> \<exists>g. \<forall>t. set (neighbors g t) = {u. waits_for mg t u}"
  using build_wait_graph_neighbors key_order_sorted by blast

lemma deadlock_cycle_trancl:
  assumes "manager_inv mg" and "deadlock_cycle mg c" and "x \<in> set c"
  shows "(x, x) \<in> (wait_rel mg)\<^sup>+"
proof -
  obtain g where g: "\<forall>t. set (neighbors g t) = {u. waits_for mg t u}"
    using wait_graph_exists [OF assms(1)] by blast
  with assms(2) have "cycle_in (neighbors g) c" using graph_cycle by blast
  then show ?thesis
    using cycle_in_trancl [of "neighbors g" c x] graph_edge_rel [OF g] assms(3) by simp
qed

lemma deadlock_cycle_not_acyclic:
  assumes "manager_inv mg" and "deadlock_cycle mg c"
  shows "\<not> acyclic (wait_rel mg)"
  using deadlock_cycle_trancl [OF assms, of "hd c"] assms(2) by (auto simp: acyclic_def deadlock_cycle_def)

lemma cyclic_has_cycle:
  assumes "manager_inv mg" and "\<not> acyclic (wait_rel mg)"
  shows "\<exists>c. deadlock_cycle mg c"
proof -
  obtain g where g: "\<forall>t. set (neighbors g t) = {u. waits_for mg t u}"
    using wait_graph_exists [OF assms(1)] by blast
  from assms(2) obtain x where "(x, x) \<in> (edge_rel (neighbors g))\<^sup>+"
    by (auto simp: acyclic_def graph_edge_rel [OF g])
  then have "cycle_from g x \<noteq> None" using wfg.find_None [of g x x] by auto
  then show ?thesis using wfg.find_Some graph_cycle [OF g] by blast
qed

text \<open>Waits that disappear leave fewer edges.\<close>

lemma acyclic_fewer_waits:
  "acyclic (wait_rel mg) \<Longrightarrow> (\<And>w u. waits_for mg' w u \<Longrightarrow> waits_for mg w u) \<Longrightarrow> acyclic (wait_rel mg')"
  by (erule acyclic_subset) (auto simp: wait_rel_def)

text \<open>Edges into a node without edges of its own close no cycle.\<close>

lemma acyclic_sink:
  assumes acy: "acyclic r" and new: "\<And>w u. (w, u) \<in> r' \<Longrightarrow> (w, u) \<in> r \<or> u = t" and sink: "\<And>u. (t, u) \<notin> r'"
  shows "acyclic r'"
proof -
  have "(x, y) \<in> r'\<^sup>+ \<Longrightarrow> y = t \<or> (x, y) \<in> r\<^sup>+" for x y
  proof (induction rule: trancl_induct)
    case (base y)
    then show ?case using new by auto
  next
    case (step y z)
    then have "y \<noteq> t" using sink by auto
    with step new show ?case by (auto intro: trancl_into_trancl)
  qed
  moreover have "(t, t) \<notin> r'\<^sup>+" using sink by (auto dest!: tranclD)
  ultimately show ?thesis using acy unfolding acyclic_def by blast
qed

lemma acyclic_new_sink_edges:
  assumes "acyclic (wait_rel mg)" and "\<And>w u. waits_for mg' w u \<Longrightarrow> waits_for mg w u \<or> u = t"
    and "\<And>u. \<not> waits_for mg' t u"
  shows "acyclic (wait_rel mg')"
  using assms by (intro acyclic_sink [of "wait_rel mg" "wait_rel mg'" t]) (auto simp: wait_rel_def)

section \<open>The outcomes of request\<close>

text \<open>The state in which a refused request leaves the manager: the wait is registered.\<close>

abbreviation register_wait :: "LockManager \<Rightarrow> TxnId \<Rightarrow> ResourceId \<Rightarrow> LockMode \<Rightarrow> LockManager" where
  "register_wait mg txn res mode \<equiv> mg\<lparr>waits := fmupd txn (res, mode) (waits mg)\<rparr>"

lemma request_granted:
  assumes inv: "manager_inv mg" and g: "grantable (holds mg) txn res mode"
  shows "\<exists>mg'. request ord mg txn res mode = Some (Granted, mg') \<and> manager_inv mg'
    \<and> waits mg' = fmdrop txn (waits mg) \<and> range_holders mg' = range_holders mg
    \<and> holds mg' = set_held (holds mg) txn res (Some (granted_mode (holds mg txn res) mode))"
proof -
  obtain mg1 where mg1: "with_shard mg res (grant_section txn res mode) = Some (True, mg1)"
      "manager_inv mg1" "waits mg1 = waits mg" "range_holders mg1 = range_holders mg"
      "holds mg1 = set_held (holds mg) txn res (Some (granted_mode (holds mg txn res) mode))"
    using grant_section_manager [OF inv, of res txn mode] g by auto
  then show ?thesis by (simp add: request_def)
qed

lemma request_refused:
  assumes inv: "manager_inv mg" and ord: "key_order ord" and g: "\<not> grantable (holds mg) txn res mode"
  defines "mg' \<equiv> register_wait mg txn res mode"
  shows "\<exists>out. request ord mg txn res mode = Some (out, mg')
    \<and> ((out = Waiting \<and> (\<forall>x. (txn, x) \<in> (wait_rel mg')\<^sup>* \<longrightarrow> (x, x) \<notin> (wait_rel mg')\<^sup>+))
     \<or> (\<exists>c. out = Deadlock \<lparr>dl_victim = Max (set c), dl_cycle = c\<rparr> \<and> deadlock_cycle mg' c
          \<and> (txn, hd c) \<in> (wait_rel mg')\<^sup>*))"
proof -
  have grant: "with_shard mg res (grant_section txn res mode) = Some (False, mg)"
    using grant_section_manager [OF inv, of res txn mode] g by auto
  have "manager_inv mg'" using inv by (simp add: mg'_def)
  then obtain graph where graph: "build_wait_graph ord mg' = Some graph"
      "\<forall>t. set (neighbors graph t) = {u. waits_for mg' t u}"
    using build_wait_graph_neighbors [OF _ ord] by blast
  note rel = graph_edge_rel [OF graph(2)] and cyc = graph_cycle [OF graph(2)]
  show ?thesis
  proof (cases "cycle_from graph txn")
    case None
    then have "request ord mg txn res mode = Some (Waiting, mg')"
      using grant graph(1) by (simp add: request_def mg'_def)
    moreover have "\<forall>x. (txn, x) \<in> (wait_rel mg')\<^sup>* \<longrightarrow> (x, x) \<notin> (wait_rel mg')\<^sup>+"
      using wfg.find_None [OF None] by (simp add: rel)
    ultimately show ?thesis by blast
  next
    case (Some c)
    have c: "deadlock_cycle mg' c" "(txn, hd c) \<in> (wait_rel mg')\<^sup>*"
      using wfg.find_Some [OF Some] by (simp_all add: rel cyc)
    then have "pick_victim c DEADLOCK_VICTIM_POLICY = Some (Max (set c))"
      by (simp add: pick_victim_eq DEADLOCK_VICTIM_POLICY_def deadlock_cycle_def)
    then have "request ord mg txn res mode = Some (Deadlock \<lparr>dl_victim = Max (set c), dl_cycle = c\<rparr>, mg')"
      using grant graph(1) Some by (simp add: request_def mg'_def)
    with c show ?thesis by blast
  qed
qed

lemma request_order:
  assumes inv: "manager_inv mg" and ord: "key_order ord1" "key_order ord2"
  shows "request ord1 mg txn res mode = request ord2 mg txn res mode"
proof (cases "grantable (holds mg) txn res mode")
  case True
  then show ?thesis using grant_section_manager [OF inv, of res txn mode] by (auto simp: request_def)
next
  case False
  then have "with_shard mg res (grant_section txn res mode) = Some (False, mg)"
    using grant_section_manager [OF inv, of res txn mode] by auto
  with build_wait_graph_order [OF _ ord, of "register_wait mg txn res mode"] inv show ?thesis
    by (simp add: request_def)
qed

lemma find_deadlock_eq:
  assumes inv: "manager_inv mg" and ord: "key_order ord"
  shows "(find_deadlock ord mg = Some None \<and> acyclic (wait_rel mg))
    \<or> (\<exists>c. find_deadlock ord mg = Some (Some \<lparr>dl_victim = Max (set c), dl_cycle = c\<rparr>) \<and> deadlock_cycle mg c)"
proof -
  obtain graph where graph: "build_wait_graph ord mg = Some graph"
      "\<forall>t. set (neighbors graph t) = {u. waits_for mg t u}"
    using build_wait_graph_neighbors [OF inv ord] by blast
  show ?thesis
  proof (cases "detect_cycle ord graph")
    case None
    then have "acyclic (wait_rel mg)"
      using detect_cycle_None_iff [OF ord, of graph] graph_edge_rel [OF graph(2)] by simp
    with None graph(1) show ?thesis by (simp add: find_deadlock_def)
  next
    case (Some c)
    then have c: "deadlock_cycle mg c"
      using detect_cycle_Some graph_cycle [OF graph(2)] by blast
    then have "pick_victim c DEADLOCK_VICTIM_POLICY = Some (Max (set c))"
      by (simp add: pick_victim_eq DEADLOCK_VICTIM_POLICY_def deadlock_cycle_def)
    with Some graph(1) c show ?thesis by (simp add: find_deadlock_def)
  qed
qed

end
