(* ===== verification/Calls.thy ===== *)
theory Calls
  imports Detection
begin

text \<open>
  The public operations that change the state as one type of calls, and the managers reachable from
  \<open>with_shards\<close> by any sequence of calls.  The lemmas say that no call panics on a reachable manager,
  that every call keeps the invariant, and that a call of one transaction touches the locks and the
  wait of that transaction only.
\<close>

section \<open>Calls and reachable managers\<close>

datatype Call =
    Try_Acquire TxnId ResourceId LockMode
  | Release_One TxnId ResourceId
  | Release_All TxnId
  | Request TxnId ResourceId LockMode
  | Cancel_Wait TxnId
  | Try_Acquire_Range TxnId ResourceId KeyRange LockMode
  | Release_Range TxnId ResourceId KeyRange

datatype Outcome =
    Res "LockError + unit"
  | Count nat
  | Acq Acquisition
  | Unit

primrec caller :: "Call \<Rightarrow> TxnId" where
  "caller (Try_Acquire t r m) = t"
| "caller (Release_One t r) = t"
| "caller (Release_All t) = t"
| "caller (Request t r m) = t"
| "caller (Cancel_Wait t) = t"
| "caller (Try_Acquire_Range t s rg m) = t"
| "caller (Release_Range t s rg) = t"

primrec call :: "(TxnId set \<Rightarrow> TxnId list) \<Rightarrow> LockManager \<Rightarrow> Call \<Rightarrow> (Outcome \<times> LockManager) option" where
  "call ord mg (Try_Acquire t r m) = map_option (map_prod Res id) (try_acquire mg t r m)"
| "call ord mg (Release_One t r) = map_option (map_prod Res id) (release mg t r)"
| "call ord mg (Release_All t) = Some (map_prod Count id (release_all mg t))"
| "call ord mg (Request t r m) = map_option (map_prod Acq id) (request ord mg t r m)"
| "call ord mg (Cancel_Wait t) = Some (Unit, cancel_wait mg t)"
| "call ord mg (Try_Acquire_Range t s rg m) = map_option (map_prod Res id) (try_acquire_range mg t s rg m)"
| "call ord mg (Release_Range t s rg) = map_option (map_prod Res id) (release_range mg t s rg)"

inductive reachable :: "(TxnId set \<Rightarrow> TxnId list) \<Rightarrow> LockManager \<Rightarrow> bool"
  for ord :: "TxnId set \<Rightarrow> TxnId list"
where
  start: "with_shards oc alloc n = Some mg \<Longrightarrow> shard_count mg \<noteq> 0 \<Longrightarrow> reachable ord mg"
| step: "reachable ord mg \<Longrightarrow> call ord mg c = Some (out, mg') \<Longrightarrow> reachable ord mg'"

inductive_cases reachable_cases: "reachable ord mg"

text \<open>The manager after a call.\<close>

definition after :: "(TxnId set \<Rightarrow> TxnId list) \<Rightarrow> LockManager \<Rightarrow> Call \<Rightarrow> LockManager" where
  "after ord mg c = (case call ord mg c of Some (out, mg') \<Rightarrow> mg' | None \<Rightarrow> mg)"

section \<open>Every call\<close>

text \<open>
  A call returns, keeps the invariant, and leaves the waits and the locks of every other transaction
  alone.
\<close>

lemma call_effect:
  assumes inv: "manager_inv mg" and ord: "key_order ord"
  shows "\<exists>out mg'. call ord mg c = Some (out, mg') \<and> manager_inv mg'
    \<and> (\<forall>u. u \<noteq> caller c \<longrightarrow> fmlookup (waits mg') u = fmlookup (waits mg) u \<and> holds mg' u = holds mg u)"
proof (cases c)
  case (Try_Acquire t r m)
  obtain mg' where mg': "try_acquire mg t r m =
        Some (if grantable (holds mg) t r m then Ok () else Err Conflict, mg')"
      "manager_inv mg'" "waits mg' = waits mg"
      "grantable (holds mg) t r m \<longrightarrow>
        holds mg' = set_held (holds mg) t r (Some (granted_mode (holds mg t r) m))"
      "\<not> grantable (holds mg) t r m \<longrightarrow> mg' = mg"
    using try_acquire_effect [OF inv] by blast
  then have "holds mg' u = holds mg u" if "u \<noteq> t" for u
    using that by (cases "grantable (holds mg) t r m") (simp_all add: fun_eq_iff)
  with mg'(1,2,3) Try_Acquire show ?thesis by simp
next
  case (Release_One t r)
  obtain mg' where mg': "release mg t r = Some (if holds mg t r = None then Err NotHeld else Ok (), mg')"
      "manager_inv mg'" "waits mg' = waits mg" "holds mg' = set_held (holds mg) t r None"
    using release_effect [OF inv] by blast
  then have "holds mg' u = holds mg u" if "u \<noteq> t" for u
    using that by (simp add: fun_eq_iff)
  with mg'(1,2,3) Release_One show ?thesis by simp
next
  case (Release_All t)
  then show ?thesis using release_all_effect [OF inv, of t] by auto
next
  case (Request t r m)
  show ?thesis
  proof (cases "grantable (holds mg) t r m")
    case True
    obtain mg' where mg': "request ord mg t r m = Some (Granted, mg')" "manager_inv mg'"
        "waits mg' = fmdrop t (waits mg)"
        "holds mg' = set_held (holds mg) t r (Some (granted_mode (holds mg t r) m))"
      using request_granted [OF inv True] by blast
    then have "holds mg' u = holds mg u" if "u \<noteq> t" for u
      using that by (simp add: fun_eq_iff)
    with mg'(1,2,3) Request show ?thesis by simp
  next
    case False
    obtain out where "request ord mg t r m = Some (out, register_wait mg t r m)"
      using request_refused [OF inv ord False] by blast
    with Request inv show ?thesis by simp
  qed
next
  case (Cancel_Wait t)
  with inv show ?thesis by (simp add: cancel_wait_def)
next
  case (Try_Acquire_Range t s rg m)
  then show ?thesis using try_acquire_range_effect [OF inv, of t s rg m] by auto
next
  case (Release_Range t s rg)
  then show ?thesis using release_range_effect [OF inv, of t s rg] by auto
qed

lemma call_Some:
  "manager_inv mg \<Longrightarrow> key_order ord \<Longrightarrow> \<exists>out. call ord mg c = Some (out, after ord mg c)"
  using call_effect [of mg ord c] by (auto simp: after_def)

lemma after_inv: "manager_inv mg \<Longrightarrow> key_order ord \<Longrightarrow> manager_inv (after ord mg c)"
  using call_effect [of mg ord c] by (auto simp: after_def)

lemma after_others:
  assumes "manager_inv mg" and "key_order ord" and "u \<noteq> caller c"
  shows "fmlookup (waits (after ord mg c)) u = fmlookup (waits mg) u" and "holds (after ord mg c) u = holds mg u"
  using call_effect [OF assms(1,2), of c] assms(3) by (auto simp: after_def)

lemma reachable_inv:
  assumes "reachable ord mg" and "key_order ord"
  shows "manager_inv mg"
  using assms
proof (induction rule: reachable.induct)
  case (start oc alloc n mg)
  then show ?case using with_shards_inv(1) by (simp add: shard_count_def)
next
  case (step mg c out mg')
  then have "mg' = after ord mg c" by (simp add: after_def)
  with step show ?case using after_inv by simp
qed

text \<open>The invariant as a machine, for runs of any calls.\<close>

interpretation runs: invariant_machine "after ord" "\<lambda>mg c. key_order ord" manager_inv
  for ord :: "TxnId set \<Rightarrow> TxnId list"
  by unfold_locales (rule after_inv)

lemma guarded_run_const: "guarded_run step (\<lambda>s e. b) s es \<longleftrightarrow> es = [] \<or> b"
  by (induction es arbitrary: s) auto

lemma run_program_after:
  assumes inv: "manager_inv mg" and ord: "key_order ord"
  shows "\<exists>outs. run_program (call ord) mg cs = Some (outs, foldl (after ord) mg cs) \<and> length outs = length cs"
  using inv
proof (induction cs arbitrary: mg)
  case (Cons c cs)
  obtain out where out: "call ord mg c = Some (out, after ord mg c)"
    using call_Some [OF Cons.prems ord] by blast
  obtain outs where "run_program (call ord) (after ord mg c) cs =
      Some (outs, foldl (after ord) (after ord mg c) cs)" "length outs = length cs"
    using Cons.IH [OF after_inv [OF Cons.prems ord]] by blast
  with out show ?case by simp
qed simp

lemma run_inv_after: "manager_inv mg \<Longrightarrow> key_order ord \<Longrightarrow> manager_inv (foldl (after ord) mg cs)"
  by (rule runs.run_inv) (simp_all add: guarded_run_const)

lemma reachable_run:
  "run_program (call ord) mg cs = Some (outs, mg') \<Longrightarrow> reachable ord mg \<Longrightarrow> reachable ord mg'"
  by (induction cs arbitrary: mg outs)
    (auto simp: bind_eq_Some_conv split: prod.splits intro: reachable.step)

text \<open>A run of calls on a new manager with four shards, for concrete inputs.\<close>

definition session :: "Call list \<Rightarrow> (Outcome list \<times> LockManager) option" where
  "session cs = Option.bind (with_shards True (\<lambda>_. True) 3) (\<lambda>mg. run_program (call sorted_list_of_set) mg cs)"

lemma session_reachable: "session cs = Some (outs, mg) \<Longrightarrow> reachable sorted_list_of_set mg"
  using four_shards reachable.start [of True "\<lambda>_. True" 3] reachable_run
  by (fastforce simp: session_def bind_eq_Some_conv)

lemma session_run:
  assumes "map_option fst (session cs) = Some outs"
  shows "\<exists>mg. session cs = Some (outs, mg) \<and> reachable sorted_list_of_set mg"
  using assms session_reachable by fastforce

end
