(* ===== verification/Deadlock_Freedom.thy ===== *)
theory Deadlock_Freedom
  imports Calls
begin

text \<open>
  Deadlock handling over runs: which calls keep the wait-for relation acyclic, why a reported cycle
  is a deadlock that only its members can break, what aborting the victim leaves, and that without a
  cycle some waiting transaction is blocked by running ones only.
\<close>

section \<open>Edges that a call leaves alone\<close>

lemma waits_for_cong:
  "fmlookup (waits mg') w = fmlookup (waits mg) w \<Longrightarrow> holds mg' u = holds mg u \<Longrightarrow>
   waits_for mg' w u = waits_for mg w u"
  by (simp add: waits_for_def)

lemma waits_for_others:
  assumes "manager_inv mg" and "key_order ord" and "w \<noteq> caller c" and "u \<noteq> caller c"
  shows "waits_for (after ord mg c) w u = waits_for mg w u"
  using after_others [OF assms(1,2)] assms(3,4) by (intro waits_for_cong) auto

lemma not_waiting_no_edge: "w \<notin> fmdom' (waits mg) \<Longrightarrow> \<not> waits_for mg w u"
  by (simp add: waits_for_def fmlookup_dom'_iff)

text \<open>Only the wait of \<open>t\<close> was replaced, and no cycle is reachable from \<open>t\<close>.\<close>

lemma acyclic_one_wait:
  assumes inv: "manager_inv mg" "manager_inv mg'" and acy: "acyclic (wait_rel mg)"
    and others: "\<And>w u. w \<noteq> t \<Longrightarrow> waits_for mg' w u \<Longrightarrow> waits_for mg w u"
    and none: "\<And>x. (t, x) \<in> (wait_rel mg')\<^sup>* \<Longrightarrow> (x, x) \<notin> (wait_rel mg')\<^sup>+"
  shows "acyclic (wait_rel mg')"
proof -
  obtain g where g: "\<forall>t. set (neighbors g t) = {u. waits_for mg t u}"
    using wait_graph_exists [OF inv(1)] by blast
  obtain h where h: "\<forall>t. set (neighbors h t) = {u. waits_for mg' t u}"
    using wait_graph_exists [OF inv(2)] by blast
  note rel = graph_edge_rel [OF g] graph_edge_rel [OF h]
  have "cycle_from h t = None"
  proof (rule ccontr)
    assume "cycle_from h t \<noteq> None"
    then have "\<exists>c. cycle_from h t = Some c" by auto
    then show False using none unfolding wfg.find_iff rel by blast
  qed
  then show ?thesis
    using wfg.acyclic_after_wait [of g t h] acy others g h unfolding rel by auto
qed

lemma cycle_through_waiter:
  assumes inv: "manager_inv mg" "manager_inv mg'" and acy: "acyclic (wait_rel mg)"
    and others: "\<And>w u. w \<noteq> t \<Longrightarrow> waits_for mg' w u \<Longrightarrow> waits_for mg w u"
    and c: "deadlock_cycle mg' c"
  shows "t \<in> set c"
proof -
  obtain g where g: "\<forall>t. set (neighbors g t) = {u. waits_for mg t u}"
    using wait_graph_exists [OF inv(1)] by blast
  obtain h where h: "\<forall>t. set (neighbors h t) = {u. waits_for mg' t u}"
    using wait_graph_exists [OF inv(2)] by blast
  have "cycle_in (neighbors h) c" using c graph_cycle [OF h] by blast
  then show ?thesis
    using wfg.new_cycle_through_waiter [of g t h c] acy others g h unfolding graph_edge_rel [OF g] by auto
qed

lemma register_wait_others:
  "w \<noteq> t \<Longrightarrow> waits_for (register_wait mg t r m) w u = waits_for mg w u"
  by (simp add: waits_for_def)

section \<open>Calls that keep the wait-for relation acyclic\<close>

text \<open>
  The discipline of the documentation: a transaction that is registered as waiting does not take
  locks behind the registry's back, and a request that answers \<open>Deadlock\<close> is followed by an abort,
  which is a different step.
\<close>

primrec disciplined :: "(TxnId set \<Rightarrow> TxnId list) \<Rightarrow> LockManager \<Rightarrow> Call \<Rightarrow> bool" where
  "disciplined ord mg (Try_Acquire t r m) = (t \<notin> fmdom' (waits mg))"
| "disciplined ord mg (Release_One t r) = True"
| "disciplined ord mg (Release_All t) = True"
| "disciplined ord mg (Request t r m) =
     (case request ord mg t r m of Some (Deadlock d, _) \<Rightarrow> False | _ \<Rightarrow> True)"
| "disciplined ord mg (Cancel_Wait t) = True"
| "disciplined ord mg (Try_Acquire_Range t s rg m) = True"
| "disciplined ord mg (Release_Range t s rg) = True"

lemma acyclic_after:
  assumes inv: "manager_inv mg" and ord: "key_order ord" and acy: "acyclic (wait_rel mg)"
    and ok: "disciplined ord mg c"
  shows "acyclic (wait_rel (after ord mg c))"
proof (cases c)
  case (Try_Acquire t r m)
  obtain mg' out where mg': "try_acquire mg t r m = Some (out, mg')" "waits mg' = waits mg"
    using try_acquire_effect [OF inv] by blast
  with Try_Acquire have aft: "after ord mg c = mg'" by (simp add: after_def)
  show ?thesis
  proof (rule acyclic_new_sink_edges [OF acy, of _ t])
    show "waits_for (after ord mg c) w u \<Longrightarrow> waits_for mg w u \<or> u = t" for w u
      using waits_for_cong [of "after ord mg c" w mg u] after_others(2) [OF inv ord, of u c]
        Try_Acquire aft mg'(2) by auto
    show "\<not> waits_for (after ord mg c) t u" for u
      using ok Try_Acquire aft mg'(2) by (intro not_waiting_no_edge) simp
  qed
next
  case (Request t r m)
  show ?thesis
  proof (cases "grantable (holds mg) t r m")
    case True
    obtain mg' where mg': "request ord mg t r m = Some (Granted, mg')" "waits mg' = fmdrop t (waits mg)"
      using request_granted [OF inv True] by blast
    with Request have aft: "after ord mg c = mg'" by (simp add: after_def)
    show ?thesis
    proof (rule acyclic_new_sink_edges [OF acy, of _ t])
      show sink: "\<not> waits_for (after ord mg c) t u" for u
        by (intro not_waiting_no_edge) (simp add: aft mg'(2))
      show "waits_for (after ord mg c) w u \<Longrightarrow> waits_for mg w u \<or> u = t" for w u
        using waits_for_others [OF inv ord, of w c u] sink [of u] Request by auto
    qed
  next
    case False
    obtain out where out: "request ord mg t r m = Some (out, register_wait mg t r m)"
        "(out = Waiting \<and> (\<forall>x. (t, x) \<in> (wait_rel (register_wait mg t r m))\<^sup>* \<longrightarrow>
            (x, x) \<notin> (wait_rel (register_wait mg t r m))\<^sup>+)) \<or> (\<exists>d. out = Deadlock d)"
      using request_refused [OF inv ord False] by blast
    with ok Request have "\<forall>x. (t, x) \<in> (wait_rel (register_wait mg t r m))\<^sup>* \<longrightarrow>
        (x, x) \<notin> (wait_rel (register_wait mg t r m))\<^sup>+"
      by (auto split: option.splits)
    moreover have "after ord mg c = register_wait mg t r m"
      using out(1) Request by (simp add: after_def)
    ultimately show ?thesis
      using acyclic_one_wait [OF inv _ acy, of "after ord mg c" t] register_wait_others inv by auto
  qed
next
  case (Release_One t r)
  obtain mg' out where mg': "release mg t r = Some (out, mg')" "waits mg' = waits mg"
      "holds mg' = set_held (holds mg) t r None"
    using release_effect [OF inv] by blast
  with Release_One have "after ord mg c = mg'" by (simp add: after_def)
  with mg'(2,3) show ?thesis
    by (intro acyclic_fewer_waits [OF acy]) (auto simp: waits_for_def split: if_splits)
next
  case (Release_All t)
  obtain mg' n where mg': "release_all mg t = (n, mg')" "waits mg' = fmdrop t (waits mg)"
      "holds mg' = (holds mg)(t := (\<lambda>r. None))"
    using release_all_effect [OF inv] by blast
  with Release_All have "after ord mg c = mg'" by (simp add: after_def)
  with mg'(2,3) show ?thesis
    by (intro acyclic_fewer_waits [OF acy]) (auto simp: waits_for_def split: if_splits)
next
  case (Cancel_Wait t)
  then show ?thesis
    by (intro acyclic_fewer_waits [OF acy])
      (auto simp: after_def cancel_wait_def waits_for_def split: if_splits)
next
  case (Try_Acquire_Range t s rg m)
  obtain mg' out where "try_acquire_range mg t s rg m = Some (out, mg')" "waits mg' = waits mg"
      "holds mg' = holds mg"
    using try_acquire_range_effect [OF inv] by blast
  with Try_Acquire_Range show ?thesis
    by (intro acyclic_fewer_waits [OF acy]) (simp add: after_def waits_for_def)
next
  case (Release_Range t s rg)
  obtain mg' out where "release_range mg t s rg = Some (out, mg')" "waits mg' = waits mg"
      "holds mg' = holds mg"
    using release_range_effect [OF inv] by blast
  with Release_Range show ?thesis
    by (intro acyclic_fewer_waits [OF acy]) (simp add: after_def waits_for_def)
qed

text \<open>The acyclic managers as a machine under the discipline.\<close>

definition live_inv :: "LockManager \<Rightarrow> bool" where
  "live_inv mg \<longleftrightarrow> manager_inv mg \<and> acyclic (wait_rel mg)"

interpretation live: invariant_machine "after ord" "\<lambda>mg c. key_order ord \<and> disciplined ord mg c" live_inv
  for ord :: "TxnId set \<Rightarrow> TxnId list"
  by unfold_locales (auto simp: live_inv_def after_inv acyclic_after)

lemma guarded_run_and: "b \<Longrightarrow> guarded_run step ok s es \<Longrightarrow> guarded_run step (\<lambda>s e. b \<and> ok s e) s es"
  by (induction es arbitrary: s) auto

lemma live_start:
  assumes "with_shards oc alloc n = Some mg" and "shard_count mg \<noteq> 0"
  shows "live_inv mg"
proof -
  have "wait_rel mg = {}"
    using with_shards_inv(2) [OF assms(1)] assms(2)
    by (simp add: wait_rel_def waits_for_def shard_count_def)
  then show ?thesis
    using with_shards_inv(1) [OF assms(1)] assms(2)
    by (simp add: live_inv_def shard_count_def acyclic_def)
qed

section \<open>A reported cycle persists\<close>

lemma deadlock_cycle_persists:
  assumes "manager_inv mg" and "key_order ord" and "deadlock_cycle mg c" and "\<forall>e \<in> set es. caller e \<notin> set c"
  shows "deadlock_cycle (foldl (after ord) mg es) c"
  using assms
proof (induction es arbitrary: mg)
  case (Cons e es)
  have mem: "c ! i \<in> set c" "c ! (Suc i mod length c) \<in> set c" if "i < length c" for i
    using that nth_mod_mem [OF that] by auto
  have "waits_for (after ord mg e) (c ! i) (c ! (Suc i mod length c))" if i: "i < length c" for i
  proof -
    have "c ! i \<noteq> caller e" "c ! (Suc i mod length c) \<noteq> caller e"
      using mem [OF i] Cons.prems(4) by auto
    with i Cons.prems(3) show ?thesis
      using waits_for_others [OF Cons.prems(1,2)] by (simp add: deadlock_cycle_def)
  qed
  then have "deadlock_cycle (after ord mg e) c"
    using Cons.prems(3) by (simp add: deadlock_cycle_def)
  with Cons.IH [OF after_inv [OF Cons.prems(1,2)] Cons.prems(2)] Cons.prems(4) show ?case by simp
qed simp

text \<open>A member of a cycle that retries its own request is not granted it.\<close>

lemma waits_for_not_grantable:
  assumes "manager_inv mg" and "fmlookup (waits mg) w = Some (res, mode)" and "waits_for mg w u"
  shows "\<not> grantable (holds mg) w res mode"
  using assms by (auto simp: grantable_iff waits_for_def)

section \<open>Aborting the victim\<close>

lemma abort_cycles:
  assumes inv: "manager_inv mg" and rel: "release_all mg v = (n, mg')"
  shows "deadlock_cycle mg' c \<longleftrightarrow> deadlock_cycle mg c \<and> v \<notin> set c"
proof -
  have eff: "waits mg' = fmdrop v (waits mg)" "holds mg' = (holds mg)(v := (\<lambda>r. None))"
    using release_all_effect [OF inv, of v] rel by auto
  then have edge: "waits_for mg' w u \<longleftrightarrow> waits_for mg w u \<and> w \<noteq> v \<and> u \<noteq> v" for w u
    by (auto simp: waits_for_def split: if_splits)
  show ?thesis
  proof (intro iffI conjI notI; (elim conjE)?)
    assume c: "deadlock_cycle mg' c"
    then show "deadlock_cycle mg c" by (simp add: deadlock_cycle_def edge)
    assume "v \<in> set c"
    then obtain i where "i < length c" "c ! i = v" by (auto simp: in_set_conv_nth)
    with c show False by (auto simp: deadlock_cycle_def edge)
  next
    assume c: "deadlock_cycle mg c" and v: "v \<notin> set c"
    have other: "x \<in> set c \<Longrightarrow> x \<noteq> v" for x using v by blast
    show "deadlock_cycle mg' c"
      unfolding deadlock_cycle_def edge
    proof (intro conjI allI impI)
      fix i assume i: "i < length c"
      show "waits_for mg (c ! i) (c ! (Suc i mod length c))" using c i unfolding deadlock_cycle_def by blast
      show "c ! i \<noteq> v" by (rule other [OF nth_mem [OF i]])
      show "c ! (Suc i mod length c) \<noteq> v" by (rule other [OF nth_mod_mem [OF i]])
    qed (use c in \<open>auto simp: deadlock_cycle_def\<close>)
  qed
qed

text \<open>
  When every cycle goes through a transaction, its request leaves cycles through it only, and none if
  the request is granted or told to wait.
\<close>

lemma request_cycles_through:
  assumes inv: "manager_inv mg" and ord: "key_order ord"
    and through: "\<And>c. deadlock_cycle mg c \<Longrightarrow> t \<in> set c"
    and c: "deadlock_cycle (after ord mg (Request t r m)) c"
  shows "t \<in> set c"
proof (rule ccontr)
  assume t: "t \<notin> set c"
  have "waits_for mg (c ! i) (c ! (Suc i mod length c))" if "i < length c" for i
  proof -
    have "c ! i \<noteq> t" "c ! (Suc i mod length c) \<noteq> t"
      using t nth_mem [OF that] nth_mod_mem [OF that] by auto
    then show ?thesis
      using waits_for_others [OF inv ord, of "c ! i" "Request t r m" "c ! (Suc i mod length c)"] c that
      by (simp add: deadlock_cycle_def)
  qed
  then have "deadlock_cycle mg c" using c by (simp add: deadlock_cycle_def)
  with through t show False by blast
qed

lemma request_clears:
  assumes inv: "manager_inv mg" and ord: "key_order ord"
    and through: "\<And>c. deadlock_cycle mg c \<Longrightarrow> t \<in> set c"
    and req: "request ord mg t r m = Some (out, mg')" and out: "out = Waiting \<or> out = Granted"
  shows "manager_inv mg'" and "\<not> deadlock_cycle mg' c"
proof -
  have aft: "after ord mg (Request t r m) = mg'" using req by (simp add: after_def)
  show inv': "manager_inv mg'" using after_inv [OF inv ord] aft by metis
  show "\<not> deadlock_cycle mg' c"
  proof
    assume c: "deadlock_cycle mg' c"
    then have "t \<in> set c" using request_cycles_through [OF inv ord through] aft by metis
    with deadlock_cycle_trancl [OF inv' c] have loop: "(t, t) \<in> (wait_rel mg')\<^sup>+" by blast
    then obtain u where u: "waits_for mg' t u" by (auto dest!: tranclD simp: wait_rel_def)
    show False
    proof (cases "grantable (holds mg) t r m")
      case True
      with request_granted [OF inv True, of ord] req have "waits mg' = fmdrop t (waits mg)" by auto
      with u show False by (simp add: waits_for_def)
    next
      case False
      from request_refused [OF inv ord False] req out loop show False by auto
    qed
  qed
qed

section \<open>Progress\<close>

text \<open>Without a cycle some waiting transaction is blocked by running transactions only.\<close>

lemma acyclic_front_waiter:
  assumes acy: "acyclic (wait_rel mg)" and w: "w \<in> fmdom' (waits mg)"
  shows "\<exists>f \<in> fmdom' (waits mg). \<forall>u. waits_for mg f u \<longrightarrow> u \<notin> fmdom' (waits mg)"
proof -
  let ?W = "fmdom' (waits mg)"
  let ?r = "wait_rel mg \<inter> ?W \<times> ?W"
  have "finite (?W \<times> ?W)" by simp
  then have "finite ?r" by (rule finite_subset [rotated]) blast
  moreover have "acyclic ?r" using acy by (rule acyclic_subset) blast
  ultimately have "wf (?r\<inverse>)" by (rule finite_acyclic_wf_converse)
  from wfE_min' [OF this, of ?W] w obtain f
    where f: "f \<in> ?W" "\<And>u. (u, f) \<in> ?r\<inverse> \<Longrightarrow> u \<notin> ?W" by blast
  have "u \<notin> ?W" if "waits_for mg f u" for u
  proof
    assume "u \<in> ?W"
    with that f(1) have "(u, f) \<in> ?r\<inverse>" by (simp add: wait_rel_def)
    then show False using f(2) \<open>u \<in> ?W\<close> by blast
  qed
  with f(1) show ?thesis by blast
qed

lemma finish_all_effect:
  assumes "manager_inv mg" and "key_order ord"
  shows "manager_inv (foldl (after ord) mg (map Release_All bs))
    \<and> holds (foldl (after ord) mg (map Release_All bs)) u = (if u \<in> set bs then (\<lambda>r. None) else holds mg u)
    \<and> (u \<notin> set bs \<longrightarrow> fmlookup (waits (foldl (after ord) mg (map Release_All bs))) u = fmlookup (waits mg) u)"
  using assms(1)
proof (induction bs arbitrary: mg)
  case (Cons b bs)
  obtain n mg' where mg': "release_all mg b = (n, mg')" "manager_inv mg'"
      "waits mg' = fmdrop b (waits mg)" "holds mg' = (holds mg)(b := (\<lambda>r. None))"
    using release_all_effect [OF Cons.prems] by blast
  then have "after ord mg (Release_All b) = mg'" by (simp add: after_def)
  with Cons.IH [OF mg'(2)] mg'(3,4) show ?case by auto
qed simp

end
