(* ===== verification/Manager_Props.thy ===== *)
theory Manager_Props
  imports Deadlock_Freedom Ref_Model
begin

text \<open>
  The properties of the lock manager's operations, stated over the queries of the program
  (\<open>mode_held\<close>, \<open>holder_count\<close>, \<open>range_count\<close>) and for every manager reachable from \<open>with_shards\<close> by
  any sequence of calls.
\<close>

section \<open>Safety\<close>

text \<open>
  C2: Two transactions never hold incompatible locks: on every reachable manager the modes held on a
  resource by two transactions are compatible, and so are the modes of overlapping ranges held by two
  transactions in one space.
\<close>

theorem no_conflicting_locks:
  assumes "key_order ord" and "reachable ord mg"
  shows "(\<forall>t u r a b. t \<noteq> u \<and> mode_held mg t r = Some (Some a) \<and> mode_held mg u r = Some (Some b) \<longrightarrow>
        compatible_with a b)
    \<and> (\<forall>s. \<forall>h \<in> set (range_holders mg s). \<forall>k \<in> set (range_holders mg s).
        rh_txn h \<noteq> rh_txn k \<and> overlaps (rh_range h) (rh_range k) \<longrightarrow>
        compatible_with (rh_mode h) (rh_mode k))"
proof -
  have inv: "manager_inv mg" using assms by (rule reachable_inv [rotated])
  show ?thesis
    using holds_compatible [OF inv] range_holders_compatible [OF inv] by (auto simp: mode_held_eq [OF inv])
qed

theorem no_conflicting_locks_witness:
  "\<exists>mg. session [Try_Acquire (TxnId 1) (ResourceId 7) Shared, Try_Acquire (TxnId 2) (ResourceId 7) IntentionShared,
        Try_Acquire (TxnId 3) (ResourceId 7) IntentionExclusive] =
      Some ([Res (Ok ()), Res (Ok ()), Res (Err Conflict)], mg)
    \<and> (\<forall>t u r a b. t \<noteq> u \<and> mode_held mg t r = Some (Some a) \<and> mode_held mg u r = Some (Some b) \<longrightarrow>
        compatible_with a b)"
proof -
  let ?cs = "[Try_Acquire (TxnId 1) (ResourceId 7) Shared, Try_Acquire (TxnId 2) (ResourceId 7) IntentionShared,
    Try_Acquire (TxnId 3) (ResourceId 7) IntentionExclusive]"
  have "map_option fst (session ?cs) = Some [Res (Ok ()), Res (Ok ()), Res (Err Conflict)]" by code_simp
  then obtain mg where "session ?cs = Some ([Res (Ok ()), Res (Ok ()), Res (Err Conflict)], mg)"
      "reachable sorted_list_of_set mg"
    using session_run by blast
  with no_conflicting_locks [OF key_order_sorted, of mg] show ?thesis by blast
qed

text \<open>
  No call panics on a reachable manager: every operation returns a result, in particular the
  shard index is always in range.
\<close>

theorem calls_never_panic:
  assumes "key_order ord" and "reachable ord mg"
  shows "call ord mg c \<noteq> None \<and> find_deadlock ord mg \<noteq> None \<and> build_wait_graph ord mg \<noteq> None
    \<and> mode_held mg t r \<noteq> None \<and> holder_count mg r \<noteq> None \<and> range_count mg r \<noteq> None
    \<and> unat (shard_index mg r) < shard_count mg"
proof -
  have inv: "manager_inv mg" using assms by (rule reachable_inv [rotated])
  have "call ord mg c \<noteq> None" using call_Some [OF inv assms(1), of c] by auto
  moreover have "find_deadlock ord mg \<noteq> None" using find_deadlock_eq [OF inv assms(1)] by auto
  moreover have "build_wait_graph ord mg \<noteq> None" using build_wait_graph_neighbors [OF inv assms(1)] by auto
  moreover have "unat (shard_index mg r) < shard_count mg"
    using route_less [OF manager_inv_shape [OF inv], of r] by (simp add: route_def shard_count_def)
  ultimately show ?thesis by (simp add: mode_held_eq [OF inv] holder_count_eq [OF inv] range_count_eq [OF inv])
qed

theorem calls_never_panic_witness:
  "\<exists>mg outs. session [Request (TxnId 1) (ResourceId 7) Exclusive, Request (TxnId 2) (ResourceId 7) Shared] =
      Some (outs, mg)
    \<and> call sorted_list_of_set mg (Release_All (TxnId 1)) \<noteq> None \<and> unat (shard_index mg (ResourceId 9)) < shard_count mg"
proof -
  let ?cs = "[Request (TxnId 1) (ResourceId 7) Exclusive, Request (TxnId 2) (ResourceId 7) Shared]"
  have "map_option fst (session ?cs) = Some [Acq Granted, Acq Waiting]" by code_simp
  then obtain mg where "session ?cs = Some ([Acq Granted, Acq Waiting], mg)" "reachable sorted_list_of_set mg"
    using session_run by blast
  with calls_never_panic [OF key_order_sorted, of mg "Release_All (TxnId 1)" _ "ResourceId 9"]
  show ?thesis by blast
qed

section \<open>Point locks\<close>

text \<open>
  C26: \<open>try_acquire\<close> grants exactly when every other holder of the resource is compatible with the
  mode asked for.  A grant leaves the transaction with the join of what it held and what it asked for
  and changes nothing else; a refusal is \<open>Conflict\<close> and leaves the manager as it was.
\<close>

theorem try_acquire_exact:
  assumes "key_order ord" and "reachable ord mg"
  shows "\<exists>mg'. let ok = (\<forall>u m. u \<noteq> txn \<and> mode_held mg u res = Some (Some m) \<longrightarrow> compatible_with m mode) in
    try_acquire mg txn res mode = Some (if ok then Ok () else Err Conflict, mg')
    \<and> (\<not> ok \<longrightarrow> mg' = mg)
    \<and> (ok \<longrightarrow> waits mg' = waits mg \<and> range_holders mg' = range_holders mg
        \<and> (\<forall>t r. mode_held mg' t r =
             (if t = txn \<and> r = res
              then Some (Some (case mode_held mg txn res of Some (Some cur) \<Rightarrow> join cur mode | _ \<Rightarrow> mode))
              else mode_held mg t r)))"
proof -
  have inv: "manager_inv mg" using assms by (rule reachable_inv [rotated])
  obtain mg' where mg': "try_acquire mg txn res mode =
        Some (if grantable (holds mg) txn res mode then Ok () else Err Conflict, mg')"
      "manager_inv mg'" "waits mg' = waits mg" "range_holders mg' = range_holders mg"
      "grantable (holds mg) txn res mode \<longrightarrow>
        holds mg' = set_held (holds mg) txn res (Some (granted_mode (holds mg txn res) mode))"
      "\<not> grantable (holds mg) txn res mode \<longrightarrow> mg' = mg"
    using try_acquire_effect [OF inv] by blast
  have ok: "grantable (holds mg) txn res mode \<longleftrightarrow>
      (\<forall>u m. u \<noteq> txn \<and> mode_held mg u res = Some (Some m) \<longrightarrow> compatible_with m mode)"
    by (simp add: grantable_iff [OF inv] mode_held_eq [OF inv])
  have "grantable (holds mg) txn res mode \<Longrightarrow> mode_held mg' t r =
      (if t = txn \<and> r = res
       then Some (Some (case mode_held mg txn res of Some (Some cur) \<Rightarrow> join cur mode | _ \<Rightarrow> mode))
       else mode_held mg t r)" for t r
    using mg'(5) by (auto simp: mode_held_eq [OF inv] mode_held_eq [OF mg'(2)] granted_mode_def split: option.splits)
  with mg' ok show ?thesis unfolding Let_def by (intro exI [of _ mg']) simp
qed

theorem try_acquire_exact_witness:
  "\<exists>mg mg'. session [Try_Acquire (TxnId 1) (ResourceId 7) Shared] = Some ([Res (Ok ())], mg)
    \<and> try_acquire mg (TxnId 1) (ResourceId 7) IntentionExclusive = Some (Ok (), mg')
    \<and> mode_held mg' (TxnId 1) (ResourceId 7) = Some (Some SharedIntentionExclusive)"
proof -
  let ?cs = "[Try_Acquire (TxnId 1) (ResourceId 7) Shared]"
  let ?q = "\<lambda>mg. (mode_held mg (TxnId 1) (ResourceId 7),
    map_option fst (try_acquire mg (TxnId 1) (ResourceId 7) IntentionExclusive))"
  have "map_option (map_prod id ?q) (session ?cs) = Some ([Res (Ok ())], Some (Some Shared), Some (Ok ()))"
    by code_simp
  then obtain mg where mg: "session ?cs = Some ([Res (Ok ())], mg)"
      "mode_held mg (TxnId 1) (ResourceId 7) = Some (Some Shared)"
      "map_option fst (try_acquire mg (TxnId 1) (ResourceId 7) IntentionExclusive) = Some (Ok ())"
    by auto
  have "join Shared IntentionExclusive = SharedIntentionExclusive" by code_simp
  with mg try_acquire_exact [OF key_order_sorted session_reachable [OF mg(1)], of "TxnId 1" "ResourceId 7" IntentionExclusive]
  show ?thesis by (auto simp: Let_def split: if_splits)
qed

text \<open>
  C30: \<open>release\<close> answers \<open>NotHeld\<close> exactly when the transaction holds nothing on the resource and then
  changes nothing; otherwise it removes that one lock and no other, so a second release is \<open>NotHeld\<close>.
\<close>

theorem release_exact:
  assumes "key_order ord" and "reachable ord mg"
  shows "\<exists>mg'. release mg txn res = Some (if mode_held mg txn res = Some None then Err NotHeld else Ok (), mg')
    \<and> (mode_held mg txn res = Some None \<longrightarrow> mg' = mg)
    \<and> waits mg' = waits mg \<and> range_holders mg' = range_holders mg
    \<and> (\<forall>t r. mode_held mg' t r = (if t = txn \<and> r = res then Some None else mode_held mg t r))
    \<and> release mg' txn res = Some (Err NotHeld, mg')"
proof -
  have inv: "manager_inv mg" using assms by (rule reachable_inv [rotated])
  obtain mg' where mg': "release mg txn res = Some (if holds mg txn res = None then Err NotHeld else Ok (), mg')"
      "manager_inv mg'" "waits mg' = waits mg" "range_holders mg' = range_holders mg"
      "holds mg' = set_held (holds mg) txn res None" "holds mg txn res = None \<longrightarrow> mg' = mg"
    using release_effect [OF inv] by blast
  have "holds mg' txn res = None" by (simp add: mg'(5))
  then have "release mg' txn res = Some (Err NotHeld, mg')"
    using release_effect [OF mg'(2), of txn res] by auto
  with mg' show ?thesis
    by (intro exI [of _ mg']) (simp add: mode_held_eq [OF inv] mode_held_eq [OF mg'(2)])
qed

theorem release_exact_witness:
  "\<exists>mg mg' r. session [Try_Acquire (TxnId 1) (ResourceId 7) Shared] = Some ([Res (Ok ())], mg)
    \<and> release mg (TxnId 1) (ResourceId 7) = Some (r, mg')
    \<and> release mg' (TxnId 1) (ResourceId 7) = Some (Err NotHeld, mg')"
proof -
  let ?cs = "[Try_Acquire (TxnId 1) (ResourceId 7) Shared]"
  have "map_option fst (session ?cs) = Some [Res (Ok ())]" by code_simp
  then obtain mg where "session ?cs = Some ([Res (Ok ())], mg)" "reachable sorted_list_of_set mg"
    using session_run by blast
  with release_exact [OF key_order_sorted, of mg "TxnId 1" "ResourceId 7"] show ?thesis by blast
qed

text \<open>
  C20: \<open>release_all\<close> drops every point and range lock of the transaction and its registered wait,
  returns how many locks that were, and leaves the locks of every other transaction as they were; a
  second call returns 0.
\<close>

theorem release_all_exact:
  assumes "key_order ord" and "reachable ord mg"
  shows "\<exists>mg'. release_all mg txn =
      (card {r. mode_held mg txn r \<noteq> Some None}
         + (\<Sum>s\<in>{s. range_holders mg s \<noteq> []}. length (filter (\<lambda>h. rh_txn h = txn) (range_holders mg s))), mg')
    \<and> waits mg' = fmdrop txn (waits mg)
    \<and> (\<forall>t r. mode_held mg' t r = (if t = txn then Some None else mode_held mg t r))
    \<and> (\<forall>s. mset (range_holders mg' s) = filter_mset (\<lambda>h. rh_txn h \<noteq> txn) (mset (range_holders mg s)))
    \<and> fst (release_all mg' txn) = 0"
proof -
  have inv: "manager_inv mg" using assms by (rule reachable_inv [rotated])
  obtain mg' where mg': "release_all mg txn = (lock_total mg txn, mg')" "manager_inv mg'"
      "waits mg' = fmdrop txn (waits mg)" "holds mg' = (holds mg)(txn := (\<lambda>r. None))"
      "\<forall>s. mset (range_holders mg' s) = filter_mset (\<lambda>h. rh_txn h \<noteq> txn) (mset (range_holders mg s))"
    using release_all_effect [OF inv] by blast
  have "filter (\<lambda>h. rh_txn h = txn) (range_holders mg' s) = []" for s
  proof -
    have "set (range_holders mg' s) = {h \<in> set (range_holders mg s). rh_txn h \<noteq> txn}"
      using mg'(5) by (metis mset_filter set_filter set_mset_mset)
    then show ?thesis by (auto simp: filter_empty_conv)
  qed
  then have "lock_total mg' txn = 0" by (simp add: lock_total_def mg'(4))
  then have "fst (release_all mg' txn) = 0" using release_all_effect [OF mg'(2), of txn] by auto
  with mg' show ?thesis
    by (intro exI [of _ mg']) (simp add: mode_held_eq [OF inv] mode_held_eq [OF mg'(2)] lock_total_def)
qed

theorem release_all_exact_witness:
  "\<exists>mg mg'. map_option snd (session
        [Try_Acquire (TxnId 1) (ResourceId 7) Shared, Try_Acquire (TxnId 2) (ResourceId 7) Shared,
         Try_Acquire (TxnId 1) (ResourceId 8) Exclusive,
         Try_Acquire_Range (TxnId 1) (ResourceId 9) (KeyRange_point 4) Shared]) = Some mg
    \<and> release_all mg (TxnId 1) = (3, mg')
    \<and> mode_held mg' (TxnId 1) (ResourceId 7) = Some None
    \<and> mode_held mg' (TxnId 2) (ResourceId 7) = Some (Some Shared)"
proof -
  let ?cs = "[Try_Acquire (TxnId 1) (ResourceId 7) Shared, Try_Acquire (TxnId 2) (ResourceId 7) Shared,
    Try_Acquire (TxnId 1) (ResourceId 8) Exclusive,
    Try_Acquire_Range (TxnId 1) (ResourceId 9) (KeyRange_point 4) Shared]"
  let ?q = "\<lambda>mg. (mode_held mg (TxnId 2) (ResourceId 7), fst (release_all mg (TxnId 1)))"
  have "map_option (?q \<circ> snd) (session ?cs) = Some (Some (Some Shared), 3)" by code_simp
  then obtain outs mg where mg: "session ?cs = Some (outs, mg)"
      "mode_held mg (TxnId 2) (ResourceId 7) = Some (Some Shared)" "fst (release_all mg (TxnId 1)) = 3"
    by auto
  from release_all_exact [OF key_order_sorted session_reachable [OF mg(1)], of "TxnId 1"] obtain n mg'
    where "release_all mg (TxnId 1) = (n, mg')"
      "\<forall>t r. mode_held mg' t r = (if t = TxnId 1 then Some None else mode_held mg t r)"
    by blast
  with mg show ?thesis by auto
qed

section \<open>Range locks\<close>

text \<open>
  C27: \<open>try_acquire_range\<close> refuses exactly when another transaction holds an overlapping range of the
  space in an incompatible mode, and then changes nothing; otherwise the range is added and
  \<open>range_count\<close> grows by one.  A transaction never conflicts with its own ranges, and point locks do
  not matter.
\<close>

theorem try_acquire_range_exact:
  assumes "key_order ord" and "reachable ord mg"
  shows "\<exists>mg'. let blocked = (\<exists>h \<in> set (range_holders mg space). rh_txn h \<noteq> txn \<and> overlaps (rh_range h) rg
                       \<and> \<not> compatible_with (rh_mode h) mode) in
    try_acquire_range mg txn space rg mode = Some (if blocked then Err Conflict else Ok (), mg')
    \<and> (blocked \<longrightarrow> mg' = mg)
    \<and> (\<not> blocked \<longrightarrow> waits mg' = waits mg \<and> (\<forall>t r. mode_held mg' t r = mode_held mg t r)
        \<and> range_holders mg' = (range_holders mg)(space :=
             range_holders mg space @ [\<lparr>rh_txn = txn, rh_range = rg, rh_mode = mode\<rparr>])
        \<and> range_count mg' space = map_option Suc (range_count mg space))"
proof -
  have inv: "manager_inv mg" using assms by (rule reachable_inv [rotated])
  let ?b = "range_blocked (range_holders mg space) txn rg mode"
  have b: "?b \<longleftrightarrow> (\<exists>h \<in> set (range_holders mg space). rh_txn h \<noteq> txn \<and> overlaps (rh_range h) rg
      \<and> \<not> compatible_with (rh_mode h) mode)"
    by (simp add: range_blocked_def list_ex_iff)
  obtain mg' where mg': "try_acquire_range mg txn space rg mode = Some (if ?b then Err Conflict else Ok (), mg')"
      "manager_inv mg'" "waits mg' = waits mg" "holds mg' = holds mg"
      "\<not> ?b \<longrightarrow> range_holders mg' = (range_holders mg)
        (space := range_holders mg space @ [\<lparr>rh_txn = txn, rh_range = rg, rh_mode = mode\<rparr>])"
      "?b \<longrightarrow> mg' = mg"
    using try_acquire_range_effect [OF inv] by blast
  then show ?thesis
    unfolding Let_def b [symmetric]
    by (intro exI [of _ mg'])
      (simp add: mode_held_eq [OF inv] mode_held_eq [OF mg'(2)] range_count_eq [OF inv] range_count_eq [OF mg'(2)])
qed

theorem try_acquire_range_exact_witness:
  "\<exists>mg mg'. session [Try_Acquire_Range (TxnId 1) (ResourceId 9) (KeyRange_point 4) Shared] = Some ([Res (Ok ())], mg)
    \<and> try_acquire_range mg (TxnId 2) (ResourceId 9) (KeyRange_point 4) Shared = Some (Ok (), mg')
    \<and> range_count mg' (ResourceId 9) = Some 2"
proof -
  let ?cs = "[Try_Acquire_Range (TxnId 1) (ResourceId 9) (KeyRange_point 4) Shared]"
  let ?q = "\<lambda>mg. (range_count mg (ResourceId 9),
    map_option fst (try_acquire_range mg (TxnId 2) (ResourceId 9) (KeyRange_point 4) Shared))"
  have "map_option (map_prod id ?q) (session ?cs) = Some ([Res (Ok ())], Some 1, Some (Ok ()))" by code_simp
  then obtain mg where mg: "session ?cs = Some ([Res (Ok ())], mg)" "range_count mg (ResourceId 9) = Some 1"
      "map_option fst (try_acquire_range mg (TxnId 2) (ResourceId 9) (KeyRange_point 4) Shared) = Some (Ok ())"
    by auto
  from try_acquire_range_exact [OF key_order_sorted session_reachable [OF mg(1)],
      of "ResourceId 9" "TxnId 2" "KeyRange_point 4" Shared] mg
  show ?thesis by (auto simp: Let_def split: if_splits)
qed

text \<open>
  C28: Phantom protection: while a transaction holds a range, no other transaction gets an exclusive
  lock, or any lock in a mode incompatible with the one held, on any range with a key in common, be it
  a single key, a range within, around, or one that overlaps in part.
\<close>

theorem range_lock_protects_keys:
  assumes "key_order ord" and "reachable ord mg" and "h \<in> set (range_holders mg space)"
    and "contains (rh_range h) k" and "contains rg k" and "rh_txn h \<noteq> txn"
    and "mode = Exclusive \<or> \<not> compatible_with (rh_mode h) mode"
  shows "try_acquire_range mg txn space rg mode = Some (Err Conflict, mg)"
proof -
  have inv: "manager_inv mg" using assms(2,1) by (rule reachable_inv)
  have "\<not> compatible_with m Exclusive" for m by (cases m; simp add: mode_simps)
  then have "\<not> compatible_with (rh_mode h) mode" using assms(7) by blast
  moreover have "overlaps (rh_range h) rg" using contains_overlaps [OF assms(4,5)] .
  ultimately have "range_blocked (range_holders mg space) txn rg mode"
    using assms(3,6) by (auto simp: range_blocked_def list_ex_iff)
  then show ?thesis using try_acquire_range_effect [OF inv, of txn space rg mode] by auto
qed

theorem range_lock_protects_keys_witness:
  "\<exists>mg. map_option snd (session
        [Try_Acquire_Range (TxnId 1) (ResourceId 9) \<lparr>kr_start = 100, kr_end = 200\<rparr> Shared]) = Some mg
    \<and> try_acquire_range mg (TxnId 2) (ResourceId 9) \<lparr>kr_start = 150, kr_end = 250\<rparr> Exclusive = Some (Err Conflict, mg)"
proof -
  let ?cs = "[Try_Acquire_Range (TxnId 1) (ResourceId 9) \<lparr>kr_start = 100, kr_end = 200\<rparr> Shared]"
  have "map_option (\<lambda>(outs, mg). range_holders mg (ResourceId 9)) (session ?cs) =
      Some [\<lparr>rh_txn = TxnId 1, rh_range = \<lparr>kr_start = 100, kr_end = 200\<rparr>, rh_mode = Shared\<rparr>]" by code_simp
  then obtain outs mg where mg: "session ?cs = Some (outs, mg)"
      "range_holders mg (ResourceId 9) = [\<lparr>rh_txn = TxnId 1, rh_range = \<lparr>kr_start = 100, kr_end = 200\<rparr>, rh_mode = Shared\<rparr>]"
    by auto
  have "contains \<lparr>kr_start = 100, kr_end = 200\<rparr> 170" "contains \<lparr>kr_start = 150, kr_end = 250\<rparr> 170" by code_simp+
  with mg range_lock_protects_keys [OF key_order_sorted session_reachable [OF mg(1)],
      of "\<lparr>rh_txn = TxnId 1, rh_range = \<lparr>kr_start = 100, kr_end = 200\<rparr>, rh_mode = Shared\<rparr>" "ResourceId 9" 170
        "\<lparr>kr_start = 150, kr_end = 250\<rparr>" "TxnId 2" Exclusive]
  show ?thesis by simp
qed

text \<open>
  \<open>release_range\<close> answers \<open>NotHeld\<close> exactly when the transaction holds no lock on that very range,
  and then changes nothing; otherwise exactly one such lock goes and everything else stays.
\<close>

theorem release_range_exact:
  assumes "key_order ord" and "reachable ord mg"
  shows "\<exists>mg'. let held = {h \<in> set (range_holders mg space). rh_txn h = txn \<and> rh_range h = rg} in
    release_range mg txn space rg = Some (if held = {} then Err NotHeld else Ok (), mg')
    \<and> (held = {} \<longrightarrow> mg' = mg)
    \<and> (held \<noteq> {} \<longrightarrow> (\<exists>h \<in> held. mset (range_holders mg' space) = mset (range_holders mg space) - {#h#}))
    \<and> (\<forall>s. s \<noteq> space \<longrightarrow> range_holders mg' s = range_holders mg s)
    \<and> waits mg' = waits mg \<and> (\<forall>t r. mode_held mg' t r = mode_held mg t r)"
proof -
  have inv: "manager_inv mg" using assms by (rule reachable_inv [rotated])
  let ?hs = "range_holders mg space" let ?p = "position (span_at txn rg) ?hs"
  let ?held = "{h \<in> set ?hs. span_at txn rg h}"
  obtain mg' where mg': "release_range mg txn space rg = Some (if ?p = None then Err NotHeld else Ok (), mg')"
      "manager_inv mg'" "waits mg' = waits mg" "holds mg' = holds mg"
      "\<forall>i. ?p = Some i \<longrightarrow> range_holders mg' = (range_holders mg)(space := swap_remove i ?hs)"
      "?p = None \<longrightarrow> mg' = mg"
    using release_range_effect [OF inv] by blast
  have none: "?p = None \<longleftrightarrow> ?held = {}" by auto
  have one: "\<exists>h \<in> ?held. mset (range_holders mg' space) = mset ?hs - {#h#}" if "?held \<noteq> {}"
  proof -
    have "?p \<noteq> None" using that unfolding none .
    then obtain i where i: "?p = Some i" by (rule not_None_eq [THEN iffD1, THEN exE])
    then have "?hs ! i \<in> ?held" and "mset (swap_remove i ?hs) = mset ?hs - {#?hs ! i#}"
      using position_SomeD [OF i] by (auto simp: mset_swap_remove)
    with i mg'(5) show ?thesis by auto
  qed
  have "range_holders mg' s = range_holders mg s" if "s \<noteq> space" for s
    using mg'(5,6) that by (cases ?p) auto
  with mg' one show ?thesis
    unfolding Let_def none
    by (intro exI [of _ mg']) (simp add: mode_held_eq [OF inv] mode_held_eq [OF mg'(2)])
qed

theorem release_range_exact_witness:
  "\<exists>mg mg'. map_option snd (session
        [Try_Acquire_Range (TxnId 1) (ResourceId 9) (KeyRange_point 4) Shared]) = Some mg
    \<and> release_range mg (TxnId 1) (ResourceId 9) (KeyRange_point 5) = Some (Err NotHeld, mg)
    \<and> release_range mg (TxnId 1) (ResourceId 9) (KeyRange_point 4) = Some (Ok (), mg')"
proof -
  let ?cs = "[Try_Acquire_Range (TxnId 1) (ResourceId 9) (KeyRange_point 4) Shared]"
  let ?q = "\<lambda>mg. (map_option fst (release_range mg (TxnId 1) (ResourceId 9) (KeyRange_point 5)),
    map_option fst (release_range mg (TxnId 1) (ResourceId 9) (KeyRange_point 4)))"
  have "map_option (?q \<circ> snd) (session ?cs) = Some (Some (Err NotHeld), Some (Ok ()))" by code_simp
  then obtain outs mg where mg: "session ?cs = Some (outs, mg)"
      "map_option fst (release_range mg (TxnId 1) (ResourceId 9) (KeyRange_point 5)) = Some (Err NotHeld)"
      "map_option fst (release_range mg (TxnId 1) (ResourceId 9) (KeyRange_point 4)) = Some (Ok ())"
    by auto
  note exact = release_range_exact [OF key_order_sorted session_reachable [OF mg(1)], of "ResourceId 9" "TxnId 1"]
  from exact [of "KeyRange_point 5"] exact [of "KeyRange_point 4"] mg show ?thesis
    by (auto simp: Let_def split: if_splits)
qed

end
