(* ===== verification/Deadlock_Props.thy ===== *)
theory Deadlock_Props
  imports Deadlock_Freedom
begin

text \<open>
  The properties of deadlock-aware acquisition: exact outcomes of \<open>request\<close> and \<open>find_deadlock\<close>,
  genuineness of a reported deadlock, freedom from deadlock under the documented discipline, what
  aborting a victim achieves, and progress.
\<close>

section \<open>Outcomes\<close>

lemma find_deadlock_None_iff:
  assumes "manager_inv mg" and "key_order ord"
  shows "find_deadlock ord mg = Some None \<longleftrightarrow> acyclic (wait_rel mg)"
  using find_deadlock_eq [OF assms] deadlock_cycle_not_acyclic [OF assms(1)] by auto

text \<open>
  C6: \<open>request\<close> grants exactly when nobody else holds the resource in a mode incompatible with the one
  asked for; it then grants the join and forgets the registered wait.  Otherwise no lock changes, the
  wait is registered, the transaction waits for exactly the incompatible holders, and the answer is
  \<open>Deadlock\<close>, with a wait-for cycle the transaction reaches and its largest member as victim, if there
  is such a cycle, and \<open>Waiting\<close> if there is none.
\<close>

theorem request_exact:
  assumes "key_order ord" and "reachable ord mg"
  shows "\<exists>out mg'. let blockers = {u. u \<noteq> txn \<and> (\<exists>m. mode_held mg u res = Some (Some m) \<and> \<not> compatible_with m mode)} in
    request ord mg txn res mode = Some (out, mg') \<and> range_holders mg' = range_holders mg
    \<and> (blockers = {} \<longrightarrow> out = Granted \<and> waits mg' = fmdrop txn (waits mg)
        \<and> (\<forall>t r. mode_held mg' t r =
             (if t = txn \<and> r = res
              then Some (Some (case mode_held mg txn res of Some (Some cur) \<Rightarrow> join cur mode | _ \<Rightarrow> mode))
              else mode_held mg t r)))
    \<and> (blockers \<noteq> {} \<longrightarrow> waits mg' = fmupd txn (res, mode) (waits mg)
        \<and> (\<forall>t r. mode_held mg' t r = mode_held mg t r) \<and> {u. waits_for mg' txn u} = blockers
        \<and> (out = Waiting \<and> (\<forall>x. (txn, x) \<in> (wait_rel mg')\<^sup>* \<longrightarrow> (x, x) \<notin> (wait_rel mg')\<^sup>+)
           \<or> (\<exists>c. out = Deadlock \<lparr>dl_victim = Max (set c), dl_cycle = c\<rparr> \<and> deadlock_cycle mg' c
                \<and> (txn, hd c) \<in> (wait_rel mg')\<^sup>*)))"
proof -
  have inv: "manager_inv mg" using assms by (rule reachable_inv [rotated])
  let ?bs = "{u. u \<noteq> txn \<and> (\<exists>m. mode_held mg u res = Some (Some m) \<and> \<not> compatible_with m mode)}"
  have g: "grantable (holds mg) txn res mode \<longleftrightarrow> ?bs = {}"
    by (auto simp: grantable_iff [OF inv] mode_held_eq [OF inv])
  show ?thesis
  proof (cases "?bs = {}")
    case True
    with g have "grantable (holds mg) txn res mode" by blast
    from request_granted [OF inv this] obtain mg' where mg': "request ord mg txn res mode = Some (Granted, mg')"
        "manager_inv mg'" "waits mg' = fmdrop txn (waits mg)" "range_holders mg' = range_holders mg"
        "holds mg' = set_held (holds mg) txn res (Some (granted_mode (holds mg txn res) mode))"
      by blast
    have "mode_held mg' t r = (if t = txn \<and> r = res
         then Some (Some (case mode_held mg txn res of Some (Some cur) \<Rightarrow> join cur mode | _ \<Rightarrow> mode))
         else mode_held mg t r)" for t r
      by (auto simp: mode_held_eq [OF inv] mode_held_eq [OF mg'(2)] mg'(5) granted_mode_def split: option.splits)
    with mg' True show ?thesis
      unfolding Let_def by (intro exI [of _ Granted] exI [of _ mg']) simp
  next
    case False
    let ?mg' = "register_wait mg txn res mode"
    have inv': "manager_inv ?mg'" using inv by simp
    from False g have "\<not> grantable (holds mg) txn res mode" by blast
    from request_refused [OF inv assms(1) this] obtain out where out:
        "request ord mg txn res mode = Some (out, ?mg')"
        "(out = Waiting \<and> (\<forall>x. (txn, x) \<in> (wait_rel ?mg')\<^sup>* \<longrightarrow> (x, x) \<notin> (wait_rel ?mg')\<^sup>+))
         \<or> (\<exists>c. out = Deadlock \<lparr>dl_victim = Max (set c), dl_cycle = c\<rparr> \<and> deadlock_cycle ?mg' c
              \<and> (txn, hd c) \<in> (wait_rel ?mg')\<^sup>*)"
      by blast
    have held: "mode_held ?mg' t r = mode_held mg t r" for t r
      by (simp add: mode_held_eq [OF inv] mode_held_eq [OF inv'])
    have "{u. waits_for ?mg' txn u} = ?bs"
      by (simp add: waits_for_def mode_held_eq [OF inv])
    then show ?thesis
      unfolding Let_def using out held False
      by (intro exI [of _ out] exI [of _ ?mg'] conjI impI allI) simp_all
  qed
qed

theorem request_exact_witness:
  "\<exists>mg mg'. session [Request (TxnId 1) (ResourceId 7) Exclusive] = Some ([Acq Granted], mg)
    \<and> request sorted_list_of_set mg (TxnId 2) (ResourceId 7) Shared = Some (Waiting, mg')
    \<and> waits mg' = fmupd (TxnId 2) (ResourceId 7, Shared) (waits mg)"
proof -
  let ?cs = "[Request (TxnId 1) (ResourceId 7) Exclusive]"
  let ?q = "\<lambda>mg. map_option fst (request sorted_list_of_set mg (TxnId 2) (ResourceId 7) Shared)"
  have "map_option (map_prod id ?q) (session ?cs) = Some ([Acq Granted], Some Waiting)" by code_simp
  then obtain mg where mg: "session ?cs = Some ([Acq Granted], mg)"
      "map_option fst (request sorted_list_of_set mg (TxnId 2) (ResourceId 7) Shared) = Some Waiting"
    by auto
  from request_exact [OF key_order_sorted session_reachable [OF mg(1)], of "TxnId 2" "ResourceId 7" Shared] mg
  show ?thesis by (auto simp: Let_def)
qed

text \<open>
  C34: The unspecified iteration order of the map of waits has no influence on \<open>request\<close>: for two orders
  the answers are the same, down to the cycle reported and its victim, and so are the new states;
  \<open>find_deadlock\<close> finds a deadlock for one order exactly when it does for the other.
\<close>

theorem iteration_order_irrelevant:
  assumes "key_order ord1" and "key_order ord2" and "reachable ord1 mg"
  shows "request ord1 mg txn res mode = request ord2 mg txn res mode
    \<and> (find_deadlock ord1 mg = Some None \<longleftrightarrow> find_deadlock ord2 mg = Some None)"
proof -
  have inv: "manager_inv mg" using assms(3,1) by (rule reachable_inv)
  then show ?thesis
    using request_order [OF inv assms(1,2)] find_deadlock_None_iff [OF inv] assms(1,2) by blast
qed

theorem iteration_order_irrelevant_witness:
  "\<exists>mg. map_option snd (session
        [Request (TxnId 1) (ResourceId 1) Exclusive, Request (TxnId 2) (ResourceId 2) Exclusive,
         Request (TxnId 1) (ResourceId 2) Exclusive]) = Some mg
    \<and> map_option fst (request (rev \<circ> sorted_list_of_set) mg (TxnId 2) (ResourceId 1) Exclusive) =
        Some (Deadlock \<lparr>dl_victim = TxnId 2, dl_cycle = [TxnId 2, TxnId 1]\<rparr>)"
proof -
  let ?cs = "[Request (TxnId 1) (ResourceId 1) Exclusive, Request (TxnId 2) (ResourceId 2) Exclusive,
    Request (TxnId 1) (ResourceId 2) Exclusive]"
  let ?ask = "\<lambda>mg. map_option fst (request sorted_list_of_set mg (TxnId 2) (ResourceId 1) Exclusive)"
  have "map_option (?ask \<circ> snd) (session ?cs) = Some (Some (Deadlock \<lparr>dl_victim = TxnId 2, dl_cycle = [TxnId 2, TxnId 1]\<rparr>))"
    by code_simp
  then obtain outs mg where mg: "session ?cs = Some (outs, mg)"
      "?ask mg = Some (Deadlock \<lparr>dl_victim = TxnId 2, dl_cycle = [TxnId 2, TxnId 1]\<rparr>)" by auto
  have "key_order (rev \<circ> sorted_list_of_set :: TxnId set \<Rightarrow> TxnId list)" by (simp add: key_order_def)
  from iteration_order_irrelevant [OF key_order_sorted this session_reachable [OF mg(1)], of "TxnId 2" "ResourceId 1" Exclusive] mg
  show ?thesis by auto
qed

text \<open>
  C33: \<open>find_deadlock\<close> is exact: it returns nothing exactly when no set of transactions waits in a
  circle, and otherwise a wait-for cycle (distinct transactions, each blocked by the next) with its
  largest identifier as the victim.
\<close>

theorem find_deadlock_exact:
  assumes "key_order ord" and "reachable ord mg"
  shows "(find_deadlock ord mg = Some None \<longleftrightarrow> (\<forall>c. \<not> deadlock_cycle mg c))
    \<and> (\<forall>d. find_deadlock ord mg = Some (Some d) \<longrightarrow>
         deadlock_cycle mg (dl_cycle d) \<and> dl_victim d = Max (set (dl_cycle d)))"
proof -
  have inv: "manager_inv mg" using assms by (rule reachable_inv [rotated])
  show ?thesis
    using find_deadlock_eq [OF inv assms(1)] deadlock_cycle_not_acyclic [OF inv] by auto
qed

theorem find_deadlock_exact_witness:
  "\<exists>mg. map_option snd (session
        [Request (TxnId 1) (ResourceId 1) Exclusive, Request (TxnId 2) (ResourceId 2) Exclusive,
         Request (TxnId 1) (ResourceId 2) Exclusive, Request (TxnId 2) (ResourceId 1) Exclusive]) = Some mg
    \<and> deadlock_cycle mg [TxnId 1, TxnId 2]"
proof -
  let ?cs = "[Request (TxnId 1) (ResourceId 1) Exclusive, Request (TxnId 2) (ResourceId 2) Exclusive,
    Request (TxnId 1) (ResourceId 2) Exclusive, Request (TxnId 2) (ResourceId 1) Exclusive]"
  have "map_option (find_deadlock sorted_list_of_set \<circ> snd) (session ?cs) =
      Some (Some (Some \<lparr>dl_victim = TxnId 2, dl_cycle = [TxnId 1, TxnId 2]\<rparr>))" by code_simp
  then obtain outs mg where mg: "session ?cs = Some (outs, mg)"
      "find_deadlock sorted_list_of_set mg = Some (Some \<lparr>dl_victim = TxnId 2, dl_cycle = [TxnId 1, TxnId 2]\<rparr>)"
    by auto
  with find_deadlock_exact [OF key_order_sorted session_reachable [OF mg(1)]] show ?thesis by fastforce
qed

section \<open>Soundness of a report\<close>

text \<open>
  On a manager without a deadlock, \<open>Waiting\<close> means that there still is none, and \<open>Deadlock\<close> means
  that the requesting transaction itself closed the reported cycle: it is a member, and so is the
  victim.
\<close>

theorem request_closes_cycle:
  assumes "key_order ord" and "reachable ord mg" and "find_deadlock ord mg = Some None"
    and "request ord mg txn res mode = Some (out, mg')"
  shows "(out = Waiting \<or> out = Granted \<longrightarrow> find_deadlock ord mg' = Some None)
    \<and> (\<forall>d. out = Deadlock d \<longrightarrow> deadlock_cycle mg' (dl_cycle d)
         \<and> txn \<in> set (dl_cycle d) \<and> dl_victim d \<in> set (dl_cycle d))"
proof -
  have inv: "manager_inv mg" using assms(2,1) by (rule reachable_inv)
  have acy: "acyclic (wait_rel mg)" using assms(3) find_deadlock_None_iff [OF inv assms(1)] by blast
  have aft: "after ord mg (Request txn res mode) = mg'" using assms(4) by (simp add: after_def)
  have inv': "manager_inv mg'" using after_inv [OF inv assms(1)] aft by metis
  have "find_deadlock ord mg' = Some None" if "out = Waiting \<or> out = Granted"
  proof -
    have "disciplined ord mg (Request txn res mode)" using that assms(4) by auto
    then have "acyclic (wait_rel mg')" using acyclic_after [OF inv assms(1) acy] aft by metis
    then show ?thesis using find_deadlock_None_iff [OF inv' assms(1)] by blast
  qed
  moreover have "deadlock_cycle mg' (dl_cycle d) \<and> txn \<in> set (dl_cycle d) \<and> dl_victim d \<in> set (dl_cycle d)"
    if d: "out = Deadlock d" for d
  proof -
    have g: "\<not> grantable (holds mg) txn res mode"
      using request_granted [OF inv, of txn res mode ord] assms(4) d by auto
    from request_refused [OF inv assms(1) g] assms(4) d obtain c where
        c: "d = \<lparr>dl_victim = Max (set c), dl_cycle = c\<rparr>" "deadlock_cycle mg' c" "mg' = register_wait mg txn res mode"
      by auto
    have "txn \<in> set c"
      using cycle_through_waiter [OF inv inv' acy, of txn c] c(2,3) register_wait_others by blast
    moreover have "Max (set c) \<in> set c" using c(2) by (simp add: deadlock_cycle_def)
    ultimately show ?thesis using c by simp
  qed
  ultimately show ?thesis by blast
qed

theorem request_closes_cycle_witness:
  "\<exists>mg mg'. map_option snd (session
        [Request (TxnId 5) (ResourceId 1) Exclusive, Request (TxnId 2) (ResourceId 2) Exclusive,
         Request (TxnId 5) (ResourceId 2) Exclusive]) = Some mg
    \<and> request sorted_list_of_set mg (TxnId 2) (ResourceId 1) Exclusive =
        Some (Deadlock \<lparr>dl_victim = TxnId 5, dl_cycle = [TxnId 2, TxnId 5]\<rparr>, mg')
    \<and> deadlock_cycle mg' [TxnId 2, TxnId 5]"
proof -
  let ?cs = "[Request (TxnId 5) (ResourceId 1) Exclusive, Request (TxnId 2) (ResourceId 2) Exclusive,
    Request (TxnId 5) (ResourceId 2) Exclusive]"
  let ?q = "\<lambda>mg. (find_deadlock sorted_list_of_set mg,
    map_option fst (request sorted_list_of_set mg (TxnId 2) (ResourceId 1) Exclusive))"
  have "map_option (?q \<circ> snd) (session ?cs) =
      Some (Some None, Some (Deadlock \<lparr>dl_victim = TxnId 5, dl_cycle = [TxnId 2, TxnId 5]\<rparr>))" by code_simp
  then obtain outs mg mg' where mg: "session ?cs = Some (outs, mg)" "find_deadlock sorted_list_of_set mg = Some None"
      "request sorted_list_of_set mg (TxnId 2) (ResourceId 1) Exclusive =
         Some (Deadlock \<lparr>dl_victim = TxnId 5, dl_cycle = [TxnId 2, TxnId 5]\<rparr>, mg')"
    by auto
  with request_closes_cycle [OF key_order_sorted session_reachable [OF mg(1)] mg(2,3)] show ?thesis by auto
qed

text \<open>
  C17: A reported deadlock is genuine: whatever calls the transactions outside the cycle make
  afterwards, every member still waits, its request is still not granted when it retries, and the cycle
  is still there.  Only a member can break it.
\<close>

theorem deadlock_is_genuine:
  assumes "key_order ord" and "reachable ord mg"
    and "request ord mg txn res mode = Some (Deadlock d, mg1)"
    and "\<forall>c \<in> set cs. caller c \<notin> set (dl_cycle d)"
  shows "\<exists>outs mg2. run_program (call ord) mg1 cs = Some (outs, mg2) \<and> deadlock_cycle mg2 (dl_cycle d)
    \<and> (\<forall>w \<in> set (dl_cycle d). \<exists>r m. fmlookup (waits mg2) w = Some (r, m)
         \<and> map_option fst (request ord mg2 w r m) \<noteq> Some Granted)"
proof -
  have inv: "manager_inv mg" using assms(2,1) by (rule reachable_inv)
  have g: "\<not> grantable (holds mg) txn res mode"
    using request_granted [OF inv, of txn res mode ord] assms(3) by auto
  from request_refused [OF inv assms(1) g] assms(3)
  have c: "deadlock_cycle mg1 (dl_cycle d)" and inv1: "manager_inv mg1" using inv by auto
  let ?mg2 = "foldl (after ord) mg1 cs"
  obtain outs where run: "run_program (call ord) mg1 cs = Some (outs, ?mg2)"
    using run_program_after [OF inv1 assms(1)] by blast
  have inv2: "manager_inv ?mg2" by (rule run_inv_after [OF inv1 assms(1)])
  have c2: "deadlock_cycle ?mg2 (dl_cycle d)"
    using deadlock_cycle_persists [OF inv1 assms(1) c assms(4)] .
  have "\<exists>r m. fmlookup (waits ?mg2) w = Some (r, m) \<and> map_option fst (request ord ?mg2 w r m) \<noteq> Some Granted"
    if "w \<in> set (dl_cycle d)" for w
  proof -
    from that obtain i where "i < length (dl_cycle d)" "dl_cycle d ! i = w" by (auto simp: in_set_conv_nth)
    with c2 obtain u where u: "waits_for ?mg2 w u" by (auto simp: deadlock_cycle_def)
    then obtain r m where rm: "fmlookup (waits ?mg2) w = Some (r, m)" by (auto simp: waits_for_def)
    then have "\<not> grantable (holds ?mg2) w r m" using waits_for_not_grantable [OF inv2 rm u] by blast
    from request_refused [OF inv2 assms(1) this] rm show ?thesis by auto
  qed
  with run c2 show ?thesis by blast
qed

theorem deadlock_is_genuine_witness:
  "\<exists>mg mg1 outs mg2. map_option snd (session
        [Request (TxnId 5) (ResourceId 1) Exclusive, Request (TxnId 2) (ResourceId 2) Exclusive,
         Request (TxnId 5) (ResourceId 2) Exclusive]) = Some mg
    \<and> request sorted_list_of_set mg (TxnId 2) (ResourceId 1) Exclusive =
        Some (Deadlock \<lparr>dl_victim = TxnId 5, dl_cycle = [TxnId 2, TxnId 5]\<rparr>, mg1)
    \<and> run_program (call sorted_list_of_set) mg1 [Request (TxnId 3) (ResourceId 1) Shared, Release_All (TxnId 3)] =
        Some (outs, mg2)
    \<and> deadlock_cycle mg2 [TxnId 2, TxnId 5]"
proof -
  let ?cs = "[Request (TxnId 5) (ResourceId 1) Exclusive, Request (TxnId 2) (ResourceId 2) Exclusive,
    Request (TxnId 5) (ResourceId 2) Exclusive]"
  let ?q = "\<lambda>mg. map_option fst (request sorted_list_of_set mg (TxnId 2) (ResourceId 1) Exclusive)"
  have "map_option (?q \<circ> snd) (session ?cs) =
      Some (Some (Deadlock \<lparr>dl_victim = TxnId 5, dl_cycle = [TxnId 2, TxnId 5]\<rparr>))" by code_simp
  then obtain outs mg mg1 where mg: "session ?cs = Some (outs, mg)"
      "request sorted_list_of_set mg (TxnId 2) (ResourceId 1) Exclusive =
         Some (Deadlock \<lparr>dl_victim = TxnId 5, dl_cycle = [TxnId 2, TxnId 5]\<rparr>, mg1)"
    by auto
  from deadlock_is_genuine [OF key_order_sorted session_reachable [OF mg(1)] mg(2),
      of "[Request (TxnId 3) (ResourceId 1) Shared, Release_All (TxnId 3)]"] mg
  show ?thesis by auto
qed

text \<open>
  C38: \<open>Deadlock\<close> does not always mean that the request closed a cycle.  When a deadlock exists already
  and a transaction that holds nothing asks for a resource behind it (some incompatible holder is a
  member or waits, directly or not, for one), the request is answered with a cycle that existed before,
  of which the requester is not a member and the victim is another transaction.
\<close>

theorem request_reports_old_cycle:
  assumes "key_order ord" and "reachable ord mg" and "\<And>r. mode_held mg txn r = Some None"
    and "mode_held mg u res = Some (Some m)" and "\<not> compatible_with m mode"
    and "(u, x) \<in> (wait_rel mg)\<^sup>*" and "deadlock_cycle mg c" and "x \<in> set c"
  shows "\<exists>d mg'. request ord mg txn res mode = Some (Deadlock d, mg')
    \<and> deadlock_cycle mg (dl_cycle d) \<and> txn \<notin> set (dl_cycle d) \<and> dl_victim d \<noteq> txn"
proof -
  have inv: "manager_inv mg" using assms(2,1) by (rule reachable_inv)
  let ?mg' = "register_wait mg txn res mode"
  have none: "holds mg txn r = None" for r using assms(3) [of r] by (simp add: mode_held_eq [OF inv])
  have held: "holds mg u res = Some m" using assms(4) by (simp add: mode_held_eq [OF inv])
  then have u: "u \<noteq> txn" using none by auto
  have g: "\<not> grantable (holds mg) txn res mode" using held u assms(5) by (auto simp: grantable_iff [OF inv])
  have no_in: "(w, txn) \<notin> wait_rel mg" "(w, txn) \<notin> wait_rel ?mg'" for w
    using none by (auto simp: wait_rel_def waits_for_def)
  have same: "(w, v) \<in> wait_rel ?mg' \<longleftrightarrow> (w, v) \<in> wait_rel mg" if "w \<noteq> txn" for w v
    using register_wait_others [OF that] by (simp add: wait_rel_def)
  have path: "(w, v) \<in> (wait_rel mg)\<^sup>* \<Longrightarrow> w \<noteq> txn \<Longrightarrow> (w, v) \<in> (wait_rel ?mg')\<^sup>* \<and> v \<noteq> txn" for w v
  proof (induction rule: rtrancl_induct)
    case (step y z)
    then have "(y, z) \<in> wait_rel ?mg'" "z \<noteq> txn" using same no_in by auto
    with step show ?case by (auto intro: rtrancl_into_rtrancl)
  qed simp
  have other: "txn \<notin> set c'" if "deadlock_cycle ?mg' c'" for c'
  proof
    assume "txn \<in> set c'"
    with that inv have "(txn, txn) \<in> (wait_rel ?mg')\<^sup>+" by (intro deadlock_cycle_trancl) simp_all
    then show False using no_in(2) by (auto dest: tranclD2)
  qed
  have old: "deadlock_cycle mg c'" if c': "deadlock_cycle ?mg' c'" for c'
  proof -
    have "waits_for ?mg' (c' ! i) v = waits_for mg (c' ! i) v" if "i < length c'" for i v
      using register_wait_others [of "c' ! i" txn] other [OF c'] nth_mem [OF that] by metis
    with c' show ?thesis by (simp add: deadlock_cycle_def)
  qed
  have "(txn, u) \<in> wait_rel ?mg'" using held u assms(5) by (auto simp: wait_rel_def waits_for_def)
  then have reach: "(txn, x) \<in> (wait_rel ?mg')\<^sup>*" and x: "x \<noteq> txn"
    using path [OF assms(6) u] by (auto intro: converse_rtrancl_into_rtrancl)
  have "(x, y) \<in> (wait_rel mg)\<^sup>+ \<Longrightarrow> (x, y) \<in> (wait_rel ?mg')\<^sup>+ \<and> y \<noteq> txn" for y
  proof (induction rule: trancl_induct)
    case (base y)
    then show ?case using same [OF x] no_in(1) by auto
  next
    case (step y z)
    then have "(y, z) \<in> wait_rel ?mg'" "z \<noteq> txn" using same no_in(1) by auto
    with step show ?case by (auto intro: trancl_into_trancl)
  qed
  then have "(x, x) \<in> (wait_rel ?mg')\<^sup>+" using deadlock_cycle_trancl [OF inv assms(7,8)] by blast
  with reach request_refused [OF inv assms(1) g] obtain c' where
    c': "request ord mg txn res mode = Some (Deadlock \<lparr>dl_victim = Max (set c'), dl_cycle = c'\<rparr>, ?mg')" "deadlock_cycle ?mg' c'"
    by blast
  have "Max (set c') \<in> set c'" using c'(2) by (simp add: deadlock_cycle_def)
  with other [OF c'(2)] have "Max (set c') \<noteq> txn" by blast
  with c' other [OF c'(2)] old [OF c'(2)] show ?thesis by auto
qed

theorem request_reports_old_cycle_witness:
  "\<exists>mg d mg'. reachable sorted_list_of_set mg \<and> deadlock_cycle mg [TxnId 1, TxnId 2]
    \<and> request sorted_list_of_set mg (TxnId 3) (ResourceId 1) Shared = Some (Deadlock d, mg') \<and> TxnId 3 \<notin> set (dl_cycle d)"
proof -
  let ?cs = "[Request (TxnId 1) (ResourceId 1) Exclusive, Request (TxnId 2) (ResourceId 2) Exclusive,
    Request (TxnId 1) (ResourceId 2) Exclusive, Request (TxnId 2) (ResourceId 1) Exclusive]"
  let ?q = "\<lambda>mg. (find_deadlock sorted_list_of_set mg, mode_held mg (TxnId 1) (ResourceId 1))"
  have "map_option (?q \<circ> snd) (session ?cs) =
      Some (Some (Some \<lparr>dl_victim = TxnId 2, dl_cycle = [TxnId 1, TxnId 2]\<rparr>), Some (Some Exclusive))" by code_simp
  then obtain outs mg0 where mg0: "session ?cs = Some (outs, mg0)"
      "find_deadlock sorted_list_of_set mg0 = Some (Some \<lparr>dl_victim = TxnId 2, dl_cycle = [TxnId 1, TxnId 2]\<rparr>)"
      "mode_held mg0 (TxnId 1) (ResourceId 1) = Some (Some Exclusive)"
    by auto
  note reach0 = session_reachable [OF mg0(1)]
  have inv0: "manager_inv mg0" using reach0 key_order_sorted by (rule reachable_inv)
  obtain n mg where mg: "release_all mg0 (TxnId 3) = (n, mg)" "manager_inv mg"
      "holds mg = (holds mg0)(TxnId 3 := (\<lambda>r. None))"
    using release_all_effect [OF inv0, of "TxnId 3"] by auto
  have reach: "reachable sorted_list_of_set mg"
    using reachable.step [OF reach0, of "Release_All (TxnId 3)"] mg(1) by (simp add: after_def)
  have cyc: "deadlock_cycle mg [TxnId 1, TxnId 2]"
    using abort_cycles [OF inv0 mg(1)] find_deadlock_exact [OF key_order_sorted reach0] mg0(2) by auto
  have "mode_held mg (TxnId 3) r = Some None" "mode_held mg (TxnId 1) (ResourceId 1) = Some (Some Exclusive)" for r
    using mg0(3) by (simp_all add: mode_held_eq [OF mg(2)] mode_held_eq [OF inv0] mg(3))
  moreover have "\<not> compatible_with Exclusive Shared" by (simp add: mode_simps)
  ultimately show ?thesis
    using request_reports_old_cycle [OF key_order_sorted reach _ _ _ rtrancl_refl cyc, of "TxnId 3" "TxnId 1" "ResourceId 1" Exclusive Shared]
      reach cyc by auto
qed

section \<open>Runs without deadlock\<close>

text \<open>
  C18: Under the documented discipline (a registered transaction retries, cancels or aborts but does not
  take locks by \<open>try_acquire\<close>, and no request answers \<open>Deadlock\<close>) a deadlock never exists, after any
  number of calls of any transactions: detection on request misses none.
\<close>

theorem disciplined_runs_deadlock_free:
  assumes "key_order ord" and "with_shards oc alloc n = Some mg" and "shard_count mg \<noteq> 0"
    and "guarded_run (after ord) (disciplined ord) mg cs"
  shows "find_deadlock ord (foldl (after ord) mg cs) = Some None
    \<and> (\<forall>c. \<not> deadlock_cycle (foldl (after ord) mg cs) c)"
proof -
  have "live_inv (foldl (after ord) mg cs)"
    using live_start [OF assms(2,3)] assms(1,4) by (intro live.run_inv guarded_run_and)
  then show ?thesis
    using find_deadlock_None_iff [OF _ assms(1)] deadlock_cycle_not_acyclic by (auto simp: live_inv_def)
qed

theorem disciplined_runs_deadlock_free_witness:
  "\<exists>mg. with_shards True (\<lambda>_. True) 3 = Some mg
    \<and> find_deadlock sorted_list_of_set (foldl (after sorted_list_of_set) mg
        [Request (TxnId 1) (ResourceId 1) Exclusive, Request (TxnId 2) (ResourceId 1) Shared,
         Release_All (TxnId 1), Request (TxnId 2) (ResourceId 1) Shared]) = Some None"
proof -
  let ?cs = "[Request (TxnId 1) (ResourceId 1) Exclusive, Request (TxnId 2) (ResourceId 1) Shared,
    Release_All (TxnId 1), Request (TxnId 2) (ResourceId 1) Shared]"
  have "map_option (\<lambda>mg. guarded_run (after sorted_list_of_set) (disciplined sorted_list_of_set) mg ?cs)
      (with_shards True (\<lambda>_. True) 3) = Some True" by code_simp
  moreover obtain mg where mg: "with_shards True (\<lambda>_. True) 3 = Some mg" "shard_count mg = 4"
    using four_shards by blast
  ultimately have "guarded_run (after sorted_list_of_set) (disciplined sorted_list_of_set) mg ?cs"
    by (simp only: option.map option.inject)
  from disciplined_runs_deadlock_free [OF key_order_sorted mg(1) _ this] mg(2)
  have "find_deadlock sorted_list_of_set (foldl (after sorted_list_of_set) mg ?cs) = Some None"
    by (simp only: simp_thms)
  with mg(1) show ?thesis by blast
qed

text \<open>
  C22: Aborting the victim breaks the reported deadlock.  Let there be no deadlock before the request
  that answers \<open>Deadlock\<close> (the client ignored none): after \<open>release_all\<close> of the victim every remaining
  cycle goes through the requesting transaction and not through the victim.  When the victim
  is the requester itself no deadlock is left; otherwise its retry answers \<open>Deadlock\<close> again exactly as
  long as one is left.
\<close>

theorem abort_breaks_deadlock:
  assumes "key_order ord" and "reachable ord mg" and "find_deadlock ord mg = Some None"
    and "request ord mg txn res mode = Some (Deadlock d, mg1)" and "release_all mg1 (dl_victim d) = (n, mg2)"
  shows "\<not> deadlock_cycle mg2 (dl_cycle d)
    \<and> (\<forall>c. deadlock_cycle mg2 c \<longrightarrow> txn \<in> set c \<and> dl_victim d \<notin> set c)
    \<and> (dl_victim d = txn \<longrightarrow> find_deadlock ord mg2 = Some None)
    \<and> (\<forall>out mg3. request ord mg2 txn res mode = Some (out, mg3) \<and> (out = Waiting \<or> out = Granted) \<longrightarrow>
         find_deadlock ord mg3 = Some None)"
proof -
  have inv: "manager_inv mg" using assms(2,1) by (rule reachable_inv)
  have acy: "acyclic (wait_rel mg)" using assms(3) find_deadlock_None_iff [OF inv assms(1)] by blast
  have g: "\<not> grantable (holds mg) txn res mode"
    using request_granted [OF inv, of txn res mode ord] assms(4) by auto
  from request_refused [OF inv assms(1) g] assms(4) have mg1: "mg1 = register_wait mg txn res mode"
      and d: "deadlock_cycle mg1 (dl_cycle d)" "dl_victim d = Max (set (dl_cycle d))"
    by auto
  have inv1: "manager_inv mg1" using inv mg1 by simp
  have inv2: "manager_inv mg2" using release_all_effect [OF inv1, of "dl_victim d"] assms(5) by auto
  note cycles = abort_cycles [OF inv1 assms(5)]
  have through: "txn \<in> set c" if "deadlock_cycle mg1 c" for c
    using cycle_through_waiter [OF inv inv1 acy, of txn c] that register_wait_others mg1 by blast
  have left: "deadlock_cycle mg2 c \<Longrightarrow> txn \<in> set c \<and> dl_victim d \<notin> set c" for c
    using cycles through by blast
  have "dl_victim d \<in> set (dl_cycle d)" using d by (simp add: deadlock_cycle_def)
  then have broken: "\<not> deadlock_cycle mg2 (dl_cycle d)" using left by blast
  have own: "find_deadlock ord mg2 = Some None" if "dl_victim d = txn"
    using that left cyclic_has_cycle [OF inv2] find_deadlock_None_iff [OF inv2 assms(1)] by blast
  have retry: "find_deadlock ord mg3 = Some None"
    if req: "request ord mg2 txn res mode = Some (out, mg3)" and out: "out = Waiting \<or> out = Granted" for out mg3
  proof -
    have "manager_inv mg3" "\<And>c. \<not> deadlock_cycle mg3 c"
      using request_clears [OF inv2 assms(1) _ req out] left by blast+
    then show ?thesis using cyclic_has_cycle [of mg3] find_deadlock_None_iff [of mg3 ord] assms(1) by blast
  qed
  from broken left own retry show ?thesis by blast
qed

theorem abort_breaks_deadlock_witness:
  "\<exists>mg mg1 n mg2. map_option snd (session
        [Request (TxnId 5) (ResourceId 1) Exclusive, Request (TxnId 2) (ResourceId 2) Exclusive,
         Request (TxnId 5) (ResourceId 2) Exclusive]) = Some mg
    \<and> request sorted_list_of_set mg (TxnId 2) (ResourceId 1) Exclusive =
        Some (Deadlock \<lparr>dl_victim = TxnId 5, dl_cycle = [TxnId 2, TxnId 5]\<rparr>, mg1)
    \<and> release_all mg1 (TxnId 5) = (n, mg2) \<and> \<not> deadlock_cycle mg2 [TxnId 2, TxnId 5]"
proof -
  let ?cs = "[Request (TxnId 5) (ResourceId 1) Exclusive, Request (TxnId 2) (ResourceId 2) Exclusive,
    Request (TxnId 5) (ResourceId 2) Exclusive]"
  let ?q = "\<lambda>mg. (find_deadlock sorted_list_of_set mg,
    map_option fst (request sorted_list_of_set mg (TxnId 2) (ResourceId 1) Exclusive))"
  have "map_option (?q \<circ> snd) (session ?cs) =
      Some (Some None, Some (Deadlock \<lparr>dl_victim = TxnId 5, dl_cycle = [TxnId 2, TxnId 5]\<rparr>))" by code_simp
  then obtain outs mg mg1 where mg: "session ?cs = Some (outs, mg)" "find_deadlock sorted_list_of_set mg = Some None"
      "request sorted_list_of_set mg (TxnId 2) (ResourceId 1) Exclusive =
         Some (Deadlock \<lparr>dl_victim = TxnId 5, dl_cycle = [TxnId 2, TxnId 5]\<rparr>, mg1)"
    by auto
  obtain n mg2 where rel: "release_all mg1 (TxnId 5) = (n, mg2)" by fastforce
  with abort_breaks_deadlock [OF key_order_sorted session_reachable [OF mg(1)] mg(2,3), of n mg2] mg
  show ?thesis by auto
qed

section \<open>Progress\<close>

text \<open>
  C23: Without a deadlock somebody can be served: if any transaction waits, there is one whose blockers
  are all running (none of them waits), and once those have finished with \<open>release_all\<close>, its
  registered request is granted when it retries.
\<close>

theorem some_waiter_is_served:
  assumes "key_order ord" and "reachable ord mg" and "find_deadlock ord mg = Some None"
    and "waiting_count mg \<noteq> 0"
  shows "\<exists>w r m bs outs mg1 mg2. fmlookup (waits mg) w = Some (r, m)
    \<and> set bs = {u. waits_for mg w u} \<and> (\<forall>u \<in> set bs. fmlookup (waits mg) u = None)
    \<and> run_program (call ord) mg (map Release_All bs) = Some (outs, mg1)
    \<and> request ord mg1 w r m = Some (Granted, mg2)"
proof -
  have inv: "manager_inv mg" using assms(2,1) by (rule reachable_inv)
  have acy: "acyclic (wait_rel mg)" using assms(3) find_deadlock_None_iff [OF inv assms(1)] by blast
  obtain x where "x \<in> fmdom' (waits mg)"
    using assms(4) by (fastforce simp: waiting_count_def hash_map_len_def card_eq_0_iff)
  from acyclic_front_waiter [OF acy this] obtain w
    where w: "w \<in> fmdom' (waits mg)" "\<And>u. waits_for mg w u \<Longrightarrow> u \<notin> fmdom' (waits mg)" by blast
  then obtain r m where rm: "fmlookup (waits mg) w = Some (r, m)" by (auto simp: fmlookup_dom'_iff)
  obtain bs where bs: "set bs = {u. u \<noteq> w \<and> (\<exists>a. holds mg u r = Some a \<and> \<not> compatible_with a m)}"
    using holders_blocking_eq [OF inv] by blast
  then have wf: "set bs = {u. waits_for mg w u}" using rm by (auto simp: waits_for_def)
  let ?mg1 = "foldl (after ord) mg (map Release_All bs)"
  obtain outs where run: "run_program (call ord) mg (map Release_All bs) = Some (outs, ?mg1)"
    using run_program_after [OF inv assms(1)] by blast
  have inv1: "manager_inv ?mg1" and held: "holds ?mg1 u = (if u \<in> set bs then (\<lambda>r. None) else holds mg u)" for u
    using finish_all_effect [OF inv assms(1)] by auto
  have "w \<notin> set bs" using bs by simp
  have "grantable (holds ?mg1) w r m"
    unfolding grantable_iff [OF inv1] held using bs by auto
  from request_granted [OF inv1 this, of ord] obtain mg2 where "request ord ?mg1 w r m = Some (Granted, mg2)" by blast
  moreover have "\<forall>u \<in> set bs. fmlookup (waits mg) u = None"
    using w(2) wf by (simp add: fmdom'_notI fmdom'_notD)
  ultimately show ?thesis using rm wf run by blast
qed

theorem some_waiter_is_served_witness:
  "\<exists>mg. map_option snd (session
        [Request (TxnId 1) (ResourceId 1) Exclusive, Request (TxnId 2) (ResourceId 1) Shared]) = Some mg
    \<and> (\<exists>w r m bs outs mg1 mg2. fmlookup (waits mg) w = Some (r, m) \<and> set bs = {u. waits_for mg w u}
        \<and> run_program (call sorted_list_of_set) mg (map Release_All bs) = Some (outs, mg1)
        \<and> request sorted_list_of_set mg1 w r m = Some (Granted, mg2))"
proof -
  let ?cs = "[Request (TxnId 1) (ResourceId 1) Exclusive, Request (TxnId 2) (ResourceId 1) Shared]"
  have "map_option ((\<lambda>mg. (find_deadlock sorted_list_of_set mg, waiting_count mg)) \<circ> snd) (session ?cs) =
      Some (Some None, 1)" by code_simp
  then obtain outs mg where mg: "session ?cs = Some (outs, mg)" "find_deadlock sorted_list_of_set mg = Some None"
      "waiting_count mg \<noteq> 0"
    by auto
  from some_waiter_is_served [OF key_order_sorted session_reachable [OF mg(1)] mg(2,3)] mg(1)
  show ?thesis by (intro exI [of _ mg] conjI) (simp, blast)
qed

end
