(* ===== verification/Hierarchy.thy ===== *)
theory Hierarchy
  imports Deadlock_Freedom
begin

text \<open>
  Multi-granularity locking (\<open>src/src/lib.rs\<close>, section on hierarchical locking, and
  \<open>src/examples/hierarchy.rs\<close>).  The manager knows no hierarchy: the caller maps nodes to resources,
  so the parent function is a parameter.  A client that takes an intention lock on the parent before
  it locks a node, and releases a node only after its children, gets what the protocol promises: no
  transaction writes a node, directly or through a lock on a coarser one, while another reads or
  writes it.
\<close>

section \<open>The protocol\<close>

type_synonym hierarchy = "ResourceId \<Rightarrow> ResourceId option"

text \<open>The intention that must be held above a node: IS above a read lock, IX above a write.\<close>

definition intent :: "LockMode \<Rightarrow> LockMode" where
  "intent m = (case m of IntentionShared \<Rightarrow> IntentionShared | Shared \<Rightarrow> IntentionShared
     | _ \<Rightarrow> IntentionExclusive)"

definition holds_above :: "LockManager \<Rightarrow> TxnId \<Rightarrow> ResourceId option \<Rightarrow> LockMode \<Rightarrow> bool" where
  "holds_above mg t p m =
     (case p of None \<Rightarrow> True
      | Some a \<Rightarrow> (case holds mg t a of None \<Rightarrow> False | Some h \<Rightarrow> covers h (intent m)))"

definition path_ok :: "hierarchy \<Rightarrow> LockManager \<Rightarrow> bool" where
  "path_ok parent mg \<longleftrightarrow> (\<forall>t n m. holds mg t n = Some m \<longrightarrow> holds_above mg t (parent n) m)"

text \<open>The nodes a transaction holds, as the reverse indexes of the shards list them.\<close>

definition held_nodes :: "LockManager \<Rightarrow> TxnId \<Rightarrow> ResourceId list" where
  "held_nodes mg t = concat (map (\<lambda>s. vec_at (by_txn (inner s)) t) (shards mg))"

lemma set_held_nodes:
  assumes inv: "manager_inv mg"
  shows "set (held_nodes mg t) = {n. holds mg t n \<noteq> None}"
proof -
  have "set (shards mg) = (\<lambda>i. shards mg ! i) ` {..<length (shards mg)}"
    by (auto simp: in_set_conv_nth)
  then have "set (held_nodes mg t) = (\<Union>i<length (shards mg). set (vec_at (by_txn (shard_at mg i)) t))"
    by (simp add: held_nodes_def shard_at_def)
  also have "\<dots> = (\<Union>i<length (shards mg). {n. point_mode (shard_at mg i) t n \<noteq> None})"
    using point_vec(2) [OF shard_okD(1) [OF manager_inv_ok [OF inv]]] by simp
  also have "\<dots> = {n. holds mg t n \<noteq> None}"
    using point_mode_shard [OF inv] route_less [OF manager_inv_shape [OF inv]]
    by (auto split: if_splits)
  finally show ?thesis .
qed

text \<open>
  What a client checks before a call: the intention on the parent before an acquisition, and no lock
  on a child before a release.
\<close>

primrec follows_protocol :: "hierarchy \<Rightarrow> LockManager \<Rightarrow> Call \<Rightarrow> bool" where
  "follows_protocol parent mg (Try_Acquire t r m) = holds_above mg t (parent r) m"
| "follows_protocol parent mg (Request t r m) = holds_above mg t (parent r) m"
| "follows_protocol parent mg (Release_One t r) = list_all (\<lambda>n. parent n \<noteq> Some r) (held_nodes mg t)"
| "follows_protocol parent mg (Release_All t) = True"
| "follows_protocol parent mg (Cancel_Wait t) = True"
| "follows_protocol parent mg (Try_Acquire_Range t s rg m) = True"
| "follows_protocol parent mg (Release_Range t s rg) = True"

section \<open>The protocol is kept\<close>

lemma intent_join: "intent (join a b) = join (intent a) (intent b)"
  by (cases a; cases b; simp add: intent_def mode_simps)

lemma holds_above_mono:
  assumes "holds_above mg t p m" and "\<And>r h. holds mg t r = Some h \<Longrightarrow> \<exists>h'. holds mg' t r = Some h' \<and> covers h' h"
  shows "holds_above mg' t p m"
proof (cases p)
  case (Some a)
  with assms(1) obtain h where h: "holds mg t a = Some h" "covers h (intent m)"
    by (auto simp: holds_above_def split: option.splits)
  from assms(2) [OF h(1)] obtain h' where "holds mg' t a = Some h'" "covers h' h" by blast
  with h(2) Some show ?thesis
    using modes.above_trans by (auto simp: holds_above_def)
qed (simp add: holds_above_def)

lemma holds_above_join:
  "holds_above mg t p a \<Longrightarrow> holds_above mg t p b \<Longrightarrow> holds_above mg t p (join a b)"
  by (auto simp: holds_above_def intent_join modes.above_lub_iff split: option.splits)

lemma path_ok_grant:
  assumes ok: "path_ok parent mg" and above: "holds_above mg t (parent r) m"
    and eff: "holds mg' = set_held (holds mg) t r (Some (granted_mode (holds mg t r) m))"
  shows "path_ok parent mg'"
  unfolding path_ok_def
proof (intro allI impI)
  fix u n k assume k: "holds mg' u n = Some k"
  have grow: "\<exists>h'. holds mg' v s = Some h' \<and> covers h' h" if "holds mg v s = Some h" for v s h
    using that modes.above_lub modes.above_refl by (auto simp: eff granted_mode_def)
  have "holds_above mg u (parent n) k"
  proof (cases "u = t \<and> n = r")
    case True
    then have "k = granted_mode (holds mg t r) m" using k by (simp add: eff)
    with True ok above show ?thesis
      by (cases "holds mg t r") (auto simp: granted_mode_def path_ok_def intro: holds_above_join)
  next
    case False
    with k ok show ?thesis by (auto simp: eff path_ok_def)
  qed
  then show "holds_above mg' u (parent n) k" using grow by (rule holds_above_mono)
qed

lemma path_ok_same:
  assumes "path_ok parent mg" and "holds mg' = holds mg"
  shows "path_ok parent mg'"
  using assms(1) unfolding path_ok_def holds_above_def assms(2) .

lemma path_ok_after:
  assumes inv: "manager_inv mg" and ord: "key_order ord" and ok: "path_ok parent mg"
    and follows: "follows_protocol parent mg c"
  shows "path_ok parent (after ord mg c)"
proof (cases c)
  case (Try_Acquire t r m)
  obtain mg' where mg': "try_acquire mg t r m =
        Some (if grantable (holds mg) t r m then Ok () else Err Conflict, mg')"
      "grantable (holds mg) t r m \<longrightarrow> holds mg' = set_held (holds mg) t r (Some (granted_mode (holds mg t r) m))"
      "\<not> grantable (holds mg) t r m \<longrightarrow> mg' = mg"
    using try_acquire_effect [OF inv] by blast
  then have "after ord mg c = mg'" using Try_Acquire by (simp add: after_def)
  with mg'(2,3) ok follows Try_Acquire show ?thesis
    by (cases "grantable (holds mg) t r m") (auto intro: path_ok_grant)
next
  case (Request t r m)
  show ?thesis
  proof (cases "grantable (holds mg) t r m")
    case True
    obtain mg' where mg': "request ord mg t r m = Some (Granted, mg')"
        "holds mg' = set_held (holds mg) t r (Some (granted_mode (holds mg t r) m))"
      using request_granted [OF inv True] by blast
    then have "after ord mg c = mg'" using Request by (simp add: after_def)
    with mg'(2) ok follows Request show ?thesis by (auto intro: path_ok_grant)
  next
    case False
    then obtain out where "request ord mg t r m = Some (out, register_wait mg t r m)"
      using request_refused [OF inv ord] by blast
    with Request have "after ord mg c = register_wait mg t r m" by (simp add: after_def)
    with ok show ?thesis by (auto intro: path_ok_same)
  qed
next
  case (Release_One t r)
  obtain mg' out where mg': "release mg t r = Some (out, mg')" "holds mg' = set_held (holds mg) t r None"
    using release_effect [OF inv] by blast
  with Release_One have aft: "after ord mg c = mg'" by (simp add: after_def)
  have "holds_above mg' u (parent n) k" if "holds mg' u n = Some k" for u n k
  proof -
    from that mg'(2) have old: "holds mg u n = Some k" by (auto split: if_splits)
    have "\<not> (u = t \<and> parent n = Some r)"
      using follows Release_One old set_held_nodes [OF inv, of t] by (auto simp: list_all_iff)
    moreover have "holds_above mg u (parent n) k" using ok old by (simp add: path_ok_def)
    ultimately show ?thesis
      by (cases "parent n") (auto simp: holds_above_def mg'(2) split: option.splits if_splits)
  qed
  then show ?thesis by (simp add: path_ok_def aft)
next
  case (Release_All t)
  obtain mg' n where mg': "release_all mg t = (n, mg')" "holds mg' = (holds mg)(t := (\<lambda>r. None))"
    using release_all_effect [OF inv] by blast
  with Release_All have aft: "after ord mg c = mg'" by (simp add: after_def)
  have "holds_above mg' u (parent n) k" if "holds mg' u n = Some k" for u n k
  proof -
    from that mg'(2) have u: "u \<noteq> t" and old: "holds mg u n = Some k" by (auto split: if_splits)
    then have "holds_above mg u (parent n) k" using ok by (simp add: path_ok_def)
    with u show ?thesis by (cases "parent n") (auto simp: holds_above_def mg'(2) split: option.splits)
  qed
  then show ?thesis by (simp add: path_ok_def aft)
next
  case (Cancel_Wait t)
  then have "holds (after ord mg c) = holds mg" by (simp add: after_def cancel_wait_def)
  then show ?thesis by (rule path_ok_same [OF ok])
next
  case (Try_Acquire_Range t s rg m)
  with ok try_acquire_range_effect [OF inv, of t s rg m] show ?thesis
    by (intro path_ok_same [OF ok]) (auto simp: after_def)
next
  case (Release_Range t s rg)
  with ok release_range_effect [OF inv, of t s rg] show ?thesis
    by (intro path_ok_same [OF ok]) (auto simp: after_def)
qed

definition mgl_inv :: "hierarchy \<Rightarrow> LockManager \<Rightarrow> bool" where
  "mgl_inv parent mg \<longleftrightarrow> manager_inv mg \<and> path_ok parent mg"

interpretation mgl: invariant_machine "after ord" "\<lambda>mg c. key_order ord \<and> follows_protocol parent mg c"
    "mgl_inv parent"
  for ord :: "TxnId set \<Rightarrow> TxnId list" and parent :: hierarchy
  by unfold_locales (auto simp: mgl_inv_def after_inv path_ok_after)

section \<open>What a lock gives access to\<close>

text \<open>A lock on a node is a lock on everything below it.\<close>

definition below :: "hierarchy \<Rightarrow> (ResourceId \<times> ResourceId) set" where
  "below parent = {(n, a). parent n = Some a}"

definition reads :: "hierarchy \<Rightarrow> LockManager \<Rightarrow> TxnId \<Rightarrow> ResourceId \<Rightarrow> bool" where
  "reads parent mg t n \<longleftrightarrow>
     (\<exists>a m. (n, a) \<in> (below parent)\<^sup>* \<and> holds mg t a = Some m \<and> covers m Shared)"

definition writes :: "hierarchy \<Rightarrow> LockManager \<Rightarrow> TxnId \<Rightarrow> ResourceId \<Rightarrow> bool" where
  "writes parent mg t n \<longleftrightarrow> (\<exists>a. (n, a) \<in> (below parent)\<^sup>* \<and> holds mg t a = Some Exclusive)"

lemma path_above:
  assumes ok: "path_ok parent mg" and "(n, a) \<in> (below parent)\<^sup>+" and "holds mg t n = Some m"
  shows "\<exists>h. holds mg t a = Some h \<and> covers h (intent m)"
  using assms(2)
proof (induction rule: trancl_induct)
  case (base a)
  then show ?case using assms(3) ok by (fastforce simp: below_def path_ok_def holds_above_def split: option.splits)
next
  case (step a b)
  then obtain h where h: "holds mg t a = Some h" "covers h (intent m)" by blast
  with step ok obtain k where k: "holds mg t b = Some k" "covers k (intent h)"
    by (fastforce simp: below_def path_ok_def holds_above_def split: option.splits)
  have "covers (intent h) (intent m)"
    using h(2) by (cases h; cases m; simp add: intent_def covers_join mode_simps)
  with k show ?case using modes.above_trans by blast
qed

lemma mode_access:
  shows "\<not> compatible_with Exclusive m" and "covers m Shared \<Longrightarrow> covers k IntentionExclusive \<Longrightarrow> \<not> compatible_with k m"
  by (cases m; simp add: mode_simps) (cases m; cases k; simp add: covers_join mode_simps)

lemma no_hidden_conflict:
  assumes inv: "manager_inv mg" and ok: "path_ok parent mg" and "t \<noteq> u"
    and w: "writes parent mg t n" and r: "reads parent mg u n"
  shows False
proof -
  from w obtain a where a: "(n, a) \<in> (below parent)\<^sup>*" "holds mg t a = Some Exclusive" by (auto simp: writes_def)
  from r obtain b m where b: "(n, b) \<in> (below parent)\<^sup>*" "holds mg u b = Some m" "covers m Shared"
    by (auto simp: reads_def)
  have "single_valued (below parent)" by (auto simp: single_valued_def below_def)
  from single_valued_confluent [OF this a(1) b(1)]
  consider "a = b" | "(a, b) \<in> (below parent)\<^sup>+" | "(b, a) \<in> (below parent)\<^sup>+"
    by (auto simp: rtrancl_eq_or_trancl)
  then show False
  proof cases
    case 1
    with a(2) b(2) holds_compatible [OF inv, of t a Exclusive u m] assms(3) mode_access(1) show False by auto
  next
    case 2
    then obtain k where k: "holds mg t b = Some k" "covers k IntentionExclusive"
      using path_above [OF ok _ a(2)] by (auto simp: intent_def)
    with b(2,3) holds_compatible [OF inv k(1) b(2) assms(3)] mode_access(2) show False by blast
  next
    case 3
    then obtain k where "holds mg u a = Some k" using path_above [OF ok _ b(2)] by blast
    with holds_compatible [OF inv a(2) this assms(3)] mode_access(1) show False by blast
  qed
qed

text \<open>
  C19: Hierarchical locking is sound.  Take any hierarchy and any run of calls from a new manager in
  which every transaction holds the intention lock on the parent (IS for a read, IX for a write) when
  it locks a node, and holds no child when it releases a node.  Then at the end no transaction has
  write access to a node, through the node or any coarser one, while another has read or write access
  to it.
\<close>

theorem hierarchical_locking_sound:
  assumes "key_order ord" and "with_shards oc alloc n = Some mg" and "shard_count mg \<noteq> 0"
    and "guarded_run (after ord) (follows_protocol parent) mg cs" and "t \<noteq> u"
  shows "\<not> (writes parent (foldl (after ord) mg cs) t x \<and> reads parent (foldl (after ord) mg cs) u x)
    \<and> \<not> (writes parent (foldl (after ord) mg cs) t x \<and> writes parent (foldl (after ord) mg cs) u x)"
proof -
  let ?mg = "foldl (after ord) mg cs"
  have "shards mg \<noteq> []" using assms(3) by (auto simp: shard_count_def)
  note new = with_shards_inv [OF assms(2) this]
  have "mgl_inv parent mg" by (simp add: mgl_inv_def path_ok_def new)
  then have "mgl_inv parent ?mg" using assms(1,4) by (intro mgl.run_inv guarded_run_and)
  then have "\<not> (writes parent ?mg t x \<and> reads parent ?mg u x)"
    using no_hidden_conflict [of ?mg parent t u x] assms(5) by (auto simp: mgl_inv_def)
  moreover have "writes parent ?mg u x \<Longrightarrow> reads parent ?mg u x"
    unfolding writes_def reads_def using covers_join [of Exclusive Shared] mode_simps by fastforce
  ultimately show ?thesis by blast
qed

section \<open>The example program\<close>

text \<open>The four levels of \<open>src/examples/hierarchy.rs\<close> and the calls it makes, in order.\<close>

definition DB :: ResourceId where "DB = ResourceId 1"
definition TABLE :: ResourceId where "TABLE = ResourceId 2"
definition PAGE :: ResourceId where "PAGE = ResourceId 3"
definition ROW :: ResourceId where "ROW = ResourceId 4"

definition example_parent :: hierarchy where
  "example_parent n = (if n = ROW then Some PAGE else if n = PAGE then Some TABLE
     else if n = TABLE then Some DB else None)"

definition hierarchy_calls :: "Call list" where
  "hierarchy_calls =
     map (\<lambda>node. Try_Acquire (TxnId 1) node IntentionExclusive) [DB, TABLE, PAGE]
     @ [Try_Acquire (TxnId 1) ROW Exclusive]
     @ map (\<lambda>node. Try_Acquire (TxnId 2) node IntentionShared) [DB, TABLE, PAGE]
     @ [Try_Acquire (TxnId 2) ROW Shared, Release_All (TxnId 1), Release_All (TxnId 2),
        Try_Acquire (TxnId 2) ROW Shared, Release_All (TxnId 2)]"

theorem hierarchical_locking_sound_witness:
  "\<exists>mg. with_shards True (\<lambda>_. True) 3 = Some mg
    \<and> map_option fst (run_program (call sorted_list_of_set) mg (take 8 hierarchy_calls)) =
        Some (replicate 7 (Res (Ok ())) @ [Res (Err Conflict)])
    \<and> \<not> (writes example_parent (foldl (after sorted_list_of_set) mg (take 8 hierarchy_calls)) (TxnId 1) ROW
         \<and> reads example_parent (foldl (after sorted_list_of_set) mg (take 8 hierarchy_calls)) (TxnId 2) ROW)"
proof -
  have "map_option (\<lambda>mg. (guarded_run (after sorted_list_of_set) (follows_protocol example_parent) mg (take 8 hierarchy_calls),
        map_option fst (run_program (call sorted_list_of_set) mg (take 8 hierarchy_calls))))
      (with_shards True (\<lambda>_. True) 3) = Some (True, Some (replicate 7 (Res (Ok ())) @ [Res (Err Conflict)]))"
    by code_simp
  moreover obtain mg where mg: "with_shards True (\<lambda>_. True) 3 = Some mg" "shard_count mg \<noteq> 0"
    using four_shards by fastforce
  ultimately have run: "guarded_run (after sorted_list_of_set) (follows_protocol example_parent) mg (take 8 hierarchy_calls)"
    "map_option fst (run_program (call sorted_list_of_set) mg (take 8 hierarchy_calls)) =
       Some (replicate 7 (Res (Ok ())) @ [Res (Err Conflict)])"
    by (simp_all only: option.map option.inject prod.inject)
  have "TxnId 1 \<noteq> TxnId 2" by simp
  from hierarchical_locking_sound [OF key_order_sorted mg run(1) this, of ROW] mg(1) run(2)
  show ?thesis by blast
qed

text \<open>
  The calls of the example answer as its comments say, but its last acquisition does not follow the
  protocol it documents: the reader has released everything and locks the row without an intention
  lock on the page.
\<close>

theorem example_leaves_protocol:
  "map_option fst (session hierarchy_calls) =
     Some (replicate 7 (Res (Ok ())) @ [Res (Err Conflict), Count 4, Count 3, Res (Ok ()), Count 1])
   \<and> map_option (\<lambda>mg. (guarded_run (after sorted_list_of_set) (follows_protocol example_parent) mg (take 10 hierarchy_calls),
        guarded_run (after sorted_list_of_set) (follows_protocol example_parent) mg (take 11 hierarchy_calls)))
      (with_shards True (\<lambda>_. True) 3) = Some (True, False)"
  by (intro conjI) code_simp+

end
