(* ===== verification/Threads.thy ===== *)
theory Threads
  imports Calls
begin

text \<open>
  The operations of the manager as they run on several threads.  Every shard and the registry of
  waits sit behind a mutex of their own (\<open>src/src/manager.rs\<close>); the body of an operation is here a tree of
  the instructions that other threads can observe: locking and unlocking a mutex, and working on the
  contents of a mutex that is held.  A thread takes one instruction at a time, and the threads are
  interleaved in any order.  \<open>lock\<close> and \<open>lock_waits\<close> recover the guard of a poisoned mutex, so locking
  only ever waits; the unlock stands where the source drops the guard.
\<close>

section \<open>Code\<close>

type_synonym waits_map = "(TxnId, ResourceId \<times> LockMode) hash_map"

datatype Mutex = Waits | Shard_Mutex nat

text \<open>
  \<open>On_Shard i f k\<close> replaces the contents of shard \<open>i\<close> by their image under \<open>f\<close> and goes on with
  what it read; \<open>On_Waits\<close> does so with the registry.  \<open>Panic\<close> is the index out of range.
\<close>

datatype 'a Code =
    Return 'a
  | Panic
  | Lock Mutex "'a Code"
  | Unlock Mutex "'a Code"
  | On_Shard nat "ShardInner \<Rightarrow> ShardInner" "ShardInner \<Rightarrow> 'a Code"
  | On_Waits "waits_map \<Rightarrow> waits_map" "waits_map \<Rightarrow> 'a Code"

text \<open>A critical section on one shard: lock it, work on its contents, drop the guard.\<close>

definition section_code :: "nat \<Rightarrow> (ShardInner \<Rightarrow> 'b \<times> ShardInner) \<Rightarrow> ('b \<Rightarrow> 'a Code) \<Rightarrow> 'a Code" where
  "section_code i crit k =
     Lock (Shard_Mutex i)
       (On_Shard i (\<lambda>sh. snd (crit sh)) (\<lambda>sh. Unlock (Shard_Mutex i) (k (fst (crit sh)))))"

definition on_resource ::
  "LockManager \<Rightarrow> ResourceId \<Rightarrow> (ShardInner \<Rightarrow> 'b \<times> ShardInner) \<Rightarrow> ('b \<Rightarrow> 'a Code) \<Rightarrow> 'a Code"
where
  "on_resource mg res crit k =
     (let i = unat (shard_index mg res) in if i < length (shards mg) then section_code i crit k else Panic)"

definition waits_section :: "(waits_map \<Rightarrow> waits_map) \<Rightarrow> (waits_map \<Rightarrow> 'a Code) \<Rightarrow> 'a Code" where
  "waits_section f k = Lock Waits (On_Waits f (\<lambda>w. Unlock Waits (k w)))"

text \<open>A read of a shard.\<close>

abbreviation peek :: "(ShardInner \<Rightarrow> 'b) \<Rightarrow> ShardInner \<Rightarrow> 'b \<times> ShardInner" where
  "peek look \<equiv> (\<lambda>sh. (look sh, sh))"

section \<open>The operations\<close>

datatype Job =
    Change Call
  | Find_Deadlock
  | Waiting_Count
  | Holder_Count ResourceId
  | Mode_Held TxnId ResourceId
  | Range_Count ResourceId

datatype Reply =
    Answer Outcome
  | Found "Deadlock option"
  | Number nat
  | Mode_Is "LockMode option"

primrec release_loop :: "TxnId \<Rightarrow> nat list \<Rightarrow> nat \<Rightarrow> Reply Code" where
  "release_loop txn [] released = Return (Answer (Count released))"
| "release_loop txn (i # is) released =
     section_code i (release_all_section txn) (\<lambda>n. release_loop txn is (released + n))"

definition release_all_code :: "LockManager \<Rightarrow> TxnId \<Rightarrow> Reply Code" where
  "release_all_code mg txn =
     waits_section (fmdrop txn) (\<lambda>_. release_loop txn [0..<length (shards mg)] 0)"

primrec build_loop ::
  "LockManager \<Rightarrow> waits_map \<Rightarrow> TxnId list \<Rightarrow> WaitForGraph \<Rightarrow> (WaitForGraph \<Rightarrow> 'a Code) \<Rightarrow> 'a Code"
where
  "build_loop mg ws [] graph k = k graph"
| "build_loop mg ws (waiter # rest) graph k =
     (case fmlookup ws waiter of
        None \<Rightarrow> build_loop mg ws rest graph k
      | Some (res, mode) \<Rightarrow>
          on_resource mg res (peek (blocking_section waiter res mode)) (\<lambda>blockers.
            build_loop mg ws rest (add_waits graph waiter blockers) k))"

definition build_code ::
  "(TxnId set \<Rightarrow> TxnId list) \<Rightarrow> LockManager \<Rightarrow> waits_map \<Rightarrow> (WaitForGraph \<Rightarrow> 'a Code) \<Rightarrow> 'a Code"
where
  "build_code ord mg ws k = build_loop mg ws (ord (fmdom' ws)) WaitForGraph_new k"

definition detection_answer :: "WaitForGraph \<Rightarrow> TxnId \<Rightarrow> Acquisition" where
  "detection_answer graph txn =
     (case cycle_from graph txn of
        Some cycle \<Rightarrow>
          (let victim = (case pick_victim cycle DEADLOCK_VICTIM_POLICY of Some v \<Rightarrow> v | None \<Rightarrow> txn)
           in Deadlock \<lparr>dl_victim = victim, dl_cycle = cycle\<rparr>)
      | None \<Rightarrow> Waiting)"

definition request_code ::
  "(TxnId set \<Rightarrow> TxnId list) \<Rightarrow> LockManager \<Rightarrow> TxnId \<Rightarrow> ResourceId \<Rightarrow> LockMode \<Rightarrow> Reply Code"
where
  "request_code ord mg txn res mode =
     Lock Waits (on_resource mg res (grant_section txn res mode) (\<lambda>granted.
       if granted then On_Waits (fmdrop txn) (\<lambda>_. Unlock Waits (Return (Answer (Acq Granted))))
       else On_Waits (fmupd txn (res, mode)) (\<lambda>ws.
         build_code ord mg (fmupd txn (res, mode) ws) (\<lambda>graph.
           Unlock Waits (Return (Answer (Acq (detection_answer graph txn))))))))"

definition scan_answer :: "(TxnId set \<Rightarrow> TxnId list) \<Rightarrow> WaitForGraph \<Rightarrow> Deadlock option" where
  "scan_answer ord graph =
     Option.bind (detect_cycle ord graph) (\<lambda>cycle.
     Option.bind (pick_victim cycle DEADLOCK_VICTIM_POLICY) (\<lambda>victim.
       Some \<lparr>dl_victim = victim, dl_cycle = cycle\<rparr>))"

definition find_deadlock_code :: "(TxnId set \<Rightarrow> TxnId list) \<Rightarrow> LockManager \<Rightarrow> Reply Code" where
  "find_deadlock_code ord mg =
     Lock Waits (On_Waits (\<lambda>ws. ws) (\<lambda>ws. build_code ord mg ws (\<lambda>graph.
       Unlock Waits (Return (Found (scan_answer ord graph))))))"

text \<open>The operations with one critical section.\<close>

definition try_acquire_code :: "LockManager \<Rightarrow> TxnId \<Rightarrow> ResourceId \<Rightarrow> LockMode \<Rightarrow> Reply Code" where
  "try_acquire_code mg txn res mode =
     on_resource mg res (grant_section txn res mode)
       (\<lambda>granted. Return (Answer (Res (if granted then Ok () else Err Conflict))))"

definition release_code :: "LockManager \<Rightarrow> TxnId \<Rightarrow> ResourceId \<Rightarrow> Reply Code" where
  "release_code mg txn res = on_resource mg res (release_section txn res) (\<lambda>x. Return (Answer (Res x)))"

definition cancel_wait_code :: "TxnId \<Rightarrow> Reply Code" where
  "cancel_wait_code txn = waits_section (fmdrop txn) (\<lambda>_. Return (Answer Unit))"

definition try_acquire_range_code :: "LockManager \<Rightarrow> TxnId \<Rightarrow> ResourceId \<Rightarrow> KeyRange \<Rightarrow> LockMode \<Rightarrow> Reply Code" where
  "try_acquire_range_code mg txn space rg mode =
     on_resource mg space (range_acquire_section txn space rg mode) (\<lambda>x. Return (Answer (Res x)))"

definition release_range_code :: "LockManager \<Rightarrow> TxnId \<Rightarrow> ResourceId \<Rightarrow> KeyRange \<Rightarrow> Reply Code" where
  "release_range_code mg txn space rg =
     on_resource mg space (range_release_section txn space rg) (\<lambda>x. Return (Answer (Res x)))"

definition waiting_count_code :: "Reply Code" where
  "waiting_count_code = waits_section (\<lambda>ws. ws) (\<lambda>ws. Return (Number (hash_map_len ws)))"

definition holder_count_code :: "LockManager \<Rightarrow> ResourceId \<Rightarrow> Reply Code" where
  "holder_count_code mg res =
     on_resource mg res (peek (\<lambda>sh. get_map_or 0 (\<lambda>e. length (le_holders e)) (locks sh) res)) (\<lambda>n. Return (Number n))"

definition mode_held_code :: "LockManager \<Rightarrow> TxnId \<Rightarrow> ResourceId \<Rightarrow> Reply Code" where
  "mode_held_code mg txn res = on_resource mg res (peek (mode_section txn res)) (\<lambda>x. Return (Mode_Is x))"

definition range_count_code :: "LockManager \<Rightarrow> ResourceId \<Rightarrow> Reply Code" where
  "range_count_code mg space =
     on_resource mg space (peek (\<lambda>sh. get_map_or 0 (\<lambda>rs. length (rs_holders rs)) (ranges sh) space)) (\<lambda>n. Return (Number n))"

lemmas one_section_code_defs [simp] = try_acquire_code_def release_code_def cancel_wait_code_def
  try_acquire_range_code_def release_range_code_def waiting_count_code_def holder_count_code_def
  mode_held_code_def range_count_code_def

primrec call_code :: "(TxnId set \<Rightarrow> TxnId list) \<Rightarrow> LockManager \<Rightarrow> Call \<Rightarrow> Reply Code" where
  "call_code ord mg (Try_Acquire t r m) = try_acquire_code mg t r m"
| "call_code ord mg (Release_One t r) = release_code mg t r"
| "call_code ord mg (Release_All t) = release_all_code mg t"
| "call_code ord mg (Request t r m) = request_code ord mg t r m"
| "call_code ord mg (Cancel_Wait t) = cancel_wait_code t"
| "call_code ord mg (Try_Acquire_Range t s rg m) = try_acquire_range_code mg t s rg m"
| "call_code ord mg (Release_Range t s rg) = release_range_code mg t s rg"

primrec job_code :: "(TxnId set \<Rightarrow> TxnId list) \<Rightarrow> LockManager \<Rightarrow> Job \<Rightarrow> Reply Code" where
  "job_code ord mg (Change c) = call_code ord mg c"
| "job_code ord mg Find_Deadlock = find_deadlock_code ord mg"
| "job_code ord mg Waiting_Count = waiting_count_code"
| "job_code ord mg (Holder_Count r) = holder_count_code mg r"
| "job_code ord mg (Mode_Held t r) = mode_held_code mg t r"
| "job_code ord mg (Range_Count s) = range_count_code mg s"

text \<open>The same operations run alone, as \<open>Manager\<close> has them.\<close>

primrec perform :: "(TxnId set \<Rightarrow> TxnId list) \<Rightarrow> LockManager \<Rightarrow> Job \<Rightarrow> (Reply \<times> LockManager) option" where
  "perform ord mg (Change c) = map_option (map_prod Answer id) (call ord mg c)"
| "perform ord mg Find_Deadlock = map_option (\<lambda>d. (Found d, mg)) (find_deadlock ord mg)"
| "perform ord mg Waiting_Count = Some (Number (waiting_count mg), mg)"
| "perform ord mg (Holder_Count r) = map_option (\<lambda>n. (Number n, mg)) (holder_count mg r)"
| "perform ord mg (Mode_Held t r) = map_option (\<lambda>x. (Mode_Is x, mg)) (mode_held mg t r)"
| "perform ord mg (Range_Count s) = map_option (\<lambda>n. (Number n, mg)) (range_count mg s)"

section \<open>Threads and their interleaving\<close>

datatype Thread = Idle | Running Job "Reply Code"

datatype Action = Start Job | Go | Finish

text \<open>
  The contents of the mutexes, who holds which mutex, and what every thread has left to do.  Threads
  are numbered.
\<close>

record System =
  mgr :: LockManager
  owner :: "Mutex \<Rightarrow> nat option"
  threads :: "nat \<Rightarrow> Thread"

definition put_shard :: "LockManager \<Rightarrow> nat \<Rightarrow> ShardInner \<Rightarrow> LockManager" where
  "put_shard mg i sh = mg\<lparr>shards := (shards mg)[i := (shards mg ! i)\<lparr>inner := sh\<rparr>]\<rparr>"

text \<open>One instruction.  Locking a mutex that someone holds has to wait: \<open>None\<close>.\<close>

fun code_step ::
  "LockManager \<Rightarrow> (Mutex \<Rightarrow> nat option) \<Rightarrow> nat \<Rightarrow> 'a Code \<Rightarrow>
   (LockManager \<times> (Mutex \<Rightarrow> nat option) \<times> 'a Code) option"
where
  "code_step mg own tid (Lock m k) = (if own m = None then Some (mg, own(m := Some tid), k) else None)"
| "code_step mg own tid (Unlock m k) = Some (mg, own(m := None), k)"
| "code_step mg own tid (On_Shard i f k) =
     Some (put_shard mg i (f (inner (shards mg ! i))), own, k (inner (shards mg ! i)))"
| "code_step mg own tid (On_Waits f k) = Some (mg\<lparr>waits := f (waits mg)\<rparr>, own, k (waits mg))"
| "code_step mg own tid c = None"

fun sys_step :: "(TxnId set \<Rightarrow> TxnId list) \<Rightarrow> System \<Rightarrow> nat \<times> Action \<Rightarrow> System option" where
  "sys_step ord s (tid, Start j) =
     (case threads s tid of
        Idle \<Rightarrow> Some (s\<lparr>threads := (threads s)(tid := Running j (job_code ord (mgr s) j))\<rparr>)
      | Running j' c \<Rightarrow> None)"
| "sys_step ord s (tid, Go) =
     (case threads s tid of
        Idle \<Rightarrow> None
      | Running j c \<Rightarrow>
          map_option (\<lambda>(mg, own, c'). \<lparr>mgr = mg, owner = own, threads = (threads s)(tid := Running j c')\<rparr>)
            (code_step (mgr s) (owner s) tid c))"
| "sys_step ord s (tid, Finish) =
     (case threads s tid of
        Running j (Return r) \<Rightarrow> Some (s\<lparr>threads := (threads s)(tid := Idle)\<rparr>)
      | _ \<Rightarrow> None)"

primrec sys_run :: "(TxnId set \<Rightarrow> TxnId list) \<Rightarrow> System \<Rightarrow> (nat \<times> Action) list \<Rightarrow> System option" where
  "sys_run ord s [] = Some s"
| "sys_run ord s (a # as) = Option.bind (sys_step ord s a) (\<lambda>s1. sys_run ord s1 as)"

text \<open>
  The systems that threads starting from a new manager can reach.  \<open>may\<close> says which jobs the client
  starts where; \<open>\<lambda>s tid j. True\<close> is a client that starts anything.
\<close>

definition fresh_system :: "LockManager \<Rightarrow> System" where
  "fresh_system mg = \<lparr>mgr = mg, owner = (\<lambda>m. None), threads = (\<lambda>tid. Idle)\<rparr>"

inductive concurrent ::
  "(TxnId set \<Rightarrow> TxnId list) \<Rightarrow> (System \<Rightarrow> nat \<Rightarrow> Job \<Rightarrow> bool) \<Rightarrow> System \<Rightarrow> bool"
  for ord :: "TxnId set \<Rightarrow> TxnId list" and may :: "System \<Rightarrow> nat \<Rightarrow> Job \<Rightarrow> bool"
where
  start: "with_shards oc alloc n = Some mg \<Longrightarrow> shard_count mg \<noteq> 0 \<Longrightarrow> concurrent ord may (fresh_system mg)"
| step: "concurrent ord may s \<Longrightarrow> (\<forall>j. a = Start j \<longrightarrow> may s tid j) \<Longrightarrow>
    sys_step ord s (tid, a) = Some s' \<Longrightarrow> concurrent ord may s'"

definition reply :: "System \<Rightarrow> nat \<Rightarrow> Reply option" where
  "reply s tid = (case threads s tid of Running j (Return r) \<Rightarrow> Some r | _ \<Rightarrow> None)"

end
