(* ===== verification/Thread_Discipline.thy ===== *)
theory Thread_Discipline
  imports Threads
begin

text \<open>
  The locking discipline of the manager, as typing rules for code: the registry is locked first if at
  all, at most one shard is locked at a time and under it, contents are only worked on while their
  mutex is held, every mutex is dropped before the operation returns, and no index is out of range.
  Code that obeys the rules keeps obeying them as it runs, and threads whose code obeys them cannot
  block each other for ever.
\<close>

section \<open>The rules\<close>

text \<open>\<open>ordered n H c\<close>: code \<open>c\<close> obeys the discipline on \<open>n\<close> shards when run with the mutexes \<open>H\<close> held.\<close>

inductive ordered :: "nat \<Rightarrow> Mutex set \<Rightarrow> 'a Code \<Rightarrow> bool" for n :: nat where
  ordered_Return: "ordered n {} (Return x)"
| ordered_Lock_Waits: "ordered n {Waits} k \<Longrightarrow> ordered n {} (Lock Waits k)"
| ordered_Lock_Shard: "i < n \<Longrightarrow> H \<subseteq> {Waits} \<Longrightarrow> ordered n (insert (Shard_Mutex i) H) k \<Longrightarrow>
    ordered n H (Lock (Shard_Mutex i) k)"
| ordered_Unlock: "m \<in> H \<Longrightarrow> ordered n (H - {m}) k \<Longrightarrow> ordered n H (Unlock m k)"
| ordered_On_Shard: "i < n \<Longrightarrow> Shard_Mutex i \<in> H \<Longrightarrow> (\<And>sh. ordered n H (k sh)) \<Longrightarrow> ordered n H (On_Shard i f k)"
| ordered_On_Waits: "Waits \<in> H \<Longrightarrow> (\<And>w. ordered n H (k w)) \<Longrightarrow> ordered n H (On_Waits f k)"

inductive_simps ordered_simps [simp]:
  "ordered n H (Return x)"
  "ordered n H Panic"
  "ordered n H (Lock Waits k)"
  "ordered n H (Lock (Shard_Mutex i) k)"
  "ordered n H (Unlock m k)"
  "ordered n H (On_Shard i f k)"
  "ordered n H (On_Waits f k)"

section \<open>Every operation obeys them\<close>

lemma section_code_ordered [intro!]:
  "i < n \<Longrightarrow> H \<subseteq> {Waits} \<Longrightarrow> (\<And>x. ordered n H (k x)) \<Longrightarrow> ordered n H (section_code i crit k)"
  by (auto simp: section_code_def insert_absorb subset_singleton_iff)

lemma on_resource_ordered [intro!]:
  "shape_ok mg \<Longrightarrow> H \<subseteq> {Waits} \<Longrightarrow> (\<And>x. ordered (length (shards mg)) H (k x)) \<Longrightarrow>
   ordered (length (shards mg)) H (on_resource mg r crit k)"
  using route_less [of mg r] by (auto simp: on_resource_def route_def Let_def)

lemma waits_section_ordered [intro!]:
  "(\<And>w. ordered n {} (k w)) \<Longrightarrow> ordered n {} (waits_section f k)"
  by (auto simp: waits_section_def)

lemma release_loop_ordered: "\<forall>i \<in> set is. i < n \<Longrightarrow> ordered n {} (release_loop t is m)"
  by (induction "is" arbitrary: m) auto

lemma build_loop_ordered:
  assumes "shape_ok mg" and "\<And>g. ordered (length (shards mg)) {Waits} (k g)"
  shows "ordered (length (shards mg)) {Waits} (build_loop mg ws xs g k)"
  using assms by (induction xs arbitrary: g) (auto split: option.splits)

lemma job_code_ordered:
  assumes "shape_ok mg"
  shows "ordered (length (shards mg)) {} (job_code ord mg j)"
proof (cases j)
  case (Change c)
  then show ?thesis
    using assms by (cases c)
      (auto simp: release_all_code_def request_code_def build_code_def
        intro!: release_loop_ordered build_loop_ordered)
qed (use assms in \<open>auto simp: find_deadlock_code_def build_code_def intro!: build_loop_ordered\<close>)

section \<open>They keep obeying them\<close>

definition held :: "System \<Rightarrow> nat \<Rightarrow> Mutex set" where
  "held s tid = {m. owner s m = Some tid}"

definition thread_ordered :: "System \<Rightarrow> nat \<Rightarrow> bool" where
  "thread_ordered s tid =
     (case threads s tid of
        Idle \<Rightarrow> held s tid = {}
      | Running j c \<Rightarrow> ordered (length (shards (mgr s))) (held s tid) c)"

definition ordered_system :: "System \<Rightarrow> bool" where
  "ordered_system s \<longleftrightarrow> shape_ok (mgr s) \<and> (\<forall>tid. thread_ordered s tid)"

lemma ordered_runningD:
  "ordered_system s \<Longrightarrow> threads s tid = Running j c \<Longrightarrow> ordered (length (shards (mgr s))) (held s tid) c"
  by (auto simp: ordered_system_def thread_ordered_def split: Thread.splits dest!: spec [of _ tid])

lemma ordered_held_running: "ordered_system s \<Longrightarrow> m \<in> held s tid \<Longrightarrow> \<exists>j c. threads s tid = Running j c"
  by (cases "threads s tid") (auto simp: ordered_system_def thread_ordered_def dest!: spec [of _ tid])

lemma put_shard_shape [simp]:
  "length (shards (put_shard mg i sh)) = length (shards mg)" "bits (put_shard mg i sh) = bits mg"
  "waits (put_shard mg i sh) = waits mg" "shape_ok (put_shard mg i sh) = shape_ok mg"
  by (simp_all add: put_shard_def shape_ok_def)

lemma waits_update_shape [simp]: "shape_ok (mg\<lparr>waits := w\<rparr>) = shape_ok mg"
  by (simp add: shape_ok_def)

text \<open>
  What one instruction of ordered code does: it stays ordered with the mutexes it then holds, no
  other thread loses or gains a mutex, and the shards stay as many.
\<close>

lemma code_step_ordered:
  assumes "code_step mg own tid c = Some (mg', own', c')"
    and "ordered (length (shards mg)) {m. own m = Some tid} c"
  shows "ordered (length (shards mg')) {m. own' m = Some tid} c'"
    and "shape_ok mg \<Longrightarrow> shape_ok mg'" and "length (shards mg') = length (shards mg)" and "bits mg' = bits mg"
    and "u \<noteq> tid \<Longrightarrow> own' m = Some u \<longleftrightarrow> own m = Some u"
proof -
  note facts = assms
  have lock: "{m. (own(m' := Some tid)) m = Some tid} = insert m' {m. own m = Some tid}" for m'
    by auto
  have unlock: "{m. (own(m' := None)) m = Some tid} = {m. own m = Some tid} - {m'}" for m'
    by auto
  show "ordered (length (shards mg')) {m. own' m = Some tid} c'"
  proof (cases c)
    case (Lock m k)
    with facts have "own' = own(m := Some tid)" "mg' = mg" "c' = k" by (auto split: if_splits)
    with facts(2) Lock show ?thesis by (cases m) (simp_all only: lock ordered_simps)
  next
    case (Unlock m k)
    with facts have "own' = own(m := None)" "mg' = mg" "c' = k" by auto
    with facts(2) Unlock show ?thesis by (simp only: unlock ordered_simps)
  qed (use facts in auto)
  show "shape_ok mg \<Longrightarrow> shape_ok mg'" "length (shards mg') = length (shards mg)" "bits mg' = bits mg"
    using facts(1) by (cases c; auto split: if_splits)+
  show "own' m = Some u \<longleftrightarrow> own m = Some u" if "u \<noteq> tid"
  proof (cases c)
    case (Unlock m' k)
    with facts have "own m' = Some tid" by auto
    with facts Unlock that show ?thesis by (auto split: if_splits)
  qed (use facts that in \<open>auto split: if_splits\<close>)
qed


lemma sys_step_ordered:
  assumes run: "sys_step ord s (tid, a) = Some s'" and inv: "ordered_system s"
  shows "ordered_system s'" and "length (shards (mgr s')) = length (shards (mgr s))"
    and "bits (mgr s') = bits (mgr s)"
    and "u \<noteq> tid \<Longrightarrow> held s' u = held s u \<and> threads s' u = threads s u"
proof -
  have step: "shape_ok (mgr s') \<and> length (shards (mgr s')) = length (shards (mgr s))
      \<and> bits (mgr s') = bits (mgr s) \<and> thread_ordered s' tid
      \<and> (\<forall>u. u \<noteq> tid \<longrightarrow> held s' u = held s u \<and> threads s' u = threads s u)"
  proof (cases a)
    case (Start j)
    with run obtain "threads s tid = Idle"
        "s' = s\<lparr>threads := (threads s)(tid := Running j (job_code ord (mgr s) j))\<rparr>"
      by (auto split: Thread.splits)
    moreover from this inv have "held s tid = {}" by (auto simp: ordered_system_def thread_ordered_def split: Thread.splits)
    ultimately show ?thesis
      using inv job_code_ordered by (auto simp: ordered_system_def thread_ordered_def held_def)
  next
    case Go
    with run obtain j c mg' own' c' where c: "threads s tid = Running j c"
        "code_step (mgr s) (owner s) tid c = Some (mg', own', c')"
        "s' = \<lparr>mgr = mg', owner = own', threads = (threads s)(tid := Running j c')\<rparr>"
      by (auto split: Thread.splits)
    with inv have ord: "ordered (length (shards (mgr s))) {m. owner s m = Some tid} c"
      by (auto simp: ordered_system_def thread_ordered_def held_def split: Thread.splits)
    note eff = code_step_ordered [OF c(2) ord]
    have "held s' u = held s u" if "u \<noteq> tid" for u
      using eff(5) [OF that] c(3) by (simp add: held_def)
    with eff(1-4) c(3) inv show ?thesis
      by (auto simp: ordered_system_def thread_ordered_def held_def)
  next
    case Finish
    with run obtain j r where "threads s tid = Running j (Return r)"
        "s' = s\<lparr>threads := (threads s)(tid := Idle)\<rparr>"
      by (auto split: Thread.splits Code.splits)
    moreover from ordered_runningD [OF inv this(1)] have "held s tid = {}" by simp
    ultimately show ?thesis
      using inv by (auto simp: ordered_system_def thread_ordered_def held_def)
  qed
  have "thread_ordered s' u" for u
  proof (cases "u = tid")
    case False
    with step have "threads s' u = threads s u" "held s' u = held s u"
      "length (shards (mgr s')) = length (shards (mgr s))" by auto
    then have "thread_ordered s' u = thread_ordered s u" by (simp only: thread_ordered_def)
    with inv show ?thesis by (simp add: ordered_system_def)
  qed (use step in simp)
  with step show "ordered_system s'" by (simp add: ordered_system_def)
  show "length (shards (mgr s')) = length (shards (mgr s))" "bits (mgr s') = bits (mgr s)"
    "u \<noteq> tid \<Longrightarrow> held s' u = held s u \<and> threads s' u = threads s u" using step by auto
qed

lemma fresh_system_ordered: "shape_ok mg \<Longrightarrow> ordered_system (fresh_system mg)"
  by (simp add: ordered_system_def thread_ordered_def held_def fresh_system_def)

lemma concurrent_ordered: "concurrent ord may s \<Longrightarrow> ordered_system s"
proof (induction rule: concurrent.induct)
  case (start oc alloc n mg)
  then show ?case
    using with_shards_inv(1) by (simp add: fresh_system_ordered manager_inv_shape shard_count_def)
next
  case (step s a tid s')
  then show ?case using sys_step_ordered(1) by blast
qed

section \<open>Somebody can always go on\<close>

definition enabled :: "(TxnId set \<Rightarrow> TxnId list) \<Rightarrow> System \<Rightarrow> nat \<Rightarrow> bool" where
  "enabled ord s tid \<longleftrightarrow> sys_step ord s (tid, Go) \<noteq> None \<or> sys_step ord s (tid, Finish) \<noteq> None"

lemma enabled_iff:
  "enabled ord s tid \<longleftrightarrow> (\<exists>a s'. (a = Go \<or> a = Finish) \<and> sys_step ord s (tid, a) = Some s')"
  unfolding enabled_def not_None_eq by blast

text \<open>A thread that is neither about to lock nor out of range can take its next step.\<close>

lemma ordered_enabled:
  assumes "threads s tid = Running j c" and "ordered n H c" and "\<And>m k. c = Lock m k \<Longrightarrow> owner s m = None"
  shows "enabled ord s tid"
  using assms by (cases c) (auto simp: enabled_def)

lemma ordered_system_progress:
  assumes inv: "ordered_system s" and busy: "threads s tid \<noteq> Idle"
  shows "\<exists>u. enabled ord s u"
proof -
  let ?n = "length (shards (mgr s))"
  consider (shard) u i where "Shard_Mutex i \<in> held s u"
    | (registry) u where "Waits \<in> held s u" "\<And>u i. Shard_Mutex i \<notin> held s u"
    | (free) "\<And>u m. m \<notin> held s u"
    by (metis Mutex.exhaust)
  then show ?thesis
  proof cases
    case shard
    from ordered_held_running [OF inv this] obtain j c where c: "threads s u = Running j c" by blast
    have "ordered ?n (held s u) c" using inv c by (rule ordered_runningD)
    moreover from this shard have "c \<noteq> Lock m k" for m k by (cases m) auto
    ultimately show ?thesis using ordered_enabled [OF c] by blast
  next
    case registry
    from ordered_held_running [OF inv this(1)] obtain j c where c: "threads s u = Running j c" by blast
    have o: "ordered ?n (held s u) c" using inv c by (rule ordered_runningD)
    have "owner s m = None" if "c = Lock m k" for m k
    proof (cases m)
      case Waits
      with o that registry(1) show ?thesis by simp
    next
      case (Shard_Mutex i)
      with registry(2) [of i] show ?thesis by (cases "owner s m") (simp_all add: held_def)
    qed
    with ordered_enabled [OF c o] show ?thesis by blast
  next
    case free
    from busy obtain j c where c: "threads s tid = Running j c" by (cases "threads s tid") auto
    have o: "ordered ?n (held s tid) c" using inv c by (rule ordered_runningD)
    have none: "owner s m = None" for m
    proof (rule ccontr)
      assume "owner s m \<noteq> None"
      then obtain u where "m \<in> held s u" by (auto simp: held_def)
      with free show False by blast
    qed
    have "enabled ord s tid" by (rule ordered_enabled [OF c o]) (rule none)
    then show ?thesis by blast
  qed
qed

section \<open>And not for ever\<close>

text \<open>The code that an instruction can leave.\<close>

inductive continues :: "'a Code \<Rightarrow> 'a Code \<Rightarrow> bool" where
  "continues k (Lock m k)"
| "continues k (Unlock m k)"
| "continues (k sh) (On_Shard i f k)"
| "continues (k w) (On_Waits f k)"

inductive_cases continues_elims [elim!]:
  "continues c (Return x)" "continues c Panic" "continues c (Lock m k)" "continues c (Unlock m k)"
  "continues c (On_Shard i f k)" "continues c (On_Waits f k)"

lemma wf_continues: "wf {(c', c). continues c' c}"
proof (rule wfUNIVI)
  fix P :: "'a Code \<Rightarrow> bool" and c :: "'a Code"
  assume "\<forall>c. (\<forall>c'. (c', c) \<in> {(c', c). continues c' c} \<longrightarrow> P c') \<longrightarrow> P c"
  then have step: "P c" if "\<And>c'. continues c' c \<Longrightarrow> P c'" for c
    using that by blast
  show "P c" by (induction c) (rule step; blast)+
qed

lemma code_step_continues: "code_step mg own tid c = Some (mg', own', c') \<Longrightarrow> continues c' c"
  by (cases c) (auto split: if_splits intro: continues.intros)

lemma mult1_replace: "(b, a) \<in> r \<Longrightarrow> (add_mset b M, add_mset a M) \<in> mult1 r"
  by (rule mult1I [of _ a M _ "{#b#}"]) auto

lemma mult1_remove: "(M, add_mset a M) \<in> mult1 r"
  by (rule mult1I [of _ a M _ "{#}"]) auto

text \<open>What is left to do in the whole system: the code of the running threads.\<close>

definition running :: "System \<Rightarrow> nat set" where
  "running s = {tid. threads s tid \<noteq> Idle}"

primrec rest_of :: "Thread \<Rightarrow> Reply Code" where
  "rest_of Idle = Panic"
| "rest_of (Running j c) = c"

definition work :: "System \<Rightarrow> Reply Code multiset" where
  "work s = image_mset (\<lambda>tid. rest_of (threads s tid)) (mset_set (running s))"

lemma concurrent_running: "concurrent ord may s \<Longrightarrow> finite (running s)"
proof (induction rule: concurrent.induct)
  case (step s a tid s')
  then have "running s' \<subseteq> insert tid (running s)"
    by (cases a) (auto simp: running_def split: Thread.splits Code.splits if_splits)
  with step.IH show ?case using finite_subset by blast
qed (simp add: running_def fresh_system_def)

lemma work_decreases:
  assumes run: "sys_step ord s (tid, a) = Some s'" and a: "a = Go \<or> a = Finish" and fin: "finite (running s)"
  shows "finite (running s')" and "(work s', work s) \<in> mult1 {(c', c). continues c' c}"
proof -
  have tid: "tid \<in> running s" using run a by (auto simp: running_def split: Thread.splits)
  have others: "threads s' u = threads s u" if "u \<noteq> tid" for u
    using run a that by (auto split: Thread.splits Code.splits)
  define R where "R = running s - {tid}"
  have R: "finite R" "tid \<notin> R" "running s = insert tid R" using fin tid by (auto simp: R_def)
  have same: "image_mset (\<lambda>tid. rest_of (threads s' tid)) (mset_set R) = image_mset (\<lambda>tid. rest_of (threads s tid)) (mset_set R)"
    using R others by (intro image_mset_cong) (auto, metis)
  have W: "work s = add_mset (rest_of (threads s tid)) (image_mset (\<lambda>tid. rest_of (threads s tid)) (mset_set R))"
    using R by (simp add: work_def)
  from a have "finite (running s') \<and> (work s', work s) \<in> mult1 {(c', c). continues c' c}"
  proof
    assume "a = Go"
    with run obtain j c mg' own' c' where c: "threads s tid = Running j c"
        "code_step (mgr s) (owner s) tid c = Some (mg', own', c')" "threads s' = (threads s)(tid := Running j c')"
      by (auto split: Thread.splits)
    have run': "running s' = insert tid R" using c R(3) by (auto simp: running_def R_def)
    with R c same have "work s' = add_mset c' (image_mset (\<lambda>tid. rest_of (threads s tid)) (mset_set R))"
      by (simp add: work_def)
    with W c code_step_continues [OF c(2)] run' R(1) show ?thesis
      by (auto intro: mult1_replace)
  next
    assume "a = Finish"
    with run have "threads s' = (threads s)(tid := Idle)" by (auto split: Thread.splits Code.splits)
    then have run': "running s' = R" using R(3) by (auto simp: running_def R_def)
    with W R(1) same mult1_remove show ?thesis by (simp add: work_def)
  qed
  then show "finite (running s')" "(work s', work s) \<in> mult1 {(c', c). continues c' c}" by auto
qed

text \<open>From any state, steps that start nothing new lead to a state in which every thread is idle.\<close>

lemma ordered_system_completes:
  assumes "ordered_system s" and "finite (running s)"
  shows "\<exists>as s'. sys_run ord s as = Some s' \<and> (\<forall>(tid, a) \<in> set as. a = Go \<or> a = Finish) \<and> running s' = {}"
proof -
  have "wf (inv_image (mult1 {(c', c). continues c' c}) work)"
    by (intro wf_inv_image wf_mult1 wf_continues)
  then show ?thesis using assms
  proof (induction s rule: wf_induct_rule)
    case (less s)
    show ?case
    proof (cases "running s = {}")
      case False
      then obtain tid where "threads s tid \<noteq> Idle" by (auto simp: running_def)
      from ordered_system_progress [OF less.prems(1) this, of ord] obtain u a s1
        where s1: "sys_step ord s (u, a) = Some s1" "a = Go \<or> a = Finish"
        unfolding enabled_iff by blast
      have "(s1, s) \<in> inv_image (mult1 {(c', c). continues c' c}) work"
        using work_decreases(2) [OF s1 less.prems(2)] by simp
      from less.IH [OF this sys_step_ordered(1) [OF s1(1) less.prems(1)]
          work_decreases(1) [OF s1 less.prems(2)]]
        obtain as s' where as: "sys_run ord s1 as = Some s'" "\<forall>(tid, a) \<in> set as. a = Go \<or> a = Finish" "running s' = {}"
        by blast
      have "sys_run ord s ((u, a) # as) = Some s'" using s1(1) as(1) by simp
      moreover have "\<forall>(tid, a) \<in> set ((u, a) # as). a = Go \<or> a = Finish" using s1(2) as(2) by simp
      ultimately show ?thesis using as(3) by blast
    qed (force intro: exI [of _ "[]"])
  qed
qed

lemma no_endless_run:
  assumes run: "\<And>i. \<exists>u a. (a = Go \<or> a = Finish) \<and> sys_step ord (f i) (u, a) = Some (f (Suc i))"
    and fin: "finite (running (f 0))"
  shows False
proof -
  have "finite (running (f i))" for i
    using fin run work_decreases(1) by (induction i) (simp, metis)
  then have "(work (f (Suc i)), work (f i)) \<in> mult1 {(c', c). continues c' c}" for i
    using run [of i] work_decreases(2) by metis
  moreover have "\<not> (\<exists>g. \<forall>i. (g (Suc i), g i) \<in> mult1 {(c', c). continues c' (c :: Reply Code)})"
    using wf_mult1 [OF wf_continues] unfolding wf_iff_no_infinite_down_chain .
  ultimately show False by (meson comp_apply)
qed

end
