(* ===== verification/Thread_Effects.thy ===== *)
theory Thread_Effects
  imports Thread_Discipline
begin

text \<open>
  What the instructions of running operations do to the table: every write of a shard keeps the
  shard's invariant and touches the locks of the calling transaction only, so the invariant of the
  manager holds between any two instructions of any threads, and no interleaving lets two
  transactions hold conflicting locks.
\<close>

section \<open>One shard at a time\<close>

definition shard_fits :: "LockManager \<Rightarrow> nat \<Rightarrow> ShardInner \<Rightarrow> bool" where
  "shard_fits mg i sh \<longleftrightarrow> shard_inv sh
     \<and> (\<forall>t r. point_mode sh t r \<noteq> None \<longrightarrow> route mg r = i)
     \<and> (\<forall>s. spans sh s \<noteq> [] \<longrightarrow> route mg s = i)"

lemma shard_ok_fits: "shard_ok mg i \<longleftrightarrow> shard_fits mg i (shard_at mg i)"
  by (simp add: shard_ok_def shard_fits_def)

lemma shard_fitsD:
  assumes "shard_fits mg i sh"
  shows "shard_inv sh" and "point_mode sh t r \<noteq> None \<Longrightarrow> route mg r = i"
    and "spans sh s \<noteq> [] \<Longrightarrow> route mg s = i"
  using assms unfolding shard_fits_def by blast+

lemma route_cong: "bits mg' = bits mg \<Longrightarrow> route mg' = route mg"
  by (simp add: fun_eq_iff route_def shard_index_def)

lemma shard_fits_cong:
  assumes "bits mg' = bits mg"
  shows "shard_fits mg' = shard_fits mg"
  by (simp add: fun_eq_iff shard_fits_def route_cong [OF assms])

lemma manager_inv_fits: "manager_inv mg \<Longrightarrow> i < length (shards mg) \<Longrightarrow> shard_fits mg i (shard_at mg i)"
  using manager_inv_ok shard_ok_fits by blast

lemma shard_at_put:
  "i < length (shards mg) \<Longrightarrow> shard_at (put_shard mg i sh) j = (if j = i then sh else shard_at mg j)"
  by (simp add: shard_at_def put_shard_def)

lemma put_shard_inv:
  assumes inv: "manager_inv mg" and i: "i < length (shards mg)" and sh: "shard_fits mg i sh"
  shows "manager_inv (put_shard mg i sh)"
    and "holds (put_shard mg i sh) t r = (if route mg r = i then point_mode sh t r else holds mg t r)"
    and "range_holders (put_shard mg i sh) s = (if route mg s = i then spans sh s else range_holders mg s)"
proof -
  have fits: "shard_fits (put_shard mg i sh) = shard_fits mg" and rt: "route (put_shard mg i sh) = route mg"
    by (rule shard_fits_cong, simp) (rule route_cong, simp)
  have "shard_ok (put_shard mg i sh) j" if "j < length (shards mg)" for j
    using sh manager_inv_fits [OF inv that] i by (simp add: shard_ok_fits fits shard_at_put)
  then show "manager_inv (put_shard mg i sh)" using inv by (simp add: manager_inv_def)
  show "holds (put_shard mg i sh) t r = (if route mg r = i then point_mode sh t r else holds mg t r)"
    "range_holders (put_shard mg i sh) s = (if route mg s = i then spans sh s else range_holders mg s)"
    using i by (simp_all add: holds_def range_holders_def rt shard_at_put)
qed

section \<open>The locks of one transaction\<close>

text \<open>Everything a transaction holds in a shard, and in the table: modes, and ranges per space.\<close>

definition spans_of :: "TxnId \<Rightarrow> RangeHolder list \<Rightarrow> RangeHolder multiset" where
  "spans_of u hs = filter_mset (\<lambda>h. rh_txn h = u) (mset hs)"

definition shard_locks :: "ShardInner \<Rightarrow> TxnId \<Rightarrow> (ResourceId \<Rightarrow> LockMode option) \<times> (ResourceId \<Rightarrow> RangeHolder multiset)" where
  "shard_locks sh u = (point_mode sh u, \<lambda>s. spans_of u (spans sh s))"

definition locks_of :: "LockManager \<Rightarrow> TxnId \<Rightarrow> (ResourceId \<Rightarrow> LockMode option) \<times> (ResourceId \<Rightarrow> RangeHolder multiset)" where
  "locks_of mg u = (holds mg u, \<lambda>s. spans_of u (range_holders mg s))"

lemma shard_locks_eq:
  "shard_locks sh' u = shard_locks sh u \<longleftrightarrow> (\<forall>r. point_mode sh' u r = point_mode sh u r)
     \<and> (\<forall>s. spans_of u (spans sh' s) = spans_of u (spans sh s))"
  by (simp add: shard_locks_def fun_eq_iff)

lemma locks_of_eq:
  "locks_of mg' u = locks_of mg u \<longleftrightarrow> (\<forall>r. holds mg' u r = holds mg u r)
     \<and> (\<forall>s. spans_of u (range_holders mg' s) = spans_of u (range_holders mg s))"
  by (simp add: locks_of_def fun_eq_iff)

lemma shard_locks_point: "shard_locks sh' u = shard_locks sh u \<Longrightarrow> point_mode sh' u = point_mode sh u"
  by (simp add: shard_locks_def)

lemma locks_of_holds: "locks_of mg' u = locks_of mg u \<Longrightarrow> holds mg' u = holds mg u"
  by (simp add: locks_of_def)

lemma waits_update_locks [simp]: "locks_of (mg\<lparr>waits := w\<rparr>) = locks_of mg"
  by (simp add: fun_eq_iff locks_of_def)

lemma spans_of_swap_remove:
  "i < length hs \<Longrightarrow> rh_txn (hs ! i) \<noteq> u \<Longrightarrow> spans_of u (swap_remove i hs) = spans_of u hs"
  by (simp add: spans_of_def mset_swap_remove)

section \<open>What a write of an operation may do\<close>

text \<open>The write of a transaction in \<open>T\<close> to shard \<open>i\<close>, and to the registry.\<close>

definition shard_write :: "LockManager \<Rightarrow> TxnId set \<Rightarrow> nat \<Rightarrow> (ShardInner \<Rightarrow> ShardInner) \<Rightarrow> bool" where
  "shard_write mg T i f \<longleftrightarrow>
     (\<forall>sh. shard_fits mg i sh \<longrightarrow> shard_fits mg i (f sh) \<and> (\<forall>u. u \<notin> T \<longrightarrow> shard_locks (f sh) u = shard_locks sh u))"

definition waits_write :: "TxnId set \<Rightarrow> (waits_map \<Rightarrow> waits_map) \<Rightarrow> bool" where
  "waits_write T f \<longleftrightarrow> (\<forall>w u. u \<notin> T \<longrightarrow> fmlookup (f w) u = fmlookup w u)"

lemma shard_writeD:
  "shard_write mg T i f \<Longrightarrow> shard_fits mg i sh \<Longrightarrow> shard_fits mg i (f sh)"
  "shard_write mg T i f \<Longrightarrow> shard_fits mg i sh \<Longrightarrow> u \<notin> T \<Longrightarrow> shard_locks (f sh) u = shard_locks sh u"
  by (simp_all add: shard_write_def)

lemma shard_write_cong:
  assumes "bits mg' = bits mg"
  shows "shard_write mg' = shard_write mg"
  by (simp add: fun_eq_iff shard_write_def shard_fits_cong [OF assms])

text \<open>A section that keeps the invariant and works at one resource of the shard.\<close>

lemma shard_writeI:
  assumes "\<And>sh. shard_inv sh \<Longrightarrow> shard_inv (f sh)
      \<and> (\<forall>t r. (t \<notin> T \<or> r \<noteq> res) \<longrightarrow> point_mode (f sh) t r = point_mode sh t r)
      \<and> (\<forall>s. s \<noteq> res \<longrightarrow> spans (f sh) s = spans sh s)
      \<and> (\<forall>u. u \<notin> T \<longrightarrow> spans_of u (spans (f sh) res) = spans_of u (spans sh res))"
  shows "shard_write mg T (route mg res) f"
  unfolding shard_write_def
proof (intro allI impI conjI)
  fix sh assume fits: "shard_fits mg (route mg res) sh"
  from assms [OF shard_fitsD(1) [OF fits]] have eff: "shard_inv (f sh)"
      "\<And>t r. t \<notin> T \<or> r \<noteq> res \<Longrightarrow> point_mode (f sh) t r = point_mode sh t r"
      "\<And>s. s \<noteq> res \<Longrightarrow> spans (f sh) s = spans sh s"
      "\<And>u. u \<notin> T \<Longrightarrow> spans_of u (spans (f sh) res) = spans_of u (spans sh res)" by blast+
  have "route mg r = route mg res" if "point_mode (f sh) t r \<noteq> None" for t r
    using that eff(2) [of t r] shard_fitsD(2) [OF fits, of t r] by (cases "r = res") auto
  moreover have "route mg s = route mg res" if "spans (f sh) s \<noteq> []" for s
    using that eff(3) [of s] shard_fitsD(3) [OF fits, of s] by (cases "s = res") auto
  ultimately show "shard_fits mg (route mg res) (f sh)" using eff(1) unfolding shard_fits_def by blast
  fix u assume u: "u \<notin> T"
  have "spans_of u (spans (f sh) s) = spans_of u (spans sh s)" for s
    using eff(3) [of s] eff(4) [OF u] by (cases "s = res") simp_all
  with u show "shard_locks (f sh) u = shard_locks sh u" using eff(2) by (simp add: shard_locks_eq)
qed

lemma grant_write: "shard_write mg {t} (route mg r) (\<lambda>sh. snd (grant_section t r m sh))"
proof (rule shard_writeI)
  fix sh assume sh: "shard_inv sh"
  obtain g sh' where run: "grant_section t r m sh = (g, sh')" by fastforce
  show "shard_inv (snd (grant_section t r m sh))
      \<and> (\<forall>u q. (u \<notin> {t} \<or> q \<noteq> r) \<longrightarrow> point_mode (snd (grant_section t r m sh)) u q = point_mode sh u q)
      \<and> (\<forall>s. s \<noteq> r \<longrightarrow> spans (snd (grant_section t r m sh)) s = spans sh s)
      \<and> (\<forall>u. u \<notin> {t} \<longrightarrow> spans_of u (spans (snd (grant_section t r m sh)) r) = spans_of u (spans sh r))"
    using grant_section_effect [OF sh run] run by auto
qed

lemma release_write: "shard_write mg {t} (route mg r) (\<lambda>sh. snd (release_section t r sh))"
proof (rule shard_writeI)
  fix sh assume sh: "shard_inv sh"
  then show "shard_inv (snd (release_section t r sh))
      \<and> (\<forall>u q. (u \<notin> {t} \<or> q \<noteq> r) \<longrightarrow> point_mode (snd (release_section t r sh)) u q = point_mode sh u q)
      \<and> (\<forall>s. s \<noteq> r \<longrightarrow> spans (snd (release_section t r sh)) s = spans sh s)
      \<and> (\<forall>u. u \<notin> {t} \<longrightarrow> spans_of u (spans (snd (release_section t r sh)) r) = spans_of u (spans sh r))"
    using release_section_held [OF sh, of t r] release_section_not_held [of sh t r]
    by (cases "point_mode sh t r = None") auto
qed

lemma range_acquire_write: "shard_write mg {t} (route mg s) (\<lambda>sh. snd (range_acquire_section t s rg m sh))"
proof (rule shard_writeI)
  fix sh assume sh: "shard_inv sh"
  then show "shard_inv (snd (range_acquire_section t s rg m sh))
      \<and> (\<forall>u q. (u \<notin> {t} \<or> q \<noteq> s) \<longrightarrow> point_mode (snd (range_acquire_section t s rg m sh)) u q = point_mode sh u q)
      \<and> (\<forall>q. q \<noteq> s \<longrightarrow> spans (snd (range_acquire_section t s rg m sh)) q = spans sh q)
      \<and> (\<forall>u. u \<notin> {t} \<longrightarrow> spans_of u (spans (snd (range_acquire_section t s rg m sh)) s) = spans_of u (spans sh s))"
    using range_acquire_granted [OF sh, of s t rg m] range_acquire_blocked [of sh s t rg m]
    by (cases "range_blocked (spans sh s) t rg m") (auto simp: spans_of_def)
qed

lemma range_release_write: "shard_write mg {t} (route mg s) (\<lambda>sh. snd (range_release_section t s rg sh))"
proof (rule shard_writeI)
  fix sh assume sh: "shard_inv sh"
  then show "shard_inv (snd (range_release_section t s rg sh))
      \<and> (\<forall>u q. (u \<notin> {t} \<or> q \<noteq> s) \<longrightarrow> point_mode (snd (range_release_section t s rg sh)) u q = point_mode sh u q)
      \<and> (\<forall>q. q \<noteq> s \<longrightarrow> spans (snd (range_release_section t s rg sh)) q = spans sh q)
      \<and> (\<forall>u. u \<notin> {t} \<longrightarrow> spans_of u (spans (snd (range_release_section t s rg sh)) s) = spans_of u (spans sh s))"
    using range_release_held [OF sh, of t rg s] range_release_not_held [of t rg sh s]
    by (cases "position (span_at t rg) (spans sh s)")
      (auto dest!: position_SomeD intro!: spans_of_swap_remove simp del: position_None)
qed

lemma release_all_write: "shard_write mg {t} i (\<lambda>sh. snd (release_all_section t sh))"
  unfolding shard_write_def
proof (intro allI impI conjI)
  fix sh assume fits: "shard_fits mg i sh"
  from release_all_section_effect [OF shard_fitsD(1) [OF fits], of t] obtain sh' where
    sh': "snd (release_all_section t sh) = sh'" "shard_inv sh'"
      "\<And>u r. point_mode sh' u r = (if u = t then None else point_mode sh u r)"
      "\<And>s. mset (spans sh' s) = filter_mset (\<lambda>h. rh_txn h \<noteq> t) (mset (spans sh s))" by fastforce
  have "route mg r = i" if "point_mode sh' u r \<noteq> None" for u r
    using that shard_fitsD(2) [OF fits, of u r] by (auto simp: sh'(3) split: if_splits)
  moreover have "route mg s = i" if "spans sh' s \<noteq> []" for s
  proof -
    have "spans sh s \<noteq> []" using sh'(4) [of s] that by auto
    then show ?thesis using shard_fitsD(3) [OF fits] by blast
  qed
  ultimately show "shard_fits mg i (snd (release_all_section t sh))"
    using sh'(1,2) unfolding shard_fits_def by blast
  fix u assume "u \<notin> {t}"
  moreover have "spans_of u (spans sh' s) = spans_of u (spans sh s)" if "u \<noteq> t" for s
    using sh'(4) [of s] that by (simp add: spans_of_def filter_filter_mset conj_commute cong: conj_cong)
  ultimately show "shard_locks (snd (release_all_section t sh)) u = shard_locks sh u"
    using sh'(1,3) by (simp add: shard_locks_eq)
qed

lemma read_write [simp]: "shard_write mg T i (\<lambda>sh. sh)"
  by (simp add: shard_write_def)

lemma waits_writes [simp]:
  "waits_write T (\<lambda>w. w)" "waits_write {t} (fmdrop t)" "waits_write {t} (fmupd t x)"
  by (simp_all add: waits_write_def)

section \<open>Code whose writes are of this kind\<close>

inductive writes :: "LockManager \<Rightarrow> TxnId set \<Rightarrow> 'a Code \<Rightarrow> bool" for mg :: LockManager and T :: "TxnId set" where
  "writes mg T (Return x)"
| "writes mg T Panic"
| "writes mg T k \<Longrightarrow> writes mg T (Lock m k)"
| "writes mg T k \<Longrightarrow> writes mg T (Unlock m k)"
| "shard_write mg T i f \<Longrightarrow> (\<And>sh. writes mg T (k sh)) \<Longrightarrow> writes mg T (On_Shard i f k)"
| "waits_write T f \<Longrightarrow> (\<And>w. writes mg T (k w)) \<Longrightarrow> writes mg T (On_Waits f k)"

inductive_simps writes_simps [simp]:
  "writes mg T (Return x)" "writes mg T Panic" "writes mg T (Lock m k)" "writes mg T (Unlock m k)"
  "writes mg T (On_Shard i f k)" "writes mg T (On_Waits f k)"

lemma section_code_writes [intro!]:
  "shard_write mg T i (\<lambda>sh. snd (crit sh)) \<Longrightarrow> (\<And>x. writes mg T (k x)) \<Longrightarrow> writes mg T (section_code i crit k)"
  by (simp add: section_code_def)

lemma on_resource_writes [intro!]:
  "shard_write mg T (route mg r) (\<lambda>sh. snd (crit sh)) \<Longrightarrow> (\<And>x. writes mg T (k x)) \<Longrightarrow>
   writes mg T (on_resource mg r crit k)"
  by (auto simp: on_resource_def route_def Let_def)

lemma waits_section_writes [intro!]:
  "waits_write T f \<Longrightarrow> (\<And>w. writes mg T (k w)) \<Longrightarrow> writes mg T (waits_section f k)"
  by (simp add: waits_section_def)

lemma release_loop_writes: "writes mg {t} (release_loop t is n)"
  by (induction "is" arbitrary: n) (auto intro: release_all_write)

lemma build_loop_writes: "(\<And>g. writes mg T (k g)) \<Longrightarrow> writes mg T (build_loop mg ws xs g k)"
  by (induction xs arbitrary: g) (auto split: option.splits)

text \<open>The transaction on whose behalf a job runs.\<close>

primrec job_txns :: "Job \<Rightarrow> TxnId set" where
  "job_txns (Change c) = {caller c}"
| "job_txns Find_Deadlock = {}"
| "job_txns Waiting_Count = {}"
| "job_txns (Holder_Count r) = {}"
| "job_txns (Mode_Held t r) = {}"
| "job_txns (Range_Count s) = {}"

lemma job_code_writes: "writes mg (job_txns j) (job_code ord mg j)"
proof (cases j)
  case (Change c)
  then show ?thesis
    by (cases c)
      (auto simp: release_all_code_def request_code_def build_code_def
        intro: grant_write release_write range_acquire_write range_release_write
          release_loop_writes intro!: build_loop_writes)
qed (auto simp: find_deadlock_code_def build_code_def intro: build_loop_writes)

lemma writes_cong:
  assumes "bits mg' = bits mg" and "writes mg T c"
  shows "writes mg' T c"
  using assms(2) by induction (auto simp: shard_write_cong [OF assms(1)])

section \<open>The invariant between any two instructions\<close>

text \<open>
  One instruction of a thread keeps the manager's invariant, and the waits and point locks of the
  transactions that are not the job's.
\<close>

lemma code_step_effect:
  assumes run: "code_step mg own tid c = Some (mg', own', c')" and inv: "manager_inv mg"
    and ord: "ordered (length (shards mg)) {m. own m = Some tid} c" and wr: "writes mg T c"
  shows "manager_inv mg'" and "writes mg' T c'"
    and "u \<notin> T \<Longrightarrow> locks_of mg' u = locks_of mg u" and "u \<notin> T \<Longrightarrow> fmlookup (waits mg') u = fmlookup (waits mg) u"
proof -
  have bits: "bits mg' = bits mg" using code_step_ordered(4) [OF run ord] .
  have "manager_inv mg' \<and> writes mg T c' \<and> (\<forall>u. u \<notin> T \<longrightarrow> locks_of mg' u = locks_of mg u \<and>
      fmlookup (waits mg') u = fmlookup (waits mg) u)"
  proof (cases c)
    case (On_Shard i f k)
    with ord have i: "i < length (shards mg)" by simp
    have fits: "shard_fits mg i (shard_at mg i)" using inv i by (rule manager_inv_fits)
    from On_Shard wr have f: "shard_write mg T i f" by simp
    note fits' = shard_writeD(1) [OF f fits]
    have mg': "mg' = put_shard mg i (f (shard_at mg i))" using run On_Shard by (simp add: shard_at_def)
    have "locks_of mg' u = locks_of mg u" if "u \<notin> T" for u
      using shard_writeD(2) [OF f fits that] put_shard_inv(2,3) [OF inv i fits'] point_mode_shard [OF inv i]
        spans_shard [OF inv i]
      by (simp add: locks_of_eq shard_locks_eq mg')
    with put_shard_inv(1) [OF inv i fits'] run wr On_Shard show ?thesis by (auto simp: mg')
  qed (use run inv wr in \<open>auto simp: waits_write_def split: if_splits\<close>)
  with writes_cong [OF bits] show "manager_inv mg'" "writes mg' T c'"
    "u \<notin> T \<Longrightarrow> locks_of mg' u = locks_of mg u" "u \<notin> T \<Longrightarrow> fmlookup (waits mg') u = fmlookup (waits mg) u"
    by auto
qed

definition thread_writes :: "System \<Rightarrow> nat \<Rightarrow> bool" where
  "thread_writes s tid = (case threads s tid of Idle \<Rightarrow> True | Running j c \<Rightarrow> writes (mgr s) (job_txns j) c)"

definition system_inv :: "System \<Rightarrow> bool" where
  "system_inv s \<longleftrightarrow> ordered_system s \<and> manager_inv (mgr s) \<and> (\<forall>tid. thread_writes s tid)"

lemma system_invD:
  assumes "system_inv s"
  shows "ordered_system s" and "manager_inv (mgr s)"
    and "threads s tid = Running j c \<Longrightarrow> writes (mgr s) (job_txns j) c"
    and "threads s tid = Running j c \<Longrightarrow> ordered (length (shards (mgr s))) {m. owner s m = Some tid} c"
  using assms ordered_runningD [of s tid j c]
  by (auto simp: system_inv_def thread_writes_def held_def dest!: spec [of _ tid])

lemma sys_step_effect:
  assumes run: "sys_step ord s (tid, a) = Some s'" and inv: "system_inv s"
  shows "system_inv s'"
    and "(a = Go \<longrightarrow> (\<forall>j c. threads s tid = Running j c \<longrightarrow> u \<notin> job_txns j)) \<Longrightarrow>
      locks_of (mgr s') u = locks_of (mgr s) u \<and> fmlookup (waits (mgr s')) u = fmlookup (waits (mgr s)) u"
proof -
  note ord = system_invD(1) [OF inv]
  note ord' = sys_step_ordered [OF run ord]
  have step: "manager_inv (mgr s') \<and> thread_writes s' tid \<and> (\<forall>u. (a = Go \<longrightarrow> (\<forall>j c. threads s tid = Running j c \<longrightarrow> u \<notin> job_txns j)) \<longrightarrow>
      locks_of (mgr s') u = locks_of (mgr s) u \<and> fmlookup (waits (mgr s')) u = fmlookup (waits (mgr s)) u)"
  proof (cases a)
    case (Start j)
    with run have "s' = s\<lparr>threads := (threads s)(tid := Running j (job_code ord (mgr s) j))\<rparr>"
      by (auto split: Thread.splits)
    with inv job_code_writes show ?thesis by (auto simp: system_inv_def thread_writes_def)
  next
    case Go
    with run obtain j c mg' own' c' where c: "threads s tid = Running j c"
        "code_step (mgr s) (owner s) tid c = Some (mg', own', c')"
        "s' = \<lparr>mgr = mg', owner = own', threads = (threads s)(tid := Running j c')\<rparr>"
      by (auto split: Thread.splits)
    note eff = code_step_effect [OF c(2) system_invD(2) [OF inv] system_invD(4) [OF inv c(1)]
        system_invD(3) [OF inv c(1)]]
    show ?thesis using eff c(1,3) Go by (simp add: thread_writes_def)
  next
    case Finish
    with run have "s' = s\<lparr>threads := (threads s)(tid := Idle)\<rparr>" by (auto split: Thread.splits Code.splits)
    with inv show ?thesis by (simp add: system_inv_def thread_writes_def)
  qed
  have "thread_writes s' u" for u
  proof (cases "u = tid")
    case False
    with ord'(4) have "threads s' u = threads s u" by blast
    moreover have "thread_writes s u" using inv by (simp add: system_inv_def)
    ultimately show ?thesis using writes_cong [OF ord'(3)] by (auto simp: thread_writes_def split: Thread.splits)
  qed (use step in simp)
  with step ord'(1) show "system_inv s'" by (simp add: system_inv_def)
  show "(a = Go \<longrightarrow> (\<forall>j c. threads s tid = Running j c \<longrightarrow> u \<notin> job_txns j)) \<Longrightarrow>
      locks_of (mgr s') u = locks_of (mgr s) u \<and> fmlookup (waits (mgr s')) u = fmlookup (waits (mgr s)) u"
    using step by blast
qed

lemma fresh_system_inv: "manager_inv mg \<Longrightarrow> system_inv (fresh_system mg)"
  using fresh_system_ordered manager_inv_shape
  by (auto simp: system_inv_def thread_writes_def fresh_system_def)

lemma concurrent_inv: "concurrent ord may s \<Longrightarrow> system_inv s"
proof (induction rule: concurrent.induct)
  case (start oc alloc n mg)
  then show ?case using with_shards_inv(1) by (simp add: fresh_system_inv shard_count_def)
next
  case (step s a tid s')
  then show ?case using sys_step_effect(1) by blast
qed

end
