(* ===== verification/Thread_Atomic.thy ===== *)
theory Thread_Atomic
  imports Thread_Effects
begin

text \<open>
  When an operation takes effect among concurrent ones.  An operation with one critical section
  takes effect at one instant, between its start and its end, and there exactly as if it ran alone.
  \<open>release_all\<close> locks one shard after the other; for its own transaction that makes no difference.
\<close>

section \<open>Runs of threads\<close>

lemma sys_run_append: "sys_run ord s (as @ bs) = Option.bind (sys_run ord s as) (\<lambda>s1. sys_run ord s1 bs)"
  by (induction as arbitrary: s) (auto split: Option.bind_split)

lemma sys_step_frame:
  assumes "sys_step ord s (tid, a) = Some s'" and "system_inv s"
  shows "system_inv s'" and "length (shards (mgr s')) = length (shards (mgr s))"
    and "bits (mgr s') = bits (mgr s)" and "u \<noteq> tid \<Longrightarrow> threads s' u = threads s u"
    and "u \<noteq> tid \<Longrightarrow> owner s' m = Some u \<longleftrightarrow> owner s m = Some u"
  using sys_step_effect(1) [OF assms] sys_step_ordered(2,3) [OF assms(1) system_invD(1) [OF assms(2)]]
    sys_step_ordered(4) [OF assms(1) system_invD(1) [OF assms(2)], of u]
  by (auto simp: held_def)

lemma sys_step_Go:
  assumes "sys_step ord s (tid, Go) = Some s'"
  obtains j c mg' own' c' where "threads s tid = Running j c"
    "code_step (mgr s) (owner s) tid c = Some (mg', own', c')"
    "s' = \<lparr>mgr = mg', owner = own', threads = (threads s)(tid := Running j c')\<rparr>"
  using assms by (auto split: Thread.splits)

lemma sys_step_Start:
  assumes "sys_step ord s (tid, Start j) = Some s'"
  shows "threads s tid = Idle" and "s' = s\<lparr>threads := (threads s)(tid := Running j (job_code ord (mgr s) j))\<rparr>"
  using assms by (auto split: Thread.splits)

lemma sys_step_Finish:
  assumes "sys_step ord s (tid, Finish) = Some s'"
  obtains j r where "threads s tid = Running j (Return r)" "s' = s\<lparr>threads := (threads s)(tid := Idle)\<rparr>"
  using assms by (auto split: Thread.splits Code.splits)

section \<open>Operations that take effect once\<close>

text \<open>
  An operation of thread \<open>tid\<close> that has not taken effect (\<open>before\<close>), takes effect in one of its own
  instructions, with a result and with an effect on the state (\<open>effect\<close>), and then keeps its result
  (\<open>after\<close>).  In a run that ends with its answer there is one instruction at which it took effect.
\<close>

locale commitment =
  fixes ord :: "TxnId set \<Rightarrow> TxnId list" and tid :: nat
    and before :: "System \<Rightarrow> bool" and after :: "'x \<Rightarrow> System \<Rightarrow> bool" and effect :: "System \<Rightarrow> 'x \<Rightarrow> System \<Rightarrow> bool"
  assumes before_step: "sys_step ord s (u, a) = Some s' \<Longrightarrow> system_inv s \<Longrightarrow> before s \<Longrightarrow> (u, a) \<noteq> (tid, Finish) \<Longrightarrow>
      before s' \<or> u = tid \<and> a = Go \<and> (\<exists>x. effect s x s' \<and> after x s')"
    and after_step: "sys_step ord s (u, a) = Some s' \<Longrightarrow> system_inv s \<Longrightarrow> after x s \<Longrightarrow> (u, a) \<noteq> (tid, Finish) \<Longrightarrow> after x s'"
    and before_reply: "before s \<Longrightarrow> system_inv s \<Longrightarrow> reply s tid = None"
begin

lemma after_run:
  assumes "sys_run ord s as = Some s'" and "system_inv s" and "after x s" and "(tid, Finish) \<notin> set as"
  shows "after x s'"
  using assms
proof (induction as arbitrary: s)
  case (Cons a as)
  obtain u b where a: "a = (u, b)" by fastforce
  with Cons.prems obtain s1 where s1: "sys_step ord s (u, b) = Some s1" "sys_run ord s1 as = Some s'"
    by (auto simp: bind_eq_Some_conv)
  with Cons.prems a have "(u, b) \<noteq> (tid, Finish)" by auto
  from Cons.IH [OF s1(2) sys_step_frame(1) [OF s1(1) Cons.prems(2)] after_step [OF s1(1) Cons.prems(2,3) this]]
  show ?case using Cons.prems(4) by simp
qed simp

lemma before_run:
  assumes "sys_run ord s as = Some s'" and "system_inv s" and "before s" and "(tid, Finish) \<notin> set as"
    and "reply s' tid = Some r"
  shows "\<exists>bs cs sa sb x. as = bs @ (tid, Go) # cs \<and> sys_run ord s bs = Some sa
    \<and> sys_step ord sa (tid, Go) = Some sb \<and> effect sa x sb \<and> after x s'"
  using assms
proof (induction as arbitrary: s)
  case Nil
  with before_reply show ?case by force
next
  case (Cons a as)
  obtain u b where a: "a = (u, b)" by fastforce
  with Cons.prems obtain s1 where s1: "sys_step ord s (u, b) = Some s1" "sys_run ord s1 as = Some s'"
    by (auto simp: bind_eq_Some_conv)
  have inv1: "system_inv s1" using sys_step_frame(1) [OF s1(1) Cons.prems(2)] .
  have fin: "(tid, Finish) \<notin> set as" "(u, b) \<noteq> (tid, Finish)" using Cons.prems(4) a by auto
  from before_step [OF s1(1) Cons.prems(2,3) fin(2)] show ?case
  proof (elim disjE conjE exE)
    assume "before s1"
    from Cons.IH [OF s1(2) inv1 this fin(1) Cons.prems(5)] obtain bs cs sa sb x where
      "as = bs @ (tid, Go) # cs" "sys_run ord s1 bs = Some sa" "sys_step ord sa (tid, Go) = Some sb"
      "effect sa x sb" "after x s'" by blast
    with a s1(1) have "a # as = (a # bs) @ (tid, Go) # cs \<and> sys_run ord s (a # bs) = Some sa
        \<and> sys_step ord sa (tid, Go) = Some sb \<and> effect sa x sb \<and> after x s'" by simp
    then show ?thesis by blast
  next
    fix x assume x: "u = tid" "b = Go" "effect s x s1" "after x s1"
    from after_run [OF s1(2) inv1 x(4) fin(1)] x a s1(1)
    have "a # as = [] @ (tid, Go) # as \<and> sys_run ord s [] = Some s
        \<and> sys_step ord s (tid, Go) = Some s1 \<and> effect s x s1 \<and> after x s'" by simp
    then show ?thesis by blast
  qed
qed

end

section \<open>Operations with one critical section\<close>

primrec one_section :: "Job \<Rightarrow> bool" where
  "one_section (Change c) = (case c of Release_All t \<Rightarrow> False | Request t r m \<Rightarrow> False | _ \<Rightarrow> True)"
| "one_section Find_Deadlock = False"
| "one_section Waiting_Count = True"
| "one_section (Holder_Count r) = True"
| "one_section (Mode_Held t r) = True"
| "one_section (Range_Count s) = True"

text \<open>The instruction that does what the operation does when it runs alone.\<close>

definition commits :: "(TxnId set \<Rightarrow> TxnId list) \<Rightarrow> LockManager \<Rightarrow> Job \<Rightarrow> Reply Code \<Rightarrow> bool" where
  "commits ord mg j c \<longleftrightarrow>
     (\<forall>mg1 own tid. manager_inv mg1 \<and> bits mg1 = bits mg \<and> length (shards mg1) = length (shards mg) \<longrightarrow>
        (\<exists>m r mg2. code_step mg1 own tid c = Some (mg2, own, Unlock m (Return r)) \<and> perform ord mg1 j = Some (r, mg2)))"

lemma commits_cong:
  "bits mg' = bits mg \<Longrightarrow> length (shards mg') = length (shards mg) \<Longrightarrow> commits ord mg' j c = commits ord mg j c"
  by (simp add: commits_def)

lemma with_shard_put:
  assumes "shape_ok mg"
  shows "with_shard mg r crit =
    Some (fst (crit (shard_at mg (route mg r))), put_shard mg (route mg r) (snd (crit (shard_at mg (route mg r)))))"
  using lock_shard_Some [OF assms, of r]
  by (simp add: with_shard_def put_shard_def route_def Let_def split: prod.split)

text \<open>A section on the shard of a resource, with an operation that is \<open>with_shard\<close> of that section.\<close>

lemma on_resource_commits:
  assumes shape: "shape_ok mg"
    and perf: "\<And>mg1. perform ord mg1 j = map_option (\<lambda>(x, mg2). (rep x, mg2)) (with_shard mg1 r crit)"
  shows "\<exists>m c. on_resource mg r crit (\<lambda>x. Return (rep x)) = Lock m c \<and> commits ord mg j c"
proof -
  let ?c = "On_Shard (route mg r) (\<lambda>sh. snd (crit sh))
      (\<lambda>sh. Unlock (Shard_Mutex (route mg r)) (Return (rep (fst (crit sh)))))"
  have "on_resource mg r crit (\<lambda>x. Return (rep x)) = Lock (Shard_Mutex (route mg r)) ?c"
    using route_less [OF shape, of r] by (simp add: on_resource_def section_code_def route_def Let_def)
  moreover have "commits ord mg j ?c"
    unfolding commits_def
  proof (intro allI impI)
    fix mg1 own tid
    assume mg1: "manager_inv mg1 \<and> bits mg1 = bits mg \<and> length (shards mg1) = length (shards mg)"
    then have rt: "route mg1 = route mg" by (blast intro: route_cong)
    from mg1 show "\<exists>m q mg2. code_step mg1 own tid ?c = Some (mg2, own, Unlock m (Return q))
        \<and> perform ord mg1 j = Some (q, mg2)"
      by (simp add: perf with_shard_put [OF manager_inv_shape] rt shard_at_def)
  qed
  ultimately show ?thesis by blast
qed

lemma put_shard_same: "put_shard mg i (shard_at mg i) = mg"
  by (simp add: put_shard_def shard_at_def list_update_id)

text \<open>The same for a read of a shard.\<close>

lemma peek_commits:
  assumes shape: "shape_ok mg"
    and perf: "\<And>mg1. perform ord mg1 j = map_option (\<lambda>x. (rep x, mg1)) (read_shard mg1 r look)"
  shows "\<exists>m c. on_resource mg r (peek look) (\<lambda>x. Return (rep x)) = Lock m c \<and> commits ord mg j c"
proof -
  let ?c = "On_Shard (route mg r) (\<lambda>sh. sh) (\<lambda>sh. Unlock (Shard_Mutex (route mg r)) (Return (rep (look sh))))"
  have "on_resource mg r (peek look) (\<lambda>x. Return (rep x)) = Lock (Shard_Mutex (route mg r)) ?c"
    using route_less [OF shape, of r] by (simp add: on_resource_def section_code_def route_def Let_def)
  moreover have "commits ord mg j ?c"
    unfolding commits_def
  proof (intro allI impI)
    fix mg1 own tid
    assume mg1: "manager_inv mg1 \<and> bits mg1 = bits mg \<and> length (shards mg1) = length (shards mg)"
    then have rt: "route mg1 = route mg" by (blast intro: route_cong)
    from mg1 show "\<exists>m q mg2. code_step mg1 own tid ?c = Some (mg2, own, Unlock m (Return q))
        \<and> perform ord mg1 j = Some (q, mg2)"
      using put_shard_same [of mg1 "route mg r"] by (simp add: perf read_shard_Some rt shard_at_def)
  qed
  ultimately show ?thesis by blast
qed

lemma waits_section_commits:
  assumes perf: "\<And>mg1. perform ord mg1 j = Some (rep (waits mg1), mg1\<lparr>waits := f (waits mg1)\<rparr>)"
  shows "\<exists>m c. waits_section f (\<lambda>w. Return (rep w)) = Lock m c \<and> commits ord mg j c"
  by (auto simp: waits_section_def commits_def perf)

lemma one_section_code:
  assumes shape: "shape_ok mg" and one: "one_section j"
  shows "\<exists>m c. job_code ord mg j = Lock m c \<and> commits ord mg j c"
proof (cases j)
  case (Change call)
  show ?thesis
  proof (cases call)
    case (Try_Acquire t r m)
    show ?thesis unfolding Change Try_Acquire job_code.simps call_code.simps one_section_code_defs
      by (rule on_resource_commits [OF shape]) (simp add: try_acquire_def option.map_comp comp_def split_def map_prod_def)
  next
    case (Release_One t r)
    show ?thesis unfolding Change Release_One job_code.simps call_code.simps one_section_code_defs
      by (rule on_resource_commits [OF shape]) (simp add: release_def option.map_comp comp_def split_def map_prod_def)
  next
    case (Cancel_Wait t)
    show ?thesis unfolding Change Cancel_Wait job_code.simps call_code.simps one_section_code_defs
      by (rule waits_section_commits) (simp add: cancel_wait_def)
  next
    case (Try_Acquire_Range t s rg m)
    show ?thesis unfolding Change Try_Acquire_Range job_code.simps call_code.simps one_section_code_defs
      by (rule on_resource_commits [OF shape]) (simp add: try_acquire_range_def option.map_comp comp_def split_def map_prod_def)
  next
    case (Release_Range t s rg)
    show ?thesis unfolding Change Release_Range job_code.simps call_code.simps one_section_code_defs
      by (rule on_resource_commits [OF shape]) (simp add: release_range_def option.map_comp comp_def split_def map_prod_def)
  qed (use one Change in simp_all)
next
  case Waiting_Count
  show ?thesis unfolding Waiting_Count job_code.simps one_section_code_defs
    by (rule waits_section_commits) (simp add: waiting_count_def)
next
  case (Holder_Count r)
  show ?thesis unfolding Holder_Count job_code.simps one_section_code_defs
    by (rule peek_commits [OF shape]) (simp add: holder_count_def)
next
  case (Mode_Held t r)
  show ?thesis unfolding Mode_Held job_code.simps one_section_code_defs
    by (rule peek_commits [OF shape]) (simp add: mode_held_def)
next
  case (Range_Count s)
  show ?thesis unfolding Range_Count job_code.simps one_section_code_defs
    by (rule peek_commits [OF shape]) (simp add: range_count_def)
qed (use one in simp)

text \<open>Before and after that instruction.\<close>

definition pending :: "(TxnId set \<Rightarrow> TxnId list) \<Rightarrow> System \<Rightarrow> nat \<Rightarrow> Job \<Rightarrow> bool" where
  "pending ord s tid j \<longleftrightarrow>
     (\<exists>c. commits ord (mgr s) j c \<and> (threads s tid = Running j c \<or> (\<exists>m. threads s tid = Running j (Lock m c))))"

definition answered :: "System \<Rightarrow> nat \<Rightarrow> Job \<Rightarrow> Reply \<Rightarrow> bool" where
  "answered s tid j r \<longleftrightarrow>
     threads s tid = Running j (Return r) \<or> (\<exists>m. threads s tid = Running j (Unlock m (Return r)))"

lemma commits_step:
  "commits ord mg j c \<Longrightarrow> manager_inv mg \<Longrightarrow>
   \<exists>m r mg2. code_step mg own tid c = Some (mg2, own, Unlock m (Return r)) \<and> perform ord mg j = Some (r, mg2)"
  unfolding commits_def by blast

lemma commits_not_return:
  assumes "commits ord mg j c" and "manager_inv mg"
  shows "c \<noteq> Return r"
  using commits_step [OF assms, of "\<lambda>m. Some 0" 0] by auto

lemma pending_reply:
  assumes "pending ord s tid j" and "system_inv s"
  shows "reply s tid = None"
  using assms commits_not_return [OF _ system_invD(2) [OF assms(2)]]
  by (auto simp: pending_def reply_def split: Code.splits)

lemma pending_step:
  assumes run: "sys_step ord s (u, a) = Some s'" and inv: "system_inv s" and p: "pending ord s tid j"
    and a: "(u, a) \<noteq> (tid, Finish)"
  shows "pending ord s' tid j \<and> (u = tid \<longrightarrow> mgr s' = mgr s)
    \<or> (u = tid \<and> a = Go \<and> (\<exists>r. perform ord (mgr s) j = Some (r, mgr s') \<and> answered s' tid j r))"
proof -
  note fr = sys_step_frame [OF run inv]
  from p obtain c where c: "commits ord (mgr s) j c"
      "threads s tid = Running j c \<or> (\<exists>m. threads s tid = Running j (Lock m c))"
    by (auto simp: pending_def)
  have c': "commits ord (mgr s') j c" using c(1) commits_cong [OF fr(3,2)] by simp
  show ?thesis
  proof (cases "u = tid")
    case False
    with fr(4) [of tid] have "threads s' tid = threads s tid" by auto
    with c(2) c' False show ?thesis by (auto simp: pending_def)
  next
    case True
    with a c(2) run have go: "a = Go" by (cases a) auto
    with run True have "sys_step ord s (tid, Go) = Some s'" by blast
    then obtain j1 c1 mg' own' c2 where st: "threads s tid = Running j1 c1"
        "code_step (mgr s) (owner s) tid c1 = Some (mg', own', c2)"
        "s' = \<lparr>mgr = mg', owner = own', threads = (threads s)(tid := Running j1 c2)\<rparr>"
      by (rule sys_step_Go)
    from c(2) st(1) consider (at) "j1 = j" "c1 = c" | (lock) m where "j1 = j" "c1 = Lock m c" by auto
    then show ?thesis
    proof cases
      case at
      with commits_step [OF c(1) system_invD(2) [OF inv], of "owner s" tid] st True go show ?thesis
        by (auto simp: answered_def)
    next
      case lock
      with st c' show ?thesis by (auto simp: pending_def split: if_splits)
    qed
  qed
qed

lemma answered_step:
  assumes run: "sys_step ord s (u, a) = Some s'" and inv: "system_inv s" and p: "answered s tid j r"
    and a: "(u, a) \<noteq> (tid, Finish)"
  shows "answered s' tid j r"
proof (cases "u = tid")
  case False
  with sys_step_frame(4) [OF run inv, of tid] have "threads s' tid = threads s tid" by auto
  with p show ?thesis by (simp add: answered_def)
next
  case True
  with a p run have "a = Go" by (cases a) (auto simp: answered_def)
  with True run p show ?thesis by (auto simp: answered_def split: Thread.splits)
qed

lemma answered_step_mgr:
  "sys_step ord s (tid, Go) = Some s' \<Longrightarrow> answered s tid j r \<Longrightarrow> mgr s' = mgr s"
  by (auto simp: answered_def)

text \<open>Hence in a run that ends with the answer, that instruction was executed once.\<close>

interpretation one_commit: commitment ord tid "\<lambda>s. pending ord s tid j" "\<lambda>r s. answered s tid j r"
  "\<lambda>s r s'. perform ord (mgr s) j = Some (r, mgr s')" for ord tid j
  by unfold_locales (use pending_step answered_step pending_reply in blast)+

lemma pending_run:
  assumes "sys_run ord s as = Some s'" and "system_inv s" and "pending ord s tid j" and "(tid, Finish) \<notin> set as"
    and "reply s' tid = Some r"
  shows "\<exists>bs cs sa sb. as = bs @ (tid, Go) # cs \<and> sys_run ord s bs = Some sa
    \<and> sys_step ord sa (tid, Go) = Some sb \<and> perform ord (mgr sa) j = Some (r, mgr sb)"
proof -
  from one_commit.before_run [OF assms] obtain bs cs sa sb q where
    run: "as = bs @ (tid, Go) # cs" "sys_run ord s bs = Some sa" "sys_step ord sa (tid, Go) = Some sb"
      "perform ord (mgr sa) j = Some (q, mgr sb)" and q: "answered s' tid j q" by blast
  from q assms(5) have "q = r" by (auto simp: answered_def reply_def)
  with run show ?thesis by blast
qed

lemma started_pending:
  assumes "sys_step ord s (tid, Start j) = Some s'" and "system_inv s" and "one_section j"
  shows "pending ord s' tid j"
  using sys_step_Start [OF assms(1)] one_section_code [OF manager_inv_shape [OF system_invD(2) [OF assms(2)]] assms(3), of ord]
  by (auto simp: pending_def)

section \<open>Releasing everything, one shard after the other\<close>

text \<open>The locks of \<open>t\<close> in \<open>mg\<close> are those in \<open>mg0\<close>, less the first \<open>i\<close> shards.\<close>

definition partly_released :: "LockManager \<Rightarrow> TxnId \<Rightarrow> nat \<Rightarrow> LockManager \<Rightarrow> bool" where
  "partly_released mg0 t i mg \<longleftrightarrow>
     (\<forall>r. holds mg t r = (if route mg0 r < i then None else holds mg0 t r))
     \<and> (\<forall>s. spans_of t (range_holders mg s) = (if route mg0 s < i then {#} else spans_of t (range_holders mg0 s)))"

definition released_in :: "LockManager \<Rightarrow> TxnId \<Rightarrow> nat \<Rightarrow> nat" where
  "released_in mg0 t i = (\<Sum>k<i. locks_held (shard_at mg0 k) t)"

definition releasing :: "LockManager \<Rightarrow> TxnId \<Rightarrow> LockManager \<Rightarrow> Reply Code \<Rightarrow> bool" where
  "releasing mg0 t mg c \<longleftrightarrow>
     (let N = length (shards mg0); loop = (\<lambda>i. release_loop t [i..<N] (released_in mg0 t i)) in
      partly_released mg0 t 0 mg \<and> (c = Lock Waits (On_Waits (fmdrop t) (\<lambda>w. Unlock Waits (loop 0)))
                                   \<or> c = On_Waits (fmdrop t) (\<lambda>w. Unlock Waits (loop 0)))
      \<or> fmlookup (waits mg) t = None \<and> (\<exists>i \<le> N. partly_released mg0 t i mg
          \<and> (c = loop i \<or> (\<exists>m. c = Unlock m (loop i))
             \<or> i < N \<and> c = On_Shard i (\<lambda>sh. snd (release_all_section t sh))
                 (\<lambda>sh. Unlock (Shard_Mutex i)
                   (release_loop t [Suc i..<N] (released_in mg0 t i + fst (release_all_section t sh)))))))"

lemma size_spans_of: "size (spans_of t hs) = length (filter (\<lambda>h. rh_txn h = t) hs)"
  by (simp add: spans_of_def flip: mset_filter)

lemma locks_held_cong:
  assumes "shard_inv sh" and "shard_inv sh'" and same: "shard_locks sh t = shard_locks sh' t"
  shows "locks_held sh t = locks_held sh' t"
proof -
  have points: "point_mode sh t = point_mode sh' t" using same by (rule shard_locks_point)
  have spans: "spans_of t (spans sh s) = spans_of t (spans sh' s)" for s
    using same by (simp add: shard_locks_eq)
  have "(\<Sum>s\<in>{s. spans x s \<noteq> []}. length (filter (\<lambda>h. rh_txn h = t) (spans x s))) =
      (\<Sum>s\<in>{s. spans_of t (spans x s) \<noteq> {#}}. size (spans_of t (spans x s)))" for x
  proof (rule sum.mono_neutral_cong_right)
    show "finite {s. spans x s \<noteq> []}" by (rule finite_spans)
  qed (auto simp: size_spans_of spans_of_def simp flip: mset_filter)
  then show ?thesis
    using point_vec_length [OF assms(1), of t] span_vec_length [OF assms(1), of t]
      point_vec_length [OF assms(2), of t] span_vec_length [OF assms(2), of t]
    by (simp add: locks_held_def points spans)
qed

lemma partly_released_step:
  assumes inv0: "manager_inv mg0" and inv: "manager_inv mg" and bits: "bits mg = bits mg0"
    and len: "length (shards mg) = length (shards mg0)"
    and part: "partly_released mg0 t i mg" and i: "i < length (shards mg0)"
  shows "partly_released mg0 t (Suc i) (put_shard mg i (snd (release_all_section t (shard_at mg i))))"
    and "released_in mg0 t (Suc i) = released_in mg0 t i + fst (release_all_section t (shard_at mg i))"
proof -
  have i': "i < length (shards mg)" using i len by simp
  note fits = manager_inv_fits [OF inv i'] and rt = route_cong [OF bits]
  obtain sh' where sh': "release_all_section t (shard_at mg i) = (locks_held (shard_at mg i) t, sh')"
      "\<And>r. point_mode sh' t r = None"
      "\<And>s. mset (spans sh' s) = filter_mset (\<lambda>h. rh_txn h \<noteq> t) (mset (spans (shard_at mg i) s))"
    using release_all_section_effect [OF shard_fitsD(1) [OF fits], of t] by auto
  have empty: "spans_of t (spans sh' s) = {#}" for s
    using sh'(3) [of s] by (simp add: spans_of_def filter_filter_mset)
  have "shard_fits mg i sh'" using shard_writeD(1) [OF release_all_write fits, of t] sh'(1) by simp
  note put = put_shard_inv(2,3) [OF inv i' this]
  show "partly_released mg0 t (Suc i) (put_shard mg i (snd (release_all_section t (shard_at mg i))))"
    using part by (auto simp: partly_released_def sh' put rt empty less_Suc_eq)
  have "shard_locks (shard_at mg i) t = shard_locks (shard_at mg0 i) t"
    using part by (auto simp: shard_locks_eq point_mode_shard [OF inv i'] point_mode_shard [OF inv0 i]
        spans_shard [OF inv i'] spans_shard [OF inv0 i] partly_released_def rt)
  then have "locks_held (shard_at mg i) t = locks_held (shard_at mg0 i) t"
    using locks_held_cong shard_fitsD(1) [OF fits] shard_fitsD(1) [OF manager_inv_fits [OF inv0 i]] by blast
  then show "released_in mg0 t (Suc i) = released_in mg0 t i + fst (release_all_section t (shard_at mg i))"
    by (simp add: released_in_def sh'(1))
qed

text \<open>An instruction of the release itself.\<close>

lemma releasing_own:
  assumes run: "code_step mg own tid c = Some (mg', own', c')" and rel: "releasing mg0 t mg c"
    and inv0: "manager_inv mg0" and inv: "manager_inv mg" and bits: "bits mg = bits mg0"
    and len: "length (shards mg) = length (shards mg0)"
  shows "releasing mg0 t mg' c'"
proof -
  let ?N = "length (shards mg0)" let ?loop = "\<lambda>i. release_loop t [i..<?N] (released_in mg0 t i)"
  from rel consider
      (start) "partly_released mg0 t 0 mg" "c = Lock Waits (On_Waits (fmdrop t) (\<lambda>w. Unlock Waits (?loop 0)))"
    | (wait) "partly_released mg0 t 0 mg" "c = On_Waits (fmdrop t) (\<lambda>w. Unlock Waits (?loop 0))"
    | (loop) i where "fmlookup (waits mg) t = None" "i \<le> ?N" "partly_released mg0 t i mg" "c = ?loop i"
    | (unlock) i m where "fmlookup (waits mg) t = None" "i \<le> ?N" "partly_released mg0 t i mg" "c = Unlock m (?loop i)"
    | (shard) i where "fmlookup (waits mg) t = None" "i < ?N" "partly_released mg0 t i mg"
        "c = On_Shard i (\<lambda>sh. snd (release_all_section t sh)) (\<lambda>sh. Unlock (Shard_Mutex i)
           (release_loop t [Suc i..<?N] (released_in mg0 t i + fst (release_all_section t sh))))"
    unfolding releasing_def Let_def by blast
  then show ?thesis
  proof cases
    case start
    with run show ?thesis by (auto simp: releasing_def Let_def split: if_splits)
  next
    case wait
    with run have "partly_released mg0 t 0 mg'" "fmlookup (waits mg') t = None" "c' = Unlock Waits (?loop 0)"
      by (auto simp: partly_released_def)
    then show ?thesis unfolding releasing_def Let_def by blast
  next
    case loop
    with run have "i < ?N" by (cases "i = ?N") auto
    with loop run have "mg' = mg" "c' = On_Shard i (\<lambda>sh. snd (release_all_section t sh))
        (\<lambda>sh. Unlock (Shard_Mutex i)
          (release_loop t [Suc i..<?N] (released_in mg0 t i + fst (release_all_section t sh))))"
      by (auto simp: upt_rec [of i] section_code_def split: if_splits)
    with loop(1,2,3) \<open>i < ?N\<close> show ?thesis unfolding releasing_def Let_def by blast
  next
    case unlock
    with run show ?thesis by (auto simp: releasing_def Let_def)
  next
    case shard
    note part = partly_released_step [OF inv0 inv bits len shard(3,2)]
    from shard run part(1) have "partly_released mg0 t (Suc i) mg'" "fmlookup (waits mg') t = None"
        "c' = Unlock (Shard_Mutex i) (?loop (Suc i))"
      by (auto simp: shard_at_def part(2))
    with shard(2) show ?thesis unfolding releasing_def Let_def using Suc_leI by blast
  qed
qed

text \<open>Steps of threads that do not work for the transaction.\<close>

lemma releasing_other:
  assumes "releasing mg0 t mg c" and "locks_of mg' t = locks_of mg t"
    and "fmlookup (waits mg') t = fmlookup (waits mg) t"
  shows "releasing mg0 t mg' c"
proof -
  have "partly_released mg0 t i mg' = partly_released mg0 t i mg" for i
    using assms(2) by (simp add: partly_released_def locks_of_eq)
  with assms(1,3) show ?thesis by (simp add: releasing_def)
qed

definition works_alone :: "System \<Rightarrow> nat \<Rightarrow> TxnId \<Rightarrow> bool" where
  "works_alone s tid t \<longleftrightarrow> (\<forall>u j c. u \<noteq> tid \<longrightarrow> threads s u = Running j c \<longrightarrow> t \<notin> job_txns j)"

definition starts_for :: "(nat \<times> Action) list \<Rightarrow> TxnId \<Rightarrow> bool" where
  "starts_for as t \<longleftrightarrow> (\<exists>u j. (u, Start j) \<in> set as \<and> t \<in> job_txns j)"

lemma works_alone_step:
  assumes run: "sys_step ord s (u, a) = Some s'" and alone: "works_alone s tid t"
    and a: "\<forall>j. a = Start j \<longrightarrow> t \<notin> job_txns j"
  shows "works_alone s' tid t"
proof (cases a)
  case (Start j)
  with sys_step_Start [OF run [unfolded Start]] alone a show ?thesis by (auto simp: works_alone_def)
next
  case Go
  from run [unfolded this] obtain j c mg' own' c' where "threads s u = Running j c"
      "s' = \<lparr>mgr = mg', owner = own', threads = (threads s)(u := Running j c')\<rparr>" by (rule sys_step_Go)
  with alone show ?thesis by (auto simp: works_alone_def)
next
  case Finish
  from run [unfolded this] obtain j r where "s' = s\<lparr>threads := (threads s)(u := Idle)\<rparr>" by (rule sys_step_Finish)
  with alone show ?thesis by (auto simp: works_alone_def)
qed

lemma releasing_run:
  assumes "sys_run ord s as = Some s'" and "system_inv s" and "threads s tid = Running j c"
    and "releasing mg0 t (mgr s) c" and "works_alone s tid t" and "\<not> starts_for as t"
    and "(tid, Finish) \<notin> set as" and "manager_inv mg0" and "bits (mgr s) = bits mg0"
    and "length (shards (mgr s)) = length (shards mg0)"
  shows "system_inv s' \<and> (\<exists>c'. threads s' tid = Running j c' \<and> releasing mg0 t (mgr s') c')"
  using assms
proof (induction as arbitrary: s c)
  case (Cons x as)
  obtain u a where x: "x = (u, a)" by fastforce
  with Cons.prems(1) obtain s1 where s1: "sys_step ord s (u, a) = Some s1" "sys_run ord s1 as = Some s'"
    by (auto simp: bind_eq_Some_conv)
  note fr = sys_step_frame [OF s1(1) Cons.prems(2)]
  have st: "\<forall>j. a = Start j \<longrightarrow> t \<notin> job_txns j" and no: "\<not> starts_for as t" and fin: "(tid, Finish) \<notin> set as"
    using Cons.prems(6,7) x by (auto simp: starts_for_def)
  have alone: "works_alone s1 tid t" using works_alone_step [OF s1(1) Cons.prems(5) st] .
  have "\<exists>c1. threads s1 tid = Running j c1 \<and> releasing mg0 t (mgr s1) c1"
  proof (cases "u = tid")
    case True
    with Cons.prems(3,7) s1(1) x have "a = Go" by (cases a) auto
    with s1(1) True have "sys_step ord s (tid, Go) = Some s1" by simp
    then obtain j1 c1 mg' own' c2 where st: "threads s tid = Running j1 c1"
        "code_step (mgr s) (owner s) tid c1 = Some (mg', own', c2)"
        "s1 = \<lparr>mgr = mg', owner = own', threads = (threads s)(tid := Running j1 c2)\<rparr>" by (rule sys_step_Go)
    with Cons.prems(3) have "j1 = j" "c1 = c" by auto
    with st releasing_own [OF _ Cons.prems(4,8) system_invD(2) [OF Cons.prems(2)] Cons.prems(9,10)]
    show ?thesis by auto
  next
    case False
    have "\<forall>j c. threads s u = Running j c \<longrightarrow> t \<notin> job_txns j"
      using Cons.prems(5) False by (simp add: works_alone_def)
    with sys_step_effect(2) [OF s1(1) Cons.prems(2)] have "locks_of (mgr s1) t = locks_of (mgr s) t"
        "fmlookup (waits (mgr s1)) t = fmlookup (waits (mgr s)) t" by auto
    with releasing_other [OF Cons.prems(4)] fr(4) [of tid] False Cons.prems(3) show ?thesis by auto
  qed
  then obtain c1 where c1: "threads s1 tid = Running j c1" "releasing mg0 t (mgr s1) c1" by blast
  from Cons.IH [OF s1(2) fr(1) c1 alone no fin Cons.prems(8)] fr(2,3) Cons.prems(9,10) show ?case by simp
qed auto

lemma releasing_done:
  assumes "releasing mg0 t mg (Return r)" and inv0: "manager_inv mg0"
  shows "r = Answer (Count (lock_total mg0 t))" and "holds mg t q = None"
    and "spans_of t (range_holders mg s) = {#}" and "fmlookup (waits mg) t = None"
proof -
  let ?N = "length (shards mg0)"
  from assms(1) obtain i where i: "i \<le> ?N" "partly_released mg0 t i mg" "fmlookup (waits mg) t = None"
      "Return r = release_loop t [i..<?N] (released_in mg0 t i)"
    unfolding releasing_def Let_def by auto
  then have N: "i = ?N" by (cases "i = ?N") (auto simp: upt_rec [of i] section_code_def)
  with i(4) show "r = Answer (Count (lock_total mg0 t))"
    using sum_locks_held [OF inv0, of t] by (simp add: released_in_def)
  show "holds mg t q = None" "spans_of t (range_holders mg s) = {#}"
    using i(2) N route_less [OF manager_inv_shape [OF inv0]] by (simp_all add: partly_released_def)
  show "fmlookup (waits mg) t = None" by (rule i(3))
qed

lemma releasing_start: "releasing mg t mg (release_all_code mg t)"
  by (simp add: releasing_def Let_def release_all_code_def waits_section_def partly_released_def released_in_def)

end
