(* ===== verification/Thread_Clients.thy ===== *)
theory Thread_Clients
  imports Thread_Atomic
begin

text \<open>
  Clients that follow the documentation of \<open>request\<close> (\<open>src/src/manager.rs\<close>): a transaction is worked for
  by one thread at a time, and while it is registered as waiting it takes and gives back no point
  locks behind the registry's back; it may be asked for again, cancelled or aborted, by any thread.
  Under this discipline the locks of registered transactions stand still while somebody holds the
  registry, although nobody locks the whole table.
\<close>

section \<open>The discipline\<close>

definition unfinished :: "System \<Rightarrow> nat \<Rightarrow> bool" where
  "unfinished s tid = (case threads s tid of Running j (Return r) \<Rightarrow> False | Idle \<Rightarrow> False | _ \<Rightarrow> True)"

definition jobs_txns :: "System \<Rightarrow> nat \<Rightarrow> TxnId set" where
  "jobs_txns s tid = (case threads s tid of Running j c \<Rightarrow> job_txns j | Idle \<Rightarrow> {})"

definition suspended_ok :: "System \<Rightarrow> Job \<Rightarrow> bool" where
  "suspended_ok s j =
     (case j of
        Change (Try_Acquire t r m) \<Rightarrow> t \<notin> fmdom' (waits (mgr s))
      | Change (Release_One t r) \<Rightarrow> t \<notin> fmdom' (waits (mgr s))
      | _ \<Rightarrow> True)"

definition client_ok :: "System \<Rightarrow> nat \<Rightarrow> Job \<Rightarrow> bool" where
  "client_ok s tid j \<longleftrightarrow> (\<forall>u. unfinished s u \<longrightarrow> job_txns j \<inter> jobs_txns s u = {}) \<and> suspended_ok s j"

section \<open>Code that leaves a suspended transaction alone\<close>

text \<open>Code that does not touch the registry.\<close>

inductive waitless :: "'a Code \<Rightarrow> bool" where
  "waitless (Return x)"
| "waitless k \<Longrightarrow> waitless (Lock (Shard_Mutex i) k)"
| "waitless k \<Longrightarrow> waitless (Unlock (Shard_Mutex i) k)"
| "(\<And>sh. waitless (k sh)) \<Longrightarrow> waitless (On_Shard i f k)"

inductive_simps waitless_simps [simp]:
  "waitless (Return x)" "waitless Panic" "waitless (Lock m k)" "waitless (Unlock m k)"
  "waitless (On_Shard i f k)" "waitless (On_Waits f k)"

definition keeps_modes :: "LockManager \<Rightarrow> TxnId \<Rightarrow> nat \<Rightarrow> (ShardInner \<Rightarrow> ShardInner) \<Rightarrow> bool" where
  "keeps_modes mg t i f \<longleftrightarrow> (\<forall>sh. shard_fits mg i sh \<longrightarrow> point_mode (f sh) t = point_mode sh t)"

text \<open>
  \<open>calm mg b t h c\<close>: outside the registry (\<open>h = None\<close>) the code leaves the modes of \<open>t\<close> alone until it
  locks the registry; inside it (\<open>h = Some w\<close>, with contents \<open>w\<close>) it does so too unless \<open>b\<close>, which
  marks the code of \<open>request\<close>; and if it changes them after leaving the registry, then it has removed
  \<open>t\<close> from it.  Only the code of \<open>request\<close> registers anybody.
\<close>

inductive calm :: "LockManager \<Rightarrow> bool \<Rightarrow> TxnId \<Rightarrow> waits_map option \<Rightarrow> 'a Code \<Rightarrow> bool"
  for mg :: LockManager and b :: bool and t :: TxnId where
  "calm mg b t None (Return x)"
| "(\<And>w. calm mg b t (Some w) k) \<Longrightarrow> calm mg b t None (Lock Waits k)"
| "calm mg b t h k \<Longrightarrow> calm mg b t h (Lock (Shard_Mutex i) k)"
| "calm mg b t h k \<Longrightarrow> calm mg b t h (Unlock (Shard_Mutex i) k)"
| "calm mg b t None k \<or> fmlookup w t = None \<and> waitless k \<Longrightarrow> calm mg b t (Some w) (Unlock Waits k)"
| "b \<and> h \<noteq> None \<or> keeps_modes mg t i f \<Longrightarrow> (\<And>sh. calm mg b t h (k sh)) \<Longrightarrow> calm mg b t h (On_Shard i f k)"
| "b \<or> fmlookup (f w) t = None \<or> fmlookup (f w) t = fmlookup w t \<Longrightarrow>
    calm mg b t (Some (f w)) (k w) \<Longrightarrow> calm mg b t (Some w) (On_Waits f k)"

inductive_simps calm_simps [simp]:
  "calm mg b t h (Return x)" "calm mg b t h Panic" "calm mg b t h (Lock (Shard_Mutex i) k)"
  "calm mg b t h (Lock Waits k)" "calm mg b t h (Unlock (Shard_Mutex i) k)" "calm mg b t h (Unlock Waits k)"
  "calm mg b t h (On_Shard i f k)" "calm mg b t h (On_Waits f k)"

lemma keeps_modes_id [simp]: "keeps_modes mg t i (\<lambda>sh. sh)"
  by (simp add: keeps_modes_def)

lemma shard_write_keeps: "shard_write mg T i f \<Longrightarrow> t \<notin> T \<Longrightarrow> keeps_modes mg t i f"
  unfolding keeps_modes_def using shard_writeD(2) shard_locks_point by blast

lemma keeps_modes_cong:
  assumes "bits mg' = bits mg"
  shows "keeps_modes mg' = keeps_modes mg"
  by (simp add: fun_eq_iff keeps_modes_def shard_fits_cong [OF assms])

lemma calm_cong:
  assumes "bits mg' = bits mg" and "calm mg b t h c"
  shows "calm mg' b t h c"
  using assms(2) by induction (auto simp: keeps_modes_cong [OF assms(1)])

text \<open>Code that works for other transactions is calm.\<close>

lemma ordered_writes_calm:
  assumes "ordered n H c" and "writes mg T c" and "t \<notin> T"
  shows "(Waits \<notin> H \<longrightarrow> calm mg b t None c) \<and> (\<forall>w. Waits \<in> H \<longrightarrow> calm mg b t (Some w) c)"
  using assms
proof (induction rule: ordered.induct)
  case (ordered_Unlock m H k)
  then show ?case by (cases m) auto
qed (auto simp: waits_write_def intro: shard_write_keeps)

lemma section_code_calm:
  "b \<and> h \<noteq> None \<or> keeps_modes mg t i (\<lambda>sh. snd (crit sh)) \<Longrightarrow> (\<And>x. calm mg b t h (k x)) \<Longrightarrow>
   calm mg b t h (section_code i crit k)"
  by (auto simp: section_code_def)

lemma on_resource_calm:
  "shape_ok mg \<Longrightarrow> b \<and> h \<noteq> None \<or> keeps_modes mg t (route mg r) (\<lambda>sh. snd (crit sh)) \<Longrightarrow>
   (\<And>x. calm mg b t h (k x)) \<Longrightarrow> calm mg b t h (on_resource mg r crit k)"
  using route_less [of mg r] by (auto simp: on_resource_def route_def Let_def intro!: section_code_calm)

lemma waits_section_calm:
  "(\<And>w. calm mg b t None (k w) \<or> fmlookup (f w) t = None \<and> waitless (k w)) \<Longrightarrow>
   (\<And>w. b \<or> fmlookup (f w) t = None \<or> fmlookup (f w) t = fmlookup w t) \<Longrightarrow> calm mg b t None (waits_section f k)"
  by (simp add: waits_section_def)

lemma release_loop_waitless: "waitless (release_loop t is n)"
  by (induction "is" arbitrary: n) (simp_all add: section_code_def)

lemma build_loop_calm:
  "shape_ok mg \<Longrightarrow> (\<And>g. calm mg b t h (k g)) \<Longrightarrow> calm mg b t h (build_loop mg ws xs g k)"
  by (induction xs arbitrary: g) (auto split: option.splits intro!: on_resource_calm)

lemma range_sections_keep_modes:
  "keeps_modes mg t i (\<lambda>sh. snd (range_acquire_section u s rg m sh))"
  "keeps_modes mg t i (\<lambda>sh. snd (range_release_section u s rg sh))"
proof -
  have "point_mode (snd (range_acquire_section u s rg m sh)) = point_mode sh" if "shard_inv sh" for sh
    using range_acquire_granted [OF that, of s u rg m] range_acquire_blocked [of sh s u rg m]
    by (cases "range_blocked (spans sh s) u rg m") auto
  then show "keeps_modes mg t i (\<lambda>sh. snd (range_acquire_section u s rg m sh))"
    using shard_fitsD(1) by (auto simp: keeps_modes_def)
  have "point_mode (snd (range_release_section u s rg sh)) = point_mode sh" if "shard_inv sh" for sh
    using range_release_held [OF that, of u rg s] range_release_not_held [of u rg sh s]
    by (cases "position (span_at u rg) (spans sh s)") auto
  then show "keeps_modes mg t i (\<lambda>sh. snd (range_release_section u s rg sh))"
    using shard_fitsD(1) by (auto simp: keeps_modes_def)
qed

lemma on_resource_waitless:
  "shape_ok mg \<Longrightarrow> (\<And>x. waitless (k x)) \<Longrightarrow> waitless (on_resource mg r crit k)"
  using route_less [of mg r] by (simp add: on_resource_def section_code_def route_def Let_def)

primrec is_request :: "Job \<Rightarrow> bool" where
  "is_request (Change c) = (case c of Request t r m \<Rightarrow> True | _ \<Rightarrow> False)"
| "is_request Find_Deadlock = False"
| "is_request Waiting_Count = False"
| "is_request (Holder_Count r) = False"
| "is_request (Mode_Held t r) = False"
| "is_request (Range_Count s) = False"

text \<open>A job started under the discipline is calm, or its transaction is not registered.\<close>

lemma job_code_calm:
  assumes shape: "shape_ok (mgr s)" and ok: "suspended_ok s j"
  shows "calm (mgr s) (is_request j) t None (job_code ord (mgr s) j)
    \<or> t \<in> job_txns j \<and> t \<notin> fmdom' (waits (mgr s)) \<and> waitless (job_code ord (mgr s) j)"
proof (cases "t \<in> job_txns j")
  case False
  then show ?thesis
    using ordered_writes_calm [OF job_code_ordered [OF shape, of ord j] job_code_writes [of "mgr s" j ord] False] by auto
next
  case True
  note on_resource_calm [OF shape, simp] section_code_calm [simp] waits_section_calm [simp]
    build_loop_calm [OF shape, simp] range_sections_keep_modes [simp] release_loop_waitless [simp]
    on_resource_waitless [OF shape, simp]
  show ?thesis
  proof (cases j)
    case (Change c)
    show ?thesis
    proof (cases c)
      case (Try_Acquire u r m)
      with Change True ok show ?thesis by (simp add: suspended_ok_def)
    next
      case (Release_One u r)
      with Change True ok show ?thesis by (simp add: suspended_ok_def)
    qed (use Change True in \<open>simp_all add: release_all_code_def request_code_def build_code_def\<close>)
  qed (use True in simp_all)
qed

section \<open>What the discipline gives\<close>

text \<open>
  Of every running thread: if it holds the registry its code is calm for everybody; if not, it is
  calm for everybody but perhaps its own transaction, which is then not registered.
\<close>

definition calm_at :: "LockManager \<Rightarrow> bool \<Rightarrow> TxnId set \<Rightarrow> bool \<Rightarrow> Reply Code \<Rightarrow> bool" where
  "calm_at mg b T held_waits c \<longleftrightarrow>
     (if held_waits then \<forall>t. calm mg b t (Some (waits mg)) c
      else \<forall>t. calm mg b t None c \<or> t \<in> T \<and> t \<notin> fmdom' (waits mg) \<and> waitless c)"

lemma calm_at_simps [simp]:
  "calm_at mg b T True c \<longleftrightarrow> (\<forall>t. calm mg b t (Some (waits mg)) c)"
  "calm_at mg b T False c \<longleftrightarrow> (\<forall>t. calm mg b t None c \<or> t \<in> T \<and> t \<notin> fmdom' (waits mg) \<and> waitless c)"
  by (simp_all add: calm_at_def)

definition thread_calm :: "System \<Rightarrow> nat \<Rightarrow> bool" where
  "thread_calm s tid =
     (case threads s tid of
        Idle \<Rightarrow> True
      | Running j c \<Rightarrow> calm_at (mgr s) (is_request j) (job_txns j) (owner s Waits = Some tid) c)"

definition exclusive :: "System \<Rightarrow> bool" where
  "exclusive s \<longleftrightarrow> (\<forall>u v. u \<noteq> v \<longrightarrow> unfinished s u \<longrightarrow> unfinished s v \<longrightarrow> jobs_txns s u \<inter> jobs_txns s v = {})"

definition client_inv :: "System \<Rightarrow> bool" where
  "client_inv s \<longleftrightarrow> system_inv s \<and> exclusive s \<and> (\<forall>tid. thread_calm s tid)"

lemma unfinished_Running: "threads s tid = Running j c \<Longrightarrow> unfinished s tid \<longleftrightarrow> (\<forall>r. c \<noteq> Return r)"
  by (simp add: unfinished_def split: Code.splits)

lemma unfinished_cong: "threads s' u = threads s u \<Longrightarrow> unfinished s' u = unfinished s u \<and> jobs_txns s' u = jobs_txns s u"
  by (simp add: unfinished_def jobs_txns_def)

lemma code_step_unfinished: "code_step mg own tid c = Some z \<Longrightarrow> c \<noteq> Return r"
  by auto

lemma exclusive_step:
  assumes run: "sys_step ord s (tid, a) = Some s'" and inv: "system_inv s" and exc: "exclusive s"
    and may: "\<forall>j. a = Start j \<longrightarrow> client_ok s tid j"
  shows "exclusive s'"
proof -
  have others: "unfinished s' u = unfinished s u \<and> jobs_txns s' u = jobs_txns s u" if "u \<noteq> tid" for u
    using sys_step_frame(4) [OF run inv that] by (rule unfinished_cong)
  have own: "jobs_txns s' tid \<inter> jobs_txns s v = {}" if "v \<noteq> tid" "unfinished s v" "unfinished s' tid" for v
  proof (cases a)
    case (Start j)
    with sys_step_Start(2) [OF run [unfolded Start]] may that(2) show ?thesis
      by (simp add: client_ok_def jobs_txns_def)
  next
    case Go
    from run [unfolded this] obtain j c mg' own' c' where st: "threads s tid = Running j c"
        "code_step (mgr s) (owner s) tid c = Some (mg', own', c')"
        "s' = \<lparr>mgr = mg', owner = own', threads = (threads s)(tid := Running j c')\<rparr>" by (rule sys_step_Go)
    then have "unfinished s tid" by (simp add: unfinished_Running code_step_unfinished)
    moreover have "jobs_txns s' tid = jobs_txns s tid" using st by (simp add: jobs_txns_def)
    ultimately show ?thesis using exc that by (auto simp: exclusive_def)
  next
    case Finish
    from run [unfolded this] obtain j r where "s' = s\<lparr>threads := (threads s)(tid := Idle)\<rparr>" by (rule sys_step_Finish)
    then show ?thesis by (simp add: jobs_txns_def)
  qed
  show ?thesis
    unfolding exclusive_def
  proof (intro allI impI)
    fix u v assume uv: "u \<noteq> v" "unfinished s' u" "unfinished s' v"
    show "jobs_txns s' u \<inter> jobs_txns s' v = {}"
    proof (cases "u = tid")
      case True
      with uv others [of v] own [of v] show ?thesis by auto
    next
      case False
      note u = others [OF False]
      show ?thesis
      proof (cases "v = tid")
        case True
        with uv u own [of u] False show ?thesis by (auto simp: Int_commute)
      next
        case False
        with uv u others [OF False] exc show ?thesis by (simp add: exclusive_def)
      qed
    qed
  qed
qed


text \<open>The instruction of a thread leaves its own code calm.\<close>

lemma code_step_calm:
  assumes run: "code_step mg own tid c = Some (mg', own', c')"
    and ord: "ordered n {m. own m = Some tid} c" and wr: "writes mg T c" and bits: "bits mg' = bits mg"
    and calm: "calm_at mg b T (own Waits = Some tid) c"
  shows "calm_at mg' b T (own' Waits = Some tid) c'"
proof -
  have calm_at_mg': "calm_at mg' b T h c' \<longleftrightarrow>
      (if h then \<forall>t. calm mg b t (Some (waits mg')) c'
       else \<forall>t. calm mg b t None c' \<or> t \<in> T \<and> t \<notin> fmdom' (waits mg') \<and> waitless c')" for h
    using calm_cong [OF bits] calm_cong [OF bits [symmetric]] unfolding calm_at_def by (smt (verit))
  show ?thesis
  proof (cases c)
    case (Lock m k)
    show ?thesis
    proof (cases m)
      case Waits
      with run Lock calm show ?thesis by (auto simp: calm_at_def split: if_splits)
    next
      case (Shard_Mutex i)
      with run Lock calm show ?thesis by (auto simp: calm_at_def split: if_splits)
    qed
  next
    case (Unlock m k)
    show ?thesis
    proof (cases m)
      case Waits
      with ord Unlock have held: "own Waits = Some tid" and k: "ordered n ({m. own m = Some tid} - {Waits}) k" by auto
      have "calm mg b t None k \<or> t \<in> T \<and> t \<notin> fmdom' (waits mg) \<and> waitless k" for t
      proof (cases "t \<in> T")
        case True
        with calm held Unlock Waits show ?thesis by (auto simp: fmlookup_dom'_iff)
      next
        case False
        with ordered_writes_calm [OF k, of mg T t b] wr Unlock show ?thesis by simp
      qed
      moreover from run Unlock Waits have "mg' = mg" "own' Waits = None" "c' = k" by auto
      ultimately show ?thesis by simp
    next
      case (Shard_Mutex i)
      with run Unlock calm show ?thesis by (auto simp: calm_at_def split: if_splits)
    qed
  next
    case (On_Shard i f k)
    with run calm show ?thesis unfolding calm_at_mg' by (auto simp: calm_at_def split: if_splits)
  next
    case (On_Waits f k)
    with run calm ord show ?thesis unfolding calm_at_mg' by (auto simp: calm_at_def split: if_splits)
  qed (use run in auto)
qed

lemma code_step_waits:
  assumes "code_step mg own tid c = Some (mg', own', c')" and "ordered n {m. own m = Some tid} c"
    and "waits mg' \<noteq> waits mg"
  shows "own Waits = Some tid"
  using assms by (cases c) (auto split: if_splits)

lemma thread_calm_own:
  assumes run: "sys_step ord s (tid, a) = Some s'" and inv: "system_inv s" and calm: "thread_calm s tid"
    and may: "\<forall>j. a = Start j \<longrightarrow> client_ok s tid j"
  shows "thread_calm s' tid"
proof (cases a)
  case (Start j)
  note st = sys_step_Start [OF run [unfolded Start]]
  have "owner s Waits \<noteq> Some tid"
    using system_invD(1) [OF inv] ordered_held_running [of s Waits tid] st(1) by (auto simp: held_def)
  with st(2) job_code_calm [OF manager_inv_shape [OF system_invD(2) [OF inv]], of j _ ord] may Start show ?thesis
    by (simp add: thread_calm_def client_ok_def)
next
  case Go
  from run [unfolded this] obtain j c mg' own' c' where st: "threads s tid = Running j c"
      "code_step (mgr s) (owner s) tid c = Some (mg', own', c')"
      "s' = \<lparr>mgr = mg', owner = own', threads = (threads s)(tid := Running j c')\<rparr>" by (rule sys_step_Go)
  have "bits mg' = bits (mgr s)" using sys_step_frame(3) [OF run inv] st(3) by simp
  from code_step_calm [OF st(2) system_invD(4) [OF inv st(1)] system_invD(3) [OF inv st(1)] this, of "is_request j"]
    calm st(1,3) show ?thesis by (simp add: thread_calm_def)
next
  case Finish
  from run [unfolded this] obtain j r where "s' = s\<lparr>threads := (threads s)(tid := Idle)\<rparr>" by (rule sys_step_Finish)
  then show ?thesis by (simp add: thread_calm_def)
qed

text \<open>And so do the steps of the others, which never register a transaction of the thread.\<close>

lemma thread_calm_other:
  assumes run: "sys_step ord s (tid, a) = Some s'" and inv: "system_inv s" and exc: "exclusive s"
    and calm: "thread_calm s u" and u: "u \<noteq> tid"
  shows "thread_calm s' u"
proof (cases "threads s u")
  case (Running j c)
  note fr = sys_step_frame [OF run inv]
  have own: "owner s' Waits = Some u \<longleftrightarrow> owner s Waits = Some u" and th: "threads s' u = Running j c"
    using fr(5) [OF u] fr(4) [OF u] Running by auto
  have cong: "calm (mgr s) b t h c \<Longrightarrow> calm (mgr s') b t h c" for b t h and c :: "Reply Code"
    using calm_cong [OF fr(3)] .
  show ?thesis
  proof (cases "owner s Waits = Some u")
    case True
    have "waits (mgr s') = waits (mgr s)"
    proof (cases a)
      case Go
      from run [unfolded this] obtain j1 c1 mg' own' c' where st: "threads s tid = Running j1 c1"
          "code_step (mgr s) (owner s) tid c1 = Some (mg', own', c')"
          "s' = \<lparr>mgr = mg', owner = own', threads = (threads s)(tid := Running j1 c')\<rparr>" by (rule sys_step_Go)
      with code_step_waits [OF st(2) system_invD(4) [OF inv st(1)]] True u show ?thesis by auto
    qed (use run in \<open>auto split: Thread.splits Code.splits\<close>)
    moreover from calm True Running have "\<forall>t. calm (mgr s) (is_request j) t (Some (waits (mgr s))) c"
      by (simp add: thread_calm_def)
    ultimately show ?thesis using True own th by (auto simp: thread_calm_def intro: cong)
  next
    case False
    have stay: "t \<notin> fmdom' (waits (mgr s'))"
      if t: "t \<in> job_txns j" "t \<notin> fmdom' (waits (mgr s))" and c: "\<forall>r. c \<noteq> Return r" for t
    proof -
      have "a = Go \<longrightarrow> (\<forall>j c. threads s tid = Running j c \<longrightarrow> t \<notin> job_txns j)"
      proof (intro impI allI)
        fix j1 c1 assume "a = Go" and c1: "threads s tid = Running j1 c1"
        with run have "unfinished s tid" by (auto simp: unfinished_Running)
        with exc u c Running have "jobs_txns s u \<inter> jobs_txns s tid = {}"
          by (simp add: exclusive_def unfinished_Running)
        with t(1) Running c1 show "t \<notin> job_txns j1" by (auto simp: jobs_txns_def)
      qed
      from sys_step_effect(2) [OF run inv this] t(2) show ?thesis by (simp add: fmlookup_dom'_iff)
    qed
    have "calm (mgr s') (is_request j) t None c \<or> t \<in> job_txns j \<and> t \<notin> fmdom' (waits (mgr s')) \<and> waitless c" for t
    proof (cases "\<exists>r. c = Return r")
      case False
      with calm \<open>owner s Waits \<noteq> Some u\<close> Running
      have "calm (mgr s) (is_request j) t None c \<or> t \<in> job_txns j \<and> t \<notin> fmdom' (waits (mgr s)) \<and> waitless c"
        by (simp add: thread_calm_def)
      with cong stay [of t] False show ?thesis by blast
    qed auto
    with False own th show ?thesis by (simp add: thread_calm_def)
  qed
qed (use sys_step_frame(4) [OF run inv u] in \<open>simp add: thread_calm_def\<close>)

lemma client_inv_step:
  assumes run: "sys_step ord s (tid, a) = Some s'" and inv: "client_inv s"
    and may: "\<forall>j. a = Start j \<longrightarrow> client_ok s tid j"
  shows "client_inv s'"
proof -
  from inv have sys: "system_inv s" and exc: "exclusive s" and calm: "\<And>u. thread_calm s u"
    by (simp_all add: client_inv_def)
  have "thread_calm s' u" for u
    using thread_calm_own [OF run sys calm may] thread_calm_other [OF run sys exc calm] by (cases "u = tid") auto
  with sys_step_effect(1) [OF run sys] exclusive_step [OF run sys exc may] show ?thesis
    by (simp add: client_inv_def)
qed

lemma client_inv_fresh: "manager_inv mg \<Longrightarrow> client_inv (fresh_system mg)"
  using fresh_system_inv
  by (auto simp: client_inv_def exclusive_def unfinished_def thread_calm_def fresh_system_def)

section \<open>Suspended transactions stand still\<close>

definition wait_edges :: "LockManager \<Rightarrow> (TxnId \<times> TxnId) set" where
  "wait_edges mg = {(x, u). waits_for mg x u \<and> u \<in> fmdom' (waits mg)}"

text \<open>
  While a thread holds the registry, no step of another thread changes the registry or a mode held by
  a registered transaction.
\<close>

lemma code_step_keeps:
  assumes run: "code_step mg own tid c = Some (mg', own', c')" and inv: "manager_inv mg"
    and ord: "ordered (length (shards mg)) {m. own m = Some tid} c" and wr: "writes mg T c"
    and calm: "calm mg b t h c" and b: "\<not> (b \<and> h \<noteq> None)"
  shows "holds mg' t = holds mg t"
proof (cases c)
  case (On_Shard i f k)
  with ord have i: "i < length (shards mg)" by simp
  have fits: "shard_fits mg i (shard_at mg i)" using inv i by (rule manager_inv_fits)
  from On_Shard wr have "shard_write mg T i f" by simp
  note fits' = shard_writeD(1) [OF this fits]
  have "keeps_modes mg t i f" using calm b On_Shard by auto
  with fits have "point_mode (f (shard_at mg i)) t = point_mode (shard_at mg i) t" by (simp add: keeps_modes_def)
  moreover have "mg' = put_shard mg i (f (shard_at mg i))" using run On_Shard by (simp add: shard_at_def)
  ultimately show ?thesis
    using put_shard_inv(2) [OF inv i fits'] point_mode_shard [OF inv i] by (auto simp: fun_eq_iff)
qed (use run in \<open>auto split: if_splits\<close>)

lemma other_keeps:
  assumes run: "sys_step ord s (tid, a) = Some s'" and inv: "client_inv s"
    and own: "owner s Waits \<noteq> Some tid" and t: "t \<in> fmdom' (waits (mgr s))"
  shows "holds (mgr s') t = holds (mgr s) t" and "waits (mgr s') = waits (mgr s)"
proof -
  from inv have sys: "system_inv s" and calm: "thread_calm s tid" by (simp_all add: client_inv_def)
  have "holds (mgr s') t = holds (mgr s) t \<and> waits (mgr s') = waits (mgr s)"
  proof (cases a)
    case Go
    from run [unfolded this] obtain j c mg' own' c' where st: "threads s tid = Running j c"
        "code_step (mgr s) (owner s) tid c = Some (mg', own', c')"
        "s' = \<lparr>mgr = mg', owner = own', threads = (threads s)(tid := Running j c')\<rparr>" by (rule sys_step_Go)
    note ord = system_invD(4) [OF sys st(1)]
    from calm st(1) own t have "calm (mgr s) (is_request j) t None c"
      by (auto simp: thread_calm_def)
    from code_step_keeps [OF st(2) system_invD(2) [OF sys] ord system_invD(3) [OF sys st(1)] this]
      code_step_waits [OF st(2) ord] own st(3) show ?thesis by auto
  qed (use run in \<open>auto split: Thread.splits Code.splits\<close>)
  then show "holds (mgr s') t = holds (mgr s) t" "waits (mgr s') = waits (mgr s)" by auto
qed

lemma other_keeps_edges:
  assumes run: "sys_step ord s (tid, a) = Some s'" and inv: "client_inv s"
    and own: "owner s Waits = Some u" and u: "u \<noteq> tid"
  shows "waits (mgr s') = waits (mgr s)" and "wait_edges (mgr s') = wait_edges (mgr s)"
proof -
  have not_own: "owner s Waits \<noteq> Some tid" using own u by simp
  show w: "waits (mgr s') = waits (mgr s)"
  proof (cases "fmdom' (waits (mgr s)) = {}")
    case True
    have sys: "system_inv s" using inv by (simp add: client_inv_def)
    show ?thesis
    proof (cases a)
      case Go
      from run [unfolded this] obtain j c mg' own' c' where st: "threads s tid = Running j c"
          "code_step (mgr s) (owner s) tid c = Some (mg', own', c')"
          "s' = \<lparr>mgr = mg', owner = own', threads = (threads s)(tid := Running j c')\<rparr>" by (rule sys_step_Go)
      with code_step_waits [OF st(2) system_invD(4) [OF sys st(1)]] not_own show ?thesis by auto
    qed (use run in \<open>auto split: Thread.splits Code.splits\<close>)
  next
    case False
    then show ?thesis using other_keeps(2) [OF run inv not_own] by blast
  qed
  have "waits_for (mgr s') x y \<longleftrightarrow> waits_for (mgr s) x y" if "y \<in> fmdom' (waits (mgr s))" for x y
    using other_keeps(1) [OF run inv not_own that] w by (simp add: waits_for_def)
  then show "wait_edges (mgr s') = wait_edges (mgr s)" by (auto simp: wait_edges_def w)
qed

end
