(* ===== verification/Thread_Detection.thy ===== *)
theory Thread_Detection
  imports Thread_Clients
begin

text \<open>
  Deadlock detection among concurrent operations.  \<open>build_wait_graph\<close> reads one shard after the other
  while other threads acquire and release, so the graph it builds need not be a snapshot of the
  table.  It is exact where it matters: between registered transactions, and no other transaction
  can be on a cycle.
\<close>

section \<open>Edges between registered transactions\<close>

definition circle :: "('a \<times> 'a) set \<Rightarrow> 'a list \<Rightarrow> bool" where
  "circle E c \<longleftrightarrow> c \<noteq> [] \<and> distinct c \<and> (\<forall>i < length c. (c ! i, c ! (Suc i mod length c)) \<in> E)"

lemma circle_trancl:
  assumes "circle E c" and "x \<in> set c"
  shows "(x, x) \<in> E\<^sup>+"
proof -
  let ?succs = "\<lambda>x. filter (\<lambda>u. (x, u) \<in> E) c"
  have "cycle_in ?succs c" using assms(1) nth_mod_mem by (auto simp: circle_def cycle_in_def)
  from cycle_in_trancl [OF this assms(2)] show ?thesis by (rule trancl_mono) auto
qed

text \<open>
  A relation whose edges start in \<open>W\<close> has the same cycles as its part with targets in \<open>W\<close>.
\<close>

locale sources =
  fixes R E :: "('a \<times> 'a) set" and W :: "'a set"
  assumes source: "(x, y) \<in> R \<Longrightarrow> x \<in> W"
    and inner_edge: "(x, y) \<in> E \<longleftrightarrow> (x, y) \<in> R \<and> y \<in> W"
begin

lemma inner_trancl: "(x, y) \<in> R\<^sup>+ \<Longrightarrow> y \<in> W \<Longrightarrow> (x, y) \<in> E\<^sup>+"
proof (induction rule: trancl_induct)
  case (step y z)
  then have "(x, y) \<in> E\<^sup>+" using source by blast
  moreover have "(y, z) \<in> E" using step inner_edge by blast
  ultimately show ?case by (rule trancl_into_trancl)
qed (auto simp: inner_edge)

lemma inner_subset: "E \<subseteq> R"
  using inner_edge by auto

lemma inner_cycle: "(x, x) \<in> R\<^sup>+ \<longleftrightarrow> (x, x) \<in> E\<^sup>+"
proof
  assume "(x, x) \<in> R\<^sup>+"
  moreover from this have "x \<in> W" using source by (auto dest: tranclD)
  ultimately show "(x, x) \<in> E\<^sup>+" by (rule inner_trancl)
next
  show "(x, x) \<in> E\<^sup>+ \<Longrightarrow> (x, x) \<in> R\<^sup>+" using trancl_mono [OF _ inner_subset] .
qed

lemma inner_reach: "(t, x) \<in> R\<^sup>* \<Longrightarrow> x \<in> W \<Longrightarrow> (t, x) \<in> E\<^sup>*"
  using inner_trancl by (auto simp: rtrancl_eq_or_trancl)

lemma outer_reach: "(t, x) \<in> E\<^sup>* \<Longrightarrow> (t, x) \<in> R\<^sup>*"
  using rtrancl_mono [OF inner_subset] by blast

lemma inner_acyclic: "acyclic R \<longleftrightarrow> acyclic E"
  by (simp add: acyclic_def inner_cycle)

lemma circle_mem:
  assumes "circle R c" and "x \<in> set c"
  shows "x \<in> W"
proof -
  from assms(2) obtain i where "i < length c" "x = c ! i" by (auto simp: in_set_conv_nth)
  with assms(1) source show ?thesis by (auto simp: circle_def)
qed

lemma inner_circle: "circle R c \<longleftrightarrow> circle E c"
proof
  assume c: "circle R c"
  then show "circle E c"
    using circle_mem [OF c nth_mod_mem] by (simp add: circle_def inner_edge)
next
  assume "circle E c"
  then show "circle R c" by (simp add: circle_def inner_edge)
qed

lemma no_cycle_reachable:
  "(\<forall>x. (t, x) \<in> R\<^sup>* \<longrightarrow> (x, x) \<notin> R\<^sup>+) \<longleftrightarrow> (\<forall>x. (t, x) \<in> E\<^sup>* \<longrightarrow> (x, x) \<notin> E\<^sup>+)"
proof -
  have "x \<in> W" if "(x, x) \<in> R\<^sup>+" for x using that source by (auto dest: tranclD)
  then show ?thesis using inner_reach outer_reach inner_cycle by blast
qed

end

interpretation registered: sources "wait_rel mg" "wait_edges mg" "fmdom' (waits mg)" for mg
  by unfold_locales (auto simp: wait_rel_def wait_edges_def waits_for_def fmlookup_dom'_iff)

lemma circle_deadlock: "circle (wait_rel mg) c \<longleftrightarrow> deadlock_cycle mg c"
  by (simp add: circle_def deadlock_cycle_def wait_rel_def)

section \<open>The graph agrees with the edges\<close>

text \<open>A graph over the keys of \<open>w\<close> in which the waiters in \<open>S\<close> have their edges to registered transactions.\<close>

definition agrees :: "waits_map \<Rightarrow> (TxnId \<times> TxnId) set \<Rightarrow> TxnId set \<Rightarrow> WaitForGraph \<Rightarrow> bool" where
  "agrees w E S g \<longleftrightarrow>
     (\<forall>x. x \<notin> fmdom' w \<longrightarrow> neighbors g x = [])
     \<and> (\<forall>x u. u \<in> fmdom' w \<longrightarrow> (u \<in> set (neighbors g x) \<longleftrightarrow> x \<in> S \<and> (x, u) \<in> E))"

definition edges_on :: "waits_map \<Rightarrow> (TxnId \<times> TxnId) set \<Rightarrow> bool" where
  "edges_on w E \<longleftrightarrow> (\<forall>(x, u) \<in> E. x \<in> fmdom' w \<and> u \<in> fmdom' w \<and> x \<noteq> u)"

lemma edges_onD: "edges_on w E \<Longrightarrow> (x, u) \<in> E \<Longrightarrow> x \<in> fmdom' w \<and> u \<in> fmdom' w \<and> x \<noteq> u"
  by (auto simp: edges_on_def)

lemma wait_edges_on: "edges_on (waits mg) (wait_edges mg)"
  by (auto simp: edges_on_def wait_edges_def waits_for_def fmlookup_dom'_iff)

lemma agrees_sources:
  assumes g: "agrees w E S g" and E: "edges_on w E" and S: "fmdom' w \<subseteq> S"
  shows "sources (edge_rel (neighbors g)) E (fmdom' w)"
proof
  fix x y assume "(x, y) \<in> edge_rel (neighbors g)"
  then show "x \<in> fmdom' w" using g by (cases "x \<in> fmdom' w") (auto simp: agrees_def)
next
  fix x y
  show "(x, y) \<in> E \<longleftrightarrow> (x, y) \<in> edge_rel (neighbors g) \<and> y \<in> fmdom' w"
    using g edges_onD [OF E, of x y] S by (auto simp: agrees_def)
qed

lemma cycle_in_circle: "cycle_in (neighbors g) c \<longleftrightarrow> circle (edge_rel (neighbors g)) c"
  by (simp add: cycle_in_def circle_def)

lemma victim_of_circle:
  "circle E c \<Longrightarrow> pick_victim c DEADLOCK_VICTIM_POLICY = Some (Max (set c))"
  by (simp add: circle_def pick_victim_eq DEADLOCK_VICTIM_POLICY_def)

section \<open>Right answers\<close>

text \<open>
  What the answer of a job must say about the edges at the moment it leaves the registry.
\<close>

definition request_right ::
  "TxnId \<Rightarrow> ResourceId \<Rightarrow> LockMode \<Rightarrow> waits_map \<Rightarrow> (TxnId \<times> TxnId) set \<Rightarrow> Acquisition \<Rightarrow> bool"
where
  "request_right t r m w E acq =
     (case acq of
        Granted \<Rightarrow> fmlookup w t = None
      | Waiting \<Rightarrow> fmlookup w t = Some (r, m) \<and> (\<forall>x. (t, x) \<in> E\<^sup>* \<longrightarrow> (x, x) \<notin> E\<^sup>+)
      | Deadlock d \<Rightarrow> fmlookup w t = Some (r, m) \<and> circle E (dl_cycle d) \<and> dl_victim d = Max (set (dl_cycle d)) \<and> (t, hd (dl_cycle d)) \<in> E\<^sup>*)"

definition scan_right :: "(TxnId \<times> TxnId) set \<Rightarrow> Deadlock option \<Rightarrow> bool" where
  "scan_right E x =
     (case x of
        None \<Rightarrow> acyclic E
      | Some d \<Rightarrow> circle E (dl_cycle d) \<and> dl_victim d = Max (set (dl_cycle d)))"

definition answer_right :: "Job \<Rightarrow> waits_map \<Rightarrow> (TxnId \<times> TxnId) set \<Rightarrow> Reply Code \<Rightarrow> bool" where
  "answer_right j w E k =
     (case j of
        Change (Request t r m) \<Rightarrow> \<exists>acq. k = Return (Answer (Acq acq)) \<and> request_right t r m w E acq
      | Find_Deadlock \<Rightarrow> \<exists>x. k = Return (Found x) \<and> scan_right E x
      | _ \<Rightarrow> True)"

text \<open>The same of the whole wait-for relation.\<close>

lemma circle_wait_edges: "circle (wait_edges mg) c \<longleftrightarrow> deadlock_cycle mg c"
  using registered.inner_circle circle_deadlock by blast

lemma request_right_table:
  assumes "request_right t r m (waits mg) (wait_edges mg) acq"
  shows "case acq of
        Granted \<Rightarrow> fmlookup (waits mg) t = None
      | Waiting \<Rightarrow> fmlookup (waits mg) t = Some (r, m) \<and> (\<forall>x. (t, x) \<in> (wait_rel mg)\<^sup>* \<longrightarrow> (x, x) \<notin> (wait_rel mg)\<^sup>+)
      | Deadlock d \<Rightarrow> fmlookup (waits mg) t = Some (r, m) \<and> deadlock_cycle mg (dl_cycle d)
          \<and> dl_victim d = Max (set (dl_cycle d)) \<and> (t, hd (dl_cycle d)) \<in> (wait_rel mg)\<^sup>*"
  using assms registered.no_cycle_reachable [of t mg] registered.outer_reach [of t _ mg]
  by (cases acq) (simp_all add: request_right_def circle_wait_edges)

lemma scan_right_table:
  assumes "scan_right (wait_edges mg) x"
  shows "case x of
        None \<Rightarrow> acyclic (wait_rel mg)
      | Some d \<Rightarrow> deadlock_cycle mg (dl_cycle d) \<and> dl_victim d = Max (set (dl_cycle d))"
  using assms registered.inner_acyclic [of mg]
  by (cases x) (simp_all add: scan_right_def circle_wait_edges)

lemma detection_right:
  assumes "agrees w E S g" and "edges_on w E" and "fmdom' w \<subseteq> S" and reg: "fmlookup w t = Some (r, m)"
  shows "request_right t r m w E (detection_answer g t)"
proof -
  note src = agrees_sources [OF assms(1-3)]
  show ?thesis
  proof (cases "cycle_from g t")
    case None
    then have "\<forall>x. (t, x) \<in> (edge_rel (neighbors g))\<^sup>* \<longrightarrow> (x, x) \<notin> (edge_rel (neighbors g))\<^sup>+"
      using wfg.find_None by blast
    then show ?thesis
      unfolding sources.no_cycle_reachable [OF src] using None reg by (simp add: request_right_def detection_answer_def)
  next
    case (Some c)
    from wfg.find_Some [OF Some] have c: "circle (edge_rel (neighbors g)) c" "(t, hd c) \<in> (edge_rel (neighbors g))\<^sup>*"
      by (simp_all add: cycle_in_circle)
    have "hd c \<in> set c" using c(1) by (simp add: circle_def)
    from sources.circle_mem [OF src c(1) this] have "(t, hd c) \<in> E\<^sup>*" by (rule sources.inner_reach [OF src c(2)])
    moreover have "circle E c" using c(1) sources.inner_circle [OF src] by blast
    ultimately show ?thesis
      using Some victim_of_circle [of E c] reg by (simp add: request_right_def detection_answer_def)
  qed
qed

lemma scan_answer_right:
  assumes "agrees w E S g" and "edges_on w E" and "fmdom' w \<subseteq> S" and ord: "key_order ord"
  shows "scan_right E (scan_answer ord g)"
proof -
  note src = agrees_sources [OF assms(1-3)]
  show ?thesis
  proof (cases "detect_cycle ord g")
    case None
    then have "acyclic (edge_rel (neighbors g))" using detect_cycle_None_iff [OF ord] by blast
    then show ?thesis
      unfolding sources.inner_acyclic [OF src] using None by (simp add: scan_right_def scan_answer_def)
  next
    case (Some c)
    then have "circle (edge_rel (neighbors g)) c" using detect_cycle_Some cycle_in_circle by blast
    then have "circle E c" using sources.inner_circle [OF src] by blast
    with Some victim_of_circle [of E c] show ?thesis by (simp add: scan_right_def scan_answer_def)
  qed
qed

section \<open>Code that answers rightly\<close>

text \<open>What a shard shows of the edges.\<close>

definition sees :: "LockManager \<Rightarrow> waits_map \<Rightarrow> (TxnId \<times> TxnId) set \<Rightarrow> nat \<Rightarrow> ShardInner \<Rightarrow> bool" where
  "sees mg w E i sh \<longleftrightarrow>
     (\<forall>x u res mode. fmlookup w x = Some (res, mode) \<longrightarrow> route mg res = i \<longrightarrow> u \<noteq> x \<longrightarrow> u \<in> fmdom' w \<longrightarrow>
        ((x, u) \<in> E \<longleftrightarrow> (\<exists>m. point_mode sh u res = Some m \<and> \<not> compatible_with m mode)))"

text \<open>
  \<open>sound mg j h c\<close>: whatever the other threads do that they may do, code \<open>c\<close> leaves the registry with
  a right answer.  With \<open>h = Some (w, E)\<close> it holds the registry, whose contents are \<open>w\<close>, and \<open>E\<close> are the
  edges between registered transactions; a read of a shard then shows those edges, and a write or a
  change of the registry leaves some edges, no matter which.
\<close>

inductive sound ::
  "LockManager \<Rightarrow> Job \<Rightarrow> (waits_map \<times> (TxnId \<times> TxnId) set) option \<Rightarrow> Reply Code \<Rightarrow> bool"
  for mg :: LockManager and j :: Job where
  sound_Return: "sound mg j None (Return x)"
| sound_Lock_Waits: "(\<And>w E. edges_on w E \<Longrightarrow> sound mg j (Some (w, E)) k) \<Longrightarrow> sound mg j None (Lock Waits k)"
| sound_Lock_Shard: "sound mg j h k \<Longrightarrow> sound mg j h (Lock (Shard_Mutex i) k)"
| sound_Unlock_Shard: "sound mg j h k \<Longrightarrow> sound mg j h (Unlock (Shard_Mutex i) k)"
| sound_Unlock_Waits: "answer_right j w E k \<Longrightarrow> sound mg j None k \<Longrightarrow> sound mg j (Some (w, E)) (Unlock Waits k)"
| sound_On_Shard: "(\<And>sh. sound mg j None (k sh)) \<Longrightarrow> sound mg j None (On_Shard i f k)"
| sound_Read: "(\<And>sh E'. edges_on w E' \<Longrightarrow> shard_inv sh \<Longrightarrow> (f = (\<lambda>sh. sh) \<longrightarrow> E' = E \<and> sees mg w E i sh) \<Longrightarrow>
      sound mg j (Some (w, E')) (k sh)) \<Longrightarrow> sound mg j (Some (w, E)) (On_Shard i f k)"
| sound_On_Waits: "(\<And>E'. edges_on (f w) E' \<Longrightarrow> sound mg j (Some (f w, E')) (k w)) \<Longrightarrow>
      sound mg j (Some (w, E)) (On_Waits f k)"

inductive_simps sound_simps:
  "sound mg j h (Return x)" "sound mg j h Panic" "sound mg j h (Lock Waits k)" "sound mg j h (Lock (Shard_Mutex i) k)"
  "sound mg j h (Unlock (Shard_Mutex i) k)" "sound mg j h (Unlock Waits k)"
  "sound mg j None (On_Shard i f k)" "sound mg j (Some (w, E)) (On_Shard i f k)" "sound mg j h (On_Waits f k)"

lemma sees_cong: "bits mg' = bits mg \<Longrightarrow> sees mg' w E i sh = sees mg w E i sh"
  using route_cong [of mg' mg] by (simp add: sees_def)

lemma sound_cong:
  assumes "bits mg' = bits mg" and "sound mg j h c"
  shows "sound mg' j h c"
  using assms(2)
proof induction
  case (sound_Read w f E i k)
  then show ?case by (intro sound.sound_Read) (simp add: sees_cong [OF assms(1)])
qed (auto intro: sound.intros)

text \<open>Code of jobs whose answers say nothing about edges.\<close>

lemma ordered_sound:
  assumes "ordered n H c" and "\<And>w E k. answer_right j w E k"
  shows "(Waits \<notin> H \<longrightarrow> sound mg j None c) \<and> (\<forall>w E. Waits \<in> H \<longrightarrow> sound mg j (Some (w, E)) c)"
  using assms
proof (induction rule: ordered.induct)
  case (ordered_Unlock m H k)
  then show ?case by (cases m) (auto intro: sound.intros)
qed (auto intro: sound.intros)

lemma peek_code_sound:
  assumes shape: "shape_ok mg"
    and k: "\<And>sh. shard_inv sh \<Longrightarrow> sees mg w E (route mg r) sh \<Longrightarrow> sound mg j (Some (w, E)) (k (look sh))"
  shows "sound mg j (Some (w, E)) (on_resource mg r (peek look) k)"
  using route_less [OF shape, of r] k
  by (auto simp: on_resource_def section_code_def route_def Let_def intro!: sound.intros)

lemma agrees_add:
  assumes g: "agrees w E S g" and E: "edges_on w E" and x: "fmlookup w x = Some (res, mode)"
    and sh: "shard_inv sh" "sees mg w E (route mg res) sh"
  shows "agrees w E (insert x S) (add_waits g x (blocking_section x res mode sh))"
proof -
  have new: "u \<in> set (blocking_section x res mode sh) \<and> u \<noteq> x \<longleftrightarrow> (x, u) \<in> E" if "u \<in> fmdom' w" for u
  proof (cases "u = x")
    case True
    then show ?thesis using edges_onD [OF E] by blast
  next
    case False
    with sh(2) x that have "(x, u) \<in> E \<longleftrightarrow> (\<exists>m. point_mode sh u res = Some m \<and> \<not> compatible_with m mode)"
      unfolding sees_def by blast
    with False show ?thesis by (simp add: blocking_section_set [OF sh(1)])
  qed
  have "x \<in> fmdom' w" using x by (simp add: fmlookup_dom'_iff)
  with g new show ?thesis by (auto simp: agrees_def neighbors_add_waits)
qed

lemma build_loop_sound:
  assumes shape: "shape_ok mg" and E: "edges_on w E"
    and k: "\<And>g. agrees w E (S \<union> set xs) g \<Longrightarrow> sound mg j (Some (w, E)) (k g)"
    and xs: "set xs \<subseteq> fmdom' w" and g: "agrees w E S g"
  shows "sound mg j (Some (w, E)) (build_loop mg w xs g k)"
  using xs g k
proof (induction xs arbitrary: S g)
  case (Cons x xs)
  then obtain res mode where x: "fmlookup w x = Some (res, mode)"
    by (auto simp: fmlookup_dom'_iff)
  have "sound mg j (Some (w, E)) (build_loop mg w xs (add_waits g x (blocking_section x res mode sh)) k)"
    if sh: "shard_inv sh" "sees mg w E (route mg res) sh" for sh
  proof (rule Cons.IH)
    show "agrees w E (insert x S) (add_waits g x (blocking_section x res mode sh))"
      using agrees_add [OF Cons.prems(2) E x sh] .
  qed (use Cons.prems in auto)
  then show ?case using x by (auto intro!: peek_code_sound [OF shape])
qed simp

lemma build_code_sound:
  assumes shape: "shape_ok mg" and E: "edges_on w E" and ord: "key_order ord"
    and k: "\<And>g. agrees w E (fmdom' w) g \<Longrightarrow> sound mg j (Some (w, E)) (k g)"
  shows "sound mg j (Some (w, E)) (build_code ord mg w k)"
  unfolding build_code_def
proof (rule build_loop_sound [OF shape E, of "{}"])
  show "agrees w E {} WaitForGraph_new" by (simp add: agrees_def)
qed (use k ord in auto)

lemma job_code_sound:
  assumes shape: "shape_ok mg" and ord: "key_order ord"
  shows "sound mg j None (job_code ord mg j)"
proof -
  consider (request) t r m where "j = Change (Request t r m)" | (scan) "j = Find_Deadlock"
    | (other) "\<And>w E k. answer_right j w E k"
  proof (cases j)
    case (Change c)
    then show thesis using that by (cases c) (auto simp: answer_right_def)
  qed (use that in \<open>auto simp: answer_right_def\<close>)
  then show ?thesis
  proof cases
    case (request t r m)
    let ?j = "Change (Request t r m)"
    have scan: "sound mg ?j (Some (w, E))
        (build_code ord mg w (\<lambda>g. Unlock Waits (Return (Answer (Acq (detection_answer g t))))))"
      if "edges_on w E" "fmlookup w t = Some (r, m)" for w E
      using that detection_right
      by (intro build_code_sound [OF shape _ ord] sound.intros) (auto simp: answer_right_def)
    have granted: "answer_right ?j (fmdrop t w) E (Return (Answer (Acq Granted)))" for w E
      by (simp add: answer_right_def request_right_def)
    have "unat (shard_index mg r) < length (shards mg)" using route_less [OF shape, of r] by (simp add: route_def)
    then have "sound mg ?j None (job_code ord mg ?j)"
      using scan granted
      by (auto simp: request_code_def on_resource_def section_code_def Let_def intro!: sound.intros)
    then show ?thesis by (simp only: request)
  next
    case scan
    show ?thesis
      unfolding scan job_code.simps find_deadlock_code_def
    proof (intro sound_Lock_Waits sound_On_Waits build_code_sound [OF shape _ ord] sound_Unlock_Waits sound_Return)
      fix w E E' g assume E': "edges_on w E'" and g: "agrees w E' (fmdom' w) g"
      have "scan_right E' (scan_answer ord g)" using scan_answer_right [OF g E' subset_refl ord] .
      then show "answer_right Find_Deadlock w E' (Return (Found (scan_answer ord g)))"
        by (simp add: answer_right_def)
    qed
  next
    case other
    then show ?thesis using ordered_sound [OF job_code_ordered [OF shape, of ord j] other] by blast
  qed
qed

section \<open>Every running thread will answer rightly\<close>

definition sound_at :: "LockManager \<Rightarrow> Job \<Rightarrow> bool \<Rightarrow> Reply Code \<Rightarrow> bool" where
  "sound_at mg j held_waits c \<longleftrightarrow> sound mg j (if held_waits then Some (waits mg, wait_edges mg) else None) c"

lemma sound_at_simps [simp]:
  "sound_at mg j True c \<longleftrightarrow> sound mg j (Some (waits mg, wait_edges mg)) c"
  "sound_at mg j False c \<longleftrightarrow> sound mg j None c"
  by (simp_all add: sound_at_def)

definition thread_sound :: "System \<Rightarrow> nat \<Rightarrow> bool" where
  "thread_sound s tid =
     (case threads s tid of
        Idle \<Rightarrow> True
      | Running j c \<Rightarrow> sound_at (mgr s) j (owner s Waits = Some tid) c)"

lemma manager_sees:
  assumes inv: "manager_inv mg" and i: "i < length (shards mg)"
  shows "sees mg (waits mg) (wait_edges mg) i (shard_at mg i)"
  using point_mode_shard [OF inv i]
  by (auto simp: sees_def wait_edges_def waits_for_def)

lemma code_step_sound:
  assumes run: "code_step mg own tid c = Some (mg', own', c')" and inv: "manager_inv mg"
    and ord: "ordered (length (shards mg)) {m. own m = Some tid} c"
    and bits: "bits mg' = bits mg" and sound: "sound_at mg j (own Waits = Some tid) c"
  shows "sound_at mg' j (own' Waits = Some tid) c'"
proof -
  note sound' = sound [unfolded sound_at_def]
  have "sound mg j (if own' Waits = Some tid then Some (waits mg', wait_edges mg') else None) c'"
  proof (cases c)
    case (Lock m k)
    with run have eq: "mg' = mg" "own' = own(m := Some tid)" "c' = k" "own m = None" by (auto split: if_splits)
    show ?thesis
    proof (cases m)
      case Waits
      with Lock sound' eq wait_edges_on show ?thesis by (auto simp: sound_simps)
    next
      case (Shard_Mutex i)
      with Lock sound' eq show ?thesis by (auto simp: sound_simps)
    qed
  next
    case (Unlock m k)
    with run have eq: "mg' = mg" "own' = own(m := None)" "c' = k" by auto
    show ?thesis
    proof (cases m)
      case Waits
      with Unlock ord have "own Waits = Some tid" by simp
      with Unlock Waits sound' eq show ?thesis by (auto simp: sound_simps)
    next
      case (Shard_Mutex i)
      with Unlock sound' eq show ?thesis by (auto simp: sound_simps)
    qed
  next
    case (On_Shard i f k)
    with run have eq: "mg' = put_shard mg i (f (shard_at mg i))" "own' = own" "c' = k (shard_at mg i)"
      by (auto simp: shard_at_def)
    from On_Shard ord have i: "i < length (shards mg)" by simp
    have sh: "shard_inv (shard_at mg i)" using shard_fitsD(1) [OF manager_inv_fits [OF inv i]] .
    show ?thesis
    proof (cases "own Waits = Some tid")
      case True
      have "f = (\<lambda>sh. sh) \<longrightarrow> wait_edges mg' = wait_edges mg \<and> sees mg (waits mg) (wait_edges mg) i (shard_at mg i)"
        using manager_sees [OF inv i] by (simp add: eq(1) put_shard_same)
      moreover have "edges_on (waits mg) (wait_edges mg')" using wait_edges_on [of mg'] eq(1) by simp
      ultimately show ?thesis using sound' True On_Shard eq sh by (simp add: sound_simps)
    next
      case False
      with sound' On_Shard eq show ?thesis by (simp add: sound_simps)
    qed
  next
    case (On_Waits f k)
    with run have eq: "mg' = mg\<lparr>waits := f (waits mg)\<rparr>" "own' = own" "c' = k (waits mg)" by auto
    from On_Waits ord have "own Waits = Some tid" by simp
    with sound' On_Waits eq wait_edges_on [of mg'] show ?thesis by (simp add: sound_simps)
  qed (use run in auto)
  then show ?thesis using sound_cong [OF bits] by (simp add: sound_at_def)
qed

lemma thread_sound_step:
  assumes run: "sys_step ord s (tid, a) = Some s'" and inv: "client_inv s" and ord: "key_order ord"
    and sound: "\<And>u. thread_sound s u"
  shows "thread_sound s' u"
proof -
  have sys: "system_inv s" using inv by (simp add: client_inv_def)
  note fr = sys_step_frame [OF run sys]
  show ?thesis
  proof (cases "u = tid")
    case True
    show ?thesis
    proof (cases a)
      case (Start j)
      note st = sys_step_Start [OF run [unfolded Start]]
      have "owner s Waits \<noteq> Some tid"
        using system_invD(1) [OF sys] ordered_held_running [of s Waits tid] st(1) by (auto simp: held_def)
      with st(2) job_code_sound [OF manager_inv_shape [OF system_invD(2) [OF sys]] ord] True show ?thesis
        by (simp add: thread_sound_def)
    next
      case Go
      from run [unfolded this] obtain j c mg' own' c' where st: "threads s tid = Running j c"
          "code_step (mgr s) (owner s) tid c = Some (mg', own', c')"
          "s' = \<lparr>mgr = mg', owner = own', threads = (threads s)(tid := Running j c')\<rparr>" by (rule sys_step_Go)
      from sound [of tid] st(1) have "sound_at (mgr s) j (owner s Waits = Some tid) c"
        by (simp add: thread_sound_def)
      moreover have "bits mg' = bits (mgr s)" using fr(3) st(3) by simp
      ultimately have "sound_at mg' j (own' Waits = Some tid) c'"
        using code_step_sound [OF st(2) system_invD(2) [OF sys] system_invD(4) [OF sys st(1)]] by blast
      then show ?thesis using st(3) True by (simp add: thread_sound_def)
    next
      case Finish
      from run [unfolded this] obtain j r where "s' = s\<lparr>threads := (threads s)(tid := Idle)\<rparr>" by (rule sys_step_Finish)
      with True show ?thesis by (simp add: thread_sound_def)
    qed
  next
    case False
    have own: "owner s' Waits = Some u \<longleftrightarrow> owner s Waits = Some u" and th: "threads s' u = threads s u"
      using fr(5) [OF False] fr(4) [OF False] by auto
    show ?thesis
    proof (cases "threads s u")
      case (Running j c)
      with sound [of u] have "sound (mgr s') j
          (if owner s Waits = Some u then Some (waits (mgr s), wait_edges (mgr s)) else None) c"
        using sound_cong [OF fr(3)] by (simp add: thread_sound_def sound_at_def)
      moreover have "waits (mgr s') = waits (mgr s) \<and> wait_edges (mgr s') = wait_edges (mgr s)"
        if "owner s Waits = Some u"
        using other_keeps_edges [OF run inv that False] by simp
      ultimately show ?thesis using Running th own by (simp add: thread_sound_def sound_at_def split: if_splits)
    qed (simp add: thread_sound_def th)
  qed
qed

text \<open>All invariants of systems with disciplined clients, in one.\<close>

definition detection_inv :: "System \<Rightarrow> bool" where
  "detection_inv s \<longleftrightarrow> client_inv s \<and> (\<forall>tid. thread_sound s tid)"

lemma detection_inv_step:
  assumes "sys_step ord s (tid, a) = Some s'" and "detection_inv s" and "key_order ord"
    and "\<forall>j. a = Start j \<longrightarrow> client_ok s tid j"
  shows "detection_inv s'"
  using assms client_inv_step thread_sound_step by (auto simp: detection_inv_def)

lemma detection_inv_fresh: "manager_inv mg \<Longrightarrow> detection_inv (fresh_system mg)"
  using client_inv_fresh by (simp add: detection_inv_def thread_sound_def fresh_system_def)

lemma concurrent_detection_inv:
  assumes "concurrent ord client_ok s" and "key_order ord"
  shows "detection_inv s"
  using assms
proof (induction rule: concurrent.induct)
  case (start oc alloc n mg)
  then show ?case using with_shards_inv(1) by (simp add: detection_inv_fresh shard_count_def)
next
  case (step s a tid s')
  then show ?case using detection_inv_step by blast
qed

text \<open>The answer with which a thread is about to leave the registry is right about the table as it is.\<close>

lemma leaving_answer:
  assumes inv: "detection_inv s" and th: "threads s tid = Running j (Unlock Waits k)"
  shows "owner s Waits = Some tid" and "answer_right j (waits (mgr s)) (wait_edges (mgr s)) k"
proof -
  have sys: "system_inv s" using inv by (simp add: detection_inv_def client_inv_def)
  from system_invD(4) [OF sys th] show own: "owner s Waits = Some tid" by simp
  have "thread_sound s tid" using inv by (simp add: detection_inv_def)
  with th own show "answer_right j (waits (mgr s)) (wait_edges (mgr s)) k"
    by (simp add: thread_sound_def sound_simps)
qed

end
