(* ===== verification/Thread_Deadlock.thy ===== *)
theory Thread_Deadlock
  imports Thread_Detection Deadlock_Freedom
begin

text \<open>
  No deadlock among concurrent disciplined clients goes unreported: whenever the registry is free,
  every cycle of waiting transactions contains one that has been told \<open>Deadlock\<close> and has not retried,
  cancelled or been aborted since.
\<close>

section \<open>Who has been told\<close>

text \<open>The answer with which a thread is about to leave the registry in a \<open>request\<close>.\<close>

fun leaving_reply :: "Thread \<Rightarrow> (TxnId \<times> Acquisition) option" where
  "leaving_reply (Running (Change (Request t r m)) (Unlock Waits (Return (Answer (Acq acq))))) = Some (t, acq)"
| "leaving_reply th = None"

definition told_after :: "System \<Rightarrow> nat \<Rightarrow> System \<Rightarrow> TxnId set \<Rightarrow> TxnId set" where
  "told_after s tid s' told =
     (let told1 = told \<inter> fmdom' (waits (mgr s')) in
      case leaving_reply (threads s tid) of
        None \<Rightarrow> told1
      | Some (t, acq) \<Rightarrow> (case acq of Deadlock d \<Rightarrow> insert t told1 | _ \<Rightarrow> told1 - {t}))"

text \<open>
  A concurrent system of disciplined clients, with an observer who writes down which of the
  registered transactions have been told \<open>Deadlock\<close> by their latest request.
\<close>

inductive observed :: "(TxnId set \<Rightarrow> TxnId list) \<Rightarrow> System \<Rightarrow> TxnId set \<Rightarrow> bool"
  for ord :: "TxnId set \<Rightarrow> TxnId list"
where
  start: "with_shards oc alloc n = Some mg \<Longrightarrow> shard_count mg \<noteq> 0 \<Longrightarrow> observed ord (fresh_system mg) {}"
| step: "observed ord s told \<Longrightarrow> (\<forall>j. a = Start j \<longrightarrow> client_ok s tid j) \<Longrightarrow>
    sys_step ord s (tid, a) = Some s' \<Longrightarrow> observed ord s' (told_after s tid s' told)"

lemma observed_concurrent: "observed ord s told \<Longrightarrow> concurrent ord client_ok s"
  by (induction rule: observed.induct) (auto intro: concurrent.intros)

section \<open>The invariant\<close>

definition requester :: "System \<Rightarrow> TxnId set" where
  "requester s =
     (case owner s Waits of
        None \<Rightarrow> {}
      | Some tid \<Rightarrow> (case threads s tid of Running j c \<Rightarrow> if is_request j then job_txns j else {} | Idle \<Rightarrow> {}))"

text \<open>The wait-for relation without the edges that leave \<open>X\<close>.\<close>

definition edges_outside :: "LockManager \<Rightarrow> TxnId set \<Rightarrow> (TxnId \<times> TxnId) set" where
  "edges_outside mg X = {(w, u). waits_for mg w u \<and> w \<notin> X}"

lemma waits_for_dom: "waits_for mg w u \<Longrightarrow> w \<in> fmdom' (waits mg)"
  by (auto simp: waits_for_def fmlookup_dom'_iff)

lemma acyclic_new_source:
  assumes acy: "acyclic r" and new: "\<And>w u. (w, u) \<in> r' \<Longrightarrow> (w, u) \<in> r \<or> w = t" and no: "(t, t) \<notin> r'\<^sup>+"
  shows "acyclic r'"
proof -
  have "(x, y) \<in> r'\<^sup>+ \<Longrightarrow> (x, y) \<in> r\<^sup>+ \<or> (x, t) \<in> r'\<^sup>* \<and> (t, y) \<in> r'\<^sup>+" for x y
  proof (induction rule: trancl_induct)
    case (base y)
    then show ?case using new by (cases "x = t") auto
  next
    case (step y z)
    then show ?case using new [of y z]
      by (cases "y = t") (auto intro: trancl_into_trancl dest: trancl_into_rtrancl)
  qed
  then have "(x, x) \<notin> r'\<^sup>+" for x
    using acy no unfolding acyclic_def by (meson rtrancl_trancl_trancl trancl_rtrancl_trancl)
  then show ?thesis by (simp add: acyclic_def)
qed

definition observed_inv :: "System \<Rightarrow> TxnId set \<Rightarrow> bool" where
  "observed_inv s told \<longleftrightarrow> detection_inv s \<and> acyclic (edges_outside (mgr s) (told \<union> requester s))"

lemma requester_step:
  assumes th: "threads s tid = Running j c" and th': "threads s' tid = Running j c'"
    and others: "\<And>u. u \<noteq> tid \<Longrightarrow> threads s' u = threads s u" and own: "owner s' Waits = owner s Waits"
  shows "requester s' = requester s"
proof (cases "owner s Waits")
  case (Some u)
  then show ?thesis using others [of u] own th th' by (cases "u = tid") (simp_all add: requester_def)
qed (simp add: requester_def own)

text \<open>A step that leaves the waits-for edges of everybody but the requester alone.\<close>

lemma observed_subset:
  assumes "acyclic (edges_outside mg X)" and "\<And>w u. waits_for mg' w u \<Longrightarrow> w \<notin> X' \<Longrightarrow> waits_for mg w u \<and> w \<notin> X"
  shows "acyclic (edges_outside mg' X')"
  using assms(1) by (rule acyclic_subset) (use assms(2) in \<open>auto simp: edges_outside_def\<close>)

lemma observed_go:
  assumes run: "sys_step ord s (tid, Go) = Some s'" and inv: "observed_inv s told"
  shows "acyclic (edges_outside (mgr s') (told_after s tid s' told \<union> requester s'))"
proof -
  have det: "detection_inv s" and acy: "acyclic (edges_outside (mgr s) (told \<union> requester s))"
    using inv by (simp_all add: observed_inv_def)
  have client: "client_inv s" and sys: "system_inv s" using det by (simp_all add: detection_inv_def client_inv_def)
  from run obtain j c mg' own' c' where st: "threads s tid = Running j c"
      "code_step (mgr s) (owner s) tid c = Some (mg', own', c')"
      "s' = \<lparr>mgr = mg', owner = own', threads = (threads s)(tid := Running j c')\<rparr>" by (rule sys_step_Go)
  note ord = system_invD(4) [OF sys st(1)] and wr = system_invD(3) [OF sys st(1)]
  note eff = code_step_effect [OF st(2) system_invD(2) [OF sys] ord wr]
  have calm: "calm_at (mgr s) (is_request j) (job_txns j) (owner s Waits = Some tid) c"
    using client st(1) by (auto simp: client_inv_def thread_calm_def dest!: spec [of _ tid])
  have req: "requester s' = requester s" if "own' Waits = owner s Waits"
    using that st by (intro requester_step [OF st(1)]) auto
  have told: "told_after s tid s' told = told \<inter> fmdom' (waits mg')" if "\<And>k. c \<noteq> Unlock Waits k"
  proof -
    have "leaving_reply (threads s tid) = None"
      using that st(1) by (cases "Running j c" rule: leaving_reply.cases) auto
    then show ?thesis using st(3) by (simp add: told_after_def)
  qed
  show ?thesis
  proof (cases c)
    case (Lock m k)
    with st(2) have eq: "mg' = mgr s" "own' = (owner s)(m := Some tid)" "owner s m = None" by (auto split: if_splits)
    have "requester s \<subseteq> requester s'"
    proof (cases m)
      case Waits
      with eq(3) show ?thesis by (simp add: requester_def)
    next
      case (Shard_Mutex i)
      with req eq(2) show ?thesis by simp
    qed
    with told Lock eq(1) st(3) show ?thesis
      by (intro observed_subset [OF acy]) (auto dest: waits_for_dom)
  next
    case (Unlock m k)
    with st(2) have eq: "mg' = mgr s" "own' = (owner s)(m := None)" "c' = k" by auto
    show ?thesis
    proof (cases m)
      case (Shard_Mutex i)
      with req eq told Unlock st(3) show ?thesis
        by (intro observed_subset [OF acy]) (auto dest: waits_for_dom)
    next
      case Waits
      note out = leaving_answer [OF det, of tid j k]
      have own: "owner s Waits = Some tid" and right: "answer_right j (waits (mgr s)) (wait_edges (mgr s)) k"
        using out st(1) Unlock Waits by auto
      have none: "requester s' = {}" using st(3) eq(2) Waits by (simp add: requester_def)
      show ?thesis
      proof (cases "is_request j")
        case False
        then have "requester s = {}" using own st(1) by (simp add: requester_def)
        moreover have "leaving_reply (threads s tid) = None"
          using False st(1) by (cases "Running j c" rule: leaving_reply.cases) auto
        ultimately show ?thesis
          using none st(3) eq(1)
          by (intro observed_subset [OF acy]) (auto simp: told_after_def dest: waits_for_dom)
      next
        case True
        then obtain t r m' where j: "j = Change (Request t r m')"
          by (cases j) (auto split: Call.splits)
        then have req_t: "requester s = {t}" using own st(1) by (simp add: requester_def)
        from right j obtain acq where acq: "k = Return (Answer (Acq acq))"
            "request_right t r m' (waits (mgr s)) (wait_edges (mgr s)) acq" by (auto simp: answer_right_def)
        have after: "told_after s tid s' told = (let told1 = told \<inter> fmdom' (waits (mgr s)) in
            case acq of Deadlock d \<Rightarrow> insert t told1 | _ \<Rightarrow> told1 - {t})"
          using st(1,3) Unlock Waits j acq(1) eq(1) by (simp add: told_after_def)
        show ?thesis
        proof (cases acq)
          case Granted
          with acq(2) have "t \<notin> fmdom' (waits (mgr s))" by (simp add: request_right_def fmlookup_dom'_iff)
          with Granted after none req_t st(3) eq(1) show ?thesis
            by (intro observed_subset [OF acy]) (auto dest: waits_for_dom)
        next
          case (Deadlock d)
          with after none req_t st(3) eq(1) show ?thesis
            by (intro observed_subset [OF acy]) (auto dest: waits_for_dom)
        next
          case Waiting
          with acq(2) have "(t, t) \<notin> (wait_rel (mgr s))\<^sup>+"
            using registered.no_cycle_reachable [of t "mgr s"] by (auto simp: request_right_def)
          moreover have "edges_outside (mgr s') X \<subseteq> wait_rel (mgr s)" for X
            using st(3) eq(1) by (auto simp: edges_outside_def wait_rel_def)
          ultimately have "(t, t) \<notin> (edges_outside (mgr s') X)\<^sup>+" for X using trancl_mono by blast
          moreover have "(w, u) \<in> edges_outside (mgr s) (told \<union> requester s) \<or> w = t"
            if "(w, u) \<in> edges_outside (mgr s') (told_after s tid s' told \<union> requester s')" for w u
            using that Waiting after none req_t st(3) eq(1) by (auto simp: edges_outside_def dest: waits_for_dom)
          ultimately show ?thesis using acyclic_new_source [OF acy] by blast
        qed
      qed
    qed
  next
    case (On_Shard i f k)
    with st(2) have eq: "waits mg' = waits (mgr s)" "own' = owner s" by (auto simp: put_shard_def)
    have same: "holds mg' u = holds (mgr s) u" if "u \<notin> job_txns j" for u
      using eff(3) [OF that] by (rule locks_of_holds)
    have keep: "w \<notin> told \<union> requester s"
      if "waits_for mg' w u" "w \<notin> told_after s tid s' told \<union> requester s'" for w u
      using that told On_Shard req eq by (auto dest: waits_for_dom)
    show ?thesis
    proof (cases "\<forall>t \<in> job_txns j. holds mg' t = holds (mgr s) t")
      case True
      then have "waits_for mg' w u = waits_for (mgr s) w u" for w u
        using same [of u] eq(1) by (intro waits_for_cong) auto
      with keep st(3) show ?thesis by (intro observed_subset [OF acy]) auto
    next
      case False
      then obtain t where t: "t \<in> job_txns j" "holds mg' t \<noteq> holds (mgr s) t" by blast
      then have T: "job_txns j = {t}" by (cases j) auto
      have sink: "t \<notin> fmdom' (waits (mgr s)) \<or> t \<in> requester s"
      proof (rule ccontr)
        assume no: "\<not> (t \<notin> fmdom' (waits (mgr s)) \<or> t \<in> requester s)"
        define h where "h = (if owner s Waits = Some tid then Some (waits (mgr s)) else None)"
        have "calm (mgr s) (is_request j) t h c"
          using calm no by (auto simp: calm_at_def h_def split: if_splits)
        moreover have "\<not> (is_request j \<and> h \<noteq> None)"
          using no st(1) T by (auto simp: requester_def h_def)
        ultimately have "holds mg' t = holds (mgr s) t"
          by (rule code_step_keeps [OF st(2) system_invD(2) [OF sys] ord wr])
        with t(2) show False by simp
      qed
      show ?thesis
      proof (rule acyclic_sink [OF acy, of _ t])
        fix w u assume wu: "(w, u) \<in> edges_outside (mgr s') (told_after s tid s' told \<union> requester s')"
        then have "waits_for mg' w u" "w \<notin> told \<union> requester s" using keep st(3) by (auto simp: edges_outside_def)
        moreover have "waits_for mg' w u = waits_for (mgr s) w u" if "u \<noteq> t"
          using same [of u] T that eq(1) by (intro waits_for_cong) auto
        ultimately show "(w, u) \<in> edges_outside (mgr s) (told \<union> requester s) \<or> u = t" by (auto simp: edges_outside_def)
      next
        fix u show "(t, u) \<notin> edges_outside (mgr s') (told_after s tid s' told \<union> requester s')"
          using sink keep [of t u] st(3) eq(1) waits_for_dom [of mg' t u] by (auto simp: edges_outside_def)
      qed
    qed
  next
    case (On_Waits f k)
    with st(2) have eq: "mg' = (mgr s)\<lparr>waits := f (waits (mgr s))\<rparr>" "own' = owner s" by auto
    from ord On_Waits have own: "owner s Waits = Some tid" by simp
    have same: "fmlookup (waits mg') w = fmlookup (waits (mgr s)) w"
      if "w \<in> fmdom' (waits mg')" "w \<notin> requester s" for w
    proof (cases "w \<in> job_txns j")
      case True
      with that(2) own st(1) have "\<not> is_request j" by (auto simp: requester_def)
      with calm own On_Waits have "fmlookup (f (waits (mgr s))) w = None
          \<or> fmlookup (f (waits (mgr s))) w = fmlookup (waits (mgr s)) w" by simp
      with that(1) eq(1) show ?thesis by (auto simp: fmlookup_dom'_iff)
    next
      case False
      then show ?thesis by (rule eff(4))
    qed
    show ?thesis
    proof (rule observed_subset [OF acy])
      fix w u assume w: "waits_for (mgr s') w u" "w \<notin> told_after s tid s' told \<union> requester s'"
      then have dom: "w \<in> fmdom' (waits mg')" using waits_for_dom st(3) by auto
      with w told On_Waits req eq(2) have "w \<notin> told \<union> requester s" by auto
      moreover have "waits_for (mgr s') w u = waits_for (mgr s) w u"
        using same [OF dom] calculation st(3) eq(1) by (intro waits_for_cong) auto
      ultimately show "waits_for (mgr s) w u \<and> w \<notin> told \<union> requester s" using w(1) by blast
    qed
  qed (use st(2) in auto)
qed

lemma observed_idle:
  assumes "mgr s' = mgr s" and "owner s' = owner s" and "\<And>u. owner s Waits = Some u \<Longrightarrow> threads s' u = threads s u"
    and "leaving_reply (threads s tid) = None" and acy: "acyclic (edges_outside (mgr s) (told \<union> requester s))"
  shows "acyclic (edges_outside (mgr s') (told_after s tid s' told \<union> requester s'))"
proof -
  have "requester s' = requester s" using assms(2,3) by (auto simp: requester_def split: option.splits)
  with assms(1,4) show ?thesis
    by (intro observed_subset [OF acy]) (auto simp: told_after_def dest: waits_for_dom)
qed

lemma observed_inv_step:
  assumes run: "sys_step ord s (tid, a) = Some s'" and inv: "observed_inv s told" and ord: "key_order ord"
    and may: "\<forall>j. a = Start j \<longrightarrow> client_ok s tid j"
  shows "observed_inv s' (told_after s tid s' told)"
proof -
  have det: "detection_inv s" and acy: "acyclic (edges_outside (mgr s) (told \<union> requester s))"
    using inv by (simp_all add: observed_inv_def)
  have sys: "system_inv s" using det by (simp add: detection_inv_def client_inv_def)
  have "acyclic (edges_outside (mgr s') (told_after s tid s' told \<union> requester s'))"
  proof (cases a)
    case (Start j)
    note st = sys_step_Start [OF run [unfolded Start]]
    have "owner s Waits \<noteq> Some tid"
      using system_invD(1) [OF sys] ordered_held_running [of s Waits tid] st(1) by (auto simp: held_def)
    with st show ?thesis by (intro observed_idle [OF _ _ _ _ acy]) auto
  next
    case Go
    with observed_go [OF _ inv] run show ?thesis by blast
  next
    case Finish
    from run [unfolded this] obtain j r where st: "threads s tid = Running j (Return r)"
        "s' = s\<lparr>threads := (threads s)(tid := Idle)\<rparr>" by (rule sys_step_Finish)
    have "owner s Waits \<noteq> Some tid" using system_invD(4) [OF sys st(1)] by auto
    moreover have "leaving_reply (threads s tid) = None"
      using st(1) by (cases "threads s tid" rule: leaving_reply.cases) auto
    ultimately show ?thesis using st by (intro observed_idle [OF _ _ _ _ acy]) auto
  qed
  with detection_inv_step [OF run det ord may] show ?thesis by (simp add: observed_inv_def)
qed

lemma observed_observed_inv:
  assumes "observed ord s told" and "key_order ord"
  shows "observed_inv s told"
  using assms
proof (induction rule: observed.induct)
  case (start oc alloc n mg)
  then have "manager_inv mg" "waits mg = fmempty"
    using with_shards_inv(1,2) by (simp_all add: shard_count_def)
  then show ?case
    using detection_inv_fresh
    by (simp add: observed_inv_def edges_outside_def waits_for_def fresh_system_def acyclic_def)
next
  case (step s told a tid s')
  then show ?case using observed_inv_step by blast
qed

text \<open>A cycle has a member that was told, or the registry is held by the request that closed it.\<close>

lemma observed_cycle_told:
  assumes inv: "observed_inv s told" and c: "deadlock_cycle (mgr s) c"
  shows "\<exists>t \<in> set c. t \<in> told \<union> requester s"
proof (rule ccontr)
  assume no: "\<not> ?thesis"
  have "circle (edges_outside (mgr s) (told \<union> requester s)) c"
    using c no nth_mem by (fastforce simp: circle_def deadlock_cycle_def edges_outside_def)
  moreover have "hd c \<in> set c" using c by (simp add: deadlock_cycle_def)
  ultimately have "(hd c, hd c) \<in> (edges_outside (mgr s) (told \<union> requester s))\<^sup>+" by (rule circle_trancl)
  with inv show False by (simp add: observed_inv_def acyclic_def)
qed

end
