(* ===== verification/Thread_Runs.thy ===== *)
theory Thread_Runs
  imports Thread_Deadlock
begin

text \<open>
  Schedules: what a transaction that nobody works for keeps, and runs of concrete schedules on a
  manager with four shards, the clients' discipline checked at every start.
\<close>

section \<open>Transactions at rest\<close>

text \<open>Nobody works for \<open>t\<close>.\<close>

definition at_rest :: "System \<Rightarrow> TxnId \<Rightarrow> bool" where
  "at_rest s t \<longleftrightarrow> (\<forall>u j c. threads s u = Running j c \<longrightarrow> t \<notin> job_txns j)"

lemma at_rest_step:
  assumes run: "sys_step ord s (u, a) = Some s'" and rest: "at_rest s t" and a: "\<forall>j. a = Start j \<longrightarrow> t \<notin> job_txns j"
  shows "at_rest s' t"
proof (cases a)
  case (Start j)
  with sys_step_Start [OF run [unfolded Start]] rest a show ?thesis by (auto simp: at_rest_def)
next
  case Go
  from run [unfolded this] obtain j c mg' own' c' where "threads s u = Running j c"
      "s' = \<lparr>mgr = mg', owner = own', threads = (threads s)(u := Running j c')\<rparr>" by (rule sys_step_Go)
  with rest show ?thesis by (auto simp: at_rest_def)
next
  case Finish
  from run [unfolded this] obtain j r where "s' = s\<lparr>threads := (threads s)(u := Idle)\<rparr>" by (rule sys_step_Finish)
  with rest show ?thesis by (auto simp: at_rest_def)
qed

lemma at_rest_run:
  assumes "sys_run ord s as = Some s'" and "system_inv s" and "at_rest s t" and "\<not> starts_for as t"
  shows "locks_of (mgr s') t = locks_of (mgr s) t \<and> fmlookup (waits (mgr s')) t = fmlookup (waits (mgr s)) t"
  using assms
proof (induction as arbitrary: s)
  case (Cons x as)
  obtain u a where x: "x = (u, a)" by fastforce
  with Cons.prems(1) obtain s1 where s1: "sys_step ord s (u, a) = Some s1" "sys_run ord s1 as = Some s'"
    by (auto simp: bind_eq_Some_conv)
  have st: "\<forall>j. a = Start j \<longrightarrow> t \<notin> job_txns j" and no: "\<not> starts_for as t"
    using Cons.prems(4) x by (auto simp: starts_for_def)
  have "a = Go \<longrightarrow> (\<forall>j c. threads s u = Running j c \<longrightarrow> t \<notin> job_txns j)"
    using Cons.prems(3) by (simp add: at_rest_def)
  from sys_step_effect(2) [OF s1(1) Cons.prems(2) this]
    Cons.IH [OF s1(2) sys_step_frame(1) [OF s1(1) Cons.prems(2)] at_rest_step [OF s1(1) Cons.prems(3) st] no]
  show ?case by simp
qed simp

lemma sys_run_inv: "sys_run ord s as = Some s' \<Longrightarrow> system_inv s \<Longrightarrow> system_inv s'"
proof (induction as arbitrary: s)
  case (Cons x as)
  then show ?case using sys_step_frame(1) by (cases x) (auto simp: bind_eq_Some_conv)
qed simp

section \<open>Concrete schedules\<close>

text \<open>\<open>us\<close> lists the threads that the schedule uses.\<close>

definition may_start :: "nat list \<Rightarrow> System \<Rightarrow> Action \<Rightarrow> bool" where
  "may_start us s a =
     (case a of
        Start j \<Rightarrow> list_all (\<lambda>u. unfinished s u \<longrightarrow> job_txns j \<inter> jobs_txns s u = {}) us \<and> suspended_ok s j
      | _ \<Rightarrow> True)"

fun watched_run ::
  "(TxnId set \<Rightarrow> TxnId list) \<Rightarrow> nat list \<Rightarrow> System \<times> TxnId set \<Rightarrow> (nat \<times> Action) list \<Rightarrow> (System \<times> TxnId set) option"
where
  "watched_run ord us (s, told) [] = Some (s, told)"
| "watched_run ord us (s, told) ((tid, a) # as) =
     (if list_ex (\<lambda>u. u = tid) us \<and> may_start us s a
      then Option.bind (sys_step ord s (tid, a)) (\<lambda>s'. watched_run ord us (s', told_after s tid s' told) as)
      else None)"

lemma may_start_ok:
  assumes "may_start us s a" and "\<forall>u. u \<notin> set us \<longrightarrow> threads s u = Idle"
  shows "\<forall>j. a = Start j \<longrightarrow> client_ok s tid j"
proof (intro allI impI)
  fix j assume a: "a = Start j"
  have "unfinished s u \<Longrightarrow> u \<in> set us" for u using assms(2) by (auto simp: unfinished_def split: Thread.splits)
  with assms(1) a show "client_ok s tid j" by (auto simp: may_start_def client_ok_def list_all_iff)
qed

lemma watched_run_observed:
  assumes "watched_run ord us (s, told) as = Some (s', told')" and "observed ord s told"
    and "\<forall>u. u \<notin> set us \<longrightarrow> threads s u = Idle"
  shows "observed ord s' told'"
  using assms
proof (induction as arbitrary: s told)
  case (Cons x as)
  obtain tid a where x: "x = (tid, a)" by fastforce
  with Cons.prems(1) obtain s1 where s1: "tid \<in> set us" "may_start us s a" "sys_step ord s (tid, a) = Some s1"
      "watched_run ord us (s1, told_after s tid s1 told) as = Some (s', told')"
    by (auto simp: bind_eq_Some_conv list_ex_iff split: if_splits)
  have obs: "observed ord s1 (told_after s tid s1 told)"
    using observed.step [OF Cons.prems(2) may_start_ok [OF s1(2) Cons.prems(3)] s1(3)] .
  have "system_inv s" using concurrent_inv [OF observed_concurrent [OF Cons.prems(2)]] .
  then have "threads s1 u = threads s u" if "u \<noteq> tid" for u using sys_step_frame(4) [OF s1(3)] that by blast
  with Cons.prems(3) s1(1) have "\<forall>u. u \<notin> set us \<longrightarrow> threads s1 u = Idle" by metis
  from Cons.IH [OF s1(4) obs this] show ?case .
qed simp

text \<open>A schedule of threads 0 and 1 on a new manager.\<close>

definition race :: "(nat \<times> Action) list \<Rightarrow> (System \<times> TxnId set) option" where
  "race as = Option.bind (with_shards True (\<lambda>_. True) 3) (\<lambda>mg.
     watched_run sorted_list_of_set [0, 1] (fresh_system mg, {}) as)"

lemma race_observed: "race as = Some (s, told) \<Longrightarrow> observed sorted_list_of_set s told"
proof -
  assume "race as = Some (s, told)"
  then obtain mg where mg: "with_shards True (\<lambda>_. True) 3 = Some mg"
      "watched_run sorted_list_of_set [0, 1] (fresh_system mg, {}) as = Some (s, told)"
    by (auto simp: race_def bind_eq_Some_conv)
  with four_shards have "observed sorted_list_of_set (fresh_system mg) {}"
    using observed.start [OF mg(1)] by fastforce
  from watched_run_observed [OF mg(2) this] show ?thesis by (simp add: fresh_system_def)
qed

lemma concurrent_mono:
  "concurrent ord may s \<Longrightarrow> (\<And>s tid j. may s tid j \<Longrightarrow> may' s tid j) \<Longrightarrow> concurrent ord may' s"
proof (induction rule: concurrent.induct)
  case (step s a tid s')
  from concurrent.step [OF _ _ step.hyps(3)] step.IH step.hyps(2) step.prems show ?case by blast
qed (rule concurrent.start)

text \<open>A schedule that runs, with facts about the state it leads to.\<close>

lemma race_state:
  assumes "map_option f (race as) = Some x"
  shows "\<exists>s told. race as = Some (s, told) \<and> f (s, told) = x \<and> observed sorted_list_of_set s told
    \<and> concurrent sorted_list_of_set client_ok s \<and> concurrent sorted_list_of_set (\<lambda>s tid j. True) s"
proof -
  from assms obtain s told where st: "race as = Some (s, told)" "f (s, told) = x" by auto
  note obs = race_observed [OF st(1)]
  from concurrent_mono [OF observed_concurrent [OF obs], of "\<lambda>s tid j. True"] st obs observed_concurrent [OF obs]
  show ?thesis by blast
qed

abbreviation go :: "nat \<Rightarrow> nat \<Rightarrow> (nat \<times> Action) list" where
  "go tid n \<equiv> replicate n (tid, Go)"


lemma watched_run_idle:
  "watched_run ord us (s, told) as = Some (s', told') \<Longrightarrow> system_inv s \<Longrightarrow> u \<notin> set us \<Longrightarrow> threads s' u = threads s u"
proof (induction as arbitrary: s told)
  case (Cons x as)
  obtain tid a where x: "x = (tid, a)" by fastforce
  with Cons.prems(1) obtain s1 where s1: "tid \<in> set us" "sys_step ord s (tid, a) = Some s1"
      "watched_run ord us (s1, told_after s tid s1 told) as = Some (s', told')"
    by (auto simp: bind_eq_Some_conv list_ex_iff split: if_splits)
  with Cons.prems(3) have "u \<noteq> tid" by blast
  with Cons.IH [OF s1(3) sys_step_frame(1) [OF s1(2) Cons.prems(2)] Cons.prems(3)]
    sys_step_frame(4) [OF s1(2) Cons.prems(2)] show ?case by simp
qed simp

lemma race_idle:
  assumes "race as = Some (s, told)" and "u \<notin> {0, 1}"
  shows "threads s u = Idle"
proof -
  from assms(1) obtain mg where mg: "with_shards True (\<lambda>_. True) 3 = Some mg"
      "watched_run sorted_list_of_set [0, 1] (fresh_system mg, {}) as = Some (s, told)"
    by (auto simp: race_def bind_eq_Some_conv)
  then have "shards mg \<noteq> []" using four_shards by (fastforce simp: shard_count_def)
  from fresh_system_inv [OF with_shards_inv(1) [OF mg(1) this]] have "system_inv (fresh_system mg)" .
  from watched_run_idle [OF mg(2) this] assms(2) show ?thesis by (simp add: fresh_system_def)
qed

definition is_idle :: "Thread \<Rightarrow> bool" where
  "is_idle th = (case th of Idle \<Rightarrow> True | Running j c \<Rightarrow> False)"

lemma is_idle_iff: "is_idle th \<longleftrightarrow> th = Idle"
  by (simp add: is_idle_def split: Thread.splits)

lemma race_all_idle:
  assumes "race as = Some (s, told)" and "is_idle (threads s 0)" and "is_idle (threads s 1)"
  shows "at_rest s t" and "works_alone s tid t"
proof -
  have "threads s u = Idle" for u
    using race_idle [OF assms(1), of u] assms(2,3) by (cases "u \<in> {0, 1}") (auto simp: is_idle_iff)
  then show "at_rest s t" "works_alone s tid t" by (simp_all add: at_rest_def works_alone_def)
qed

lemma leaving_reply_Some:
  "leaving_reply th = Some (t, acq) \<Longrightarrow>
   \<exists>r m. th = Running (Change (Request t r m)) (Unlock Waits (Return (Answer (Acq acq))))"
  by (cases th rule: leaving_reply.cases) auto

end
