(* ===== verification/Thread_Requests.thy ===== *)
theory Thread_Requests
  imports Thread_Detection
begin

text \<open>
  What \<open>request\<close> has done by the time it answers, among concurrent operations.  The decision to grant or
  to refuse is taken in one instruction, exactly as \<open>try_acquire\<close> takes it when it runs alone; and when
  the answer leaves the registry, the requester still holds what it was granted, or still lacks what it
  was refused.
\<close>

section \<open>The lock of the requester\<close>

definition covered :: "LockMode option \<Rightarrow> LockMode \<Rightarrow> bool" where
  "covered h mode \<longleftrightarrow> (case h of None \<Rightarrow> False | Some m \<Rightarrow> covers m mode)"

lemma covered_granted_mode: "covered (Some (granted_mode h mode)) mode"
  using modes.above_lub modes.above_refl by (auto simp: covered_def granted_mode_def split: option.split)

text \<open>A grant leaves the transaction with what it asked for, and only a transaction without it is refused.\<close>

lemma grant_section_covered:
  assumes inv: "shard_inv sh"
  shows "covered (point_mode (snd (grant_section t r m sh)) t r) m \<longleftrightarrow> fst (grant_section t r m sh)"
proof -
  obtain granted sh' where run: "grant_section t r m sh = (granted, sh')" by fastforce
  note eff = grant_section_effect [OF inv run]
  show ?thesis
  proof (cases granted)
    case True
    with run eff(2) [of t r] show ?thesis by (simp add: covered_granted_mode)
  next
    case False
    have "\<not> covered (point_mode sh t r) m"
    proof
      assume "covered (point_mode sh t r) m"
      then obtain cur where cur: "point_mode sh t r = Some cur" "covers cur m"
        by (auto simp: covered_def split: option.splits)
      then have "granted_mode (point_mode sh t r) m = cur" by (simp add: granted_mode_def covers_join)
      with eff(1) point_modes_compatible [OF inv _ cur(1)] False show False by auto
    qed
    with run eff(4) False show ?thesis by simp
  qed
qed

text \<open>
  \<open>truthful mg t r m b c\<close>: \<open>b\<close> says whether the transaction holds what it asks for; code \<open>c\<close> then leaves
  the registry with \<open>Granted\<close> or with a refusal accordingly.
\<close>

inductive truthful ::
  "LockManager \<Rightarrow> TxnId \<Rightarrow> ResourceId \<Rightarrow> LockMode \<Rightarrow> bool \<Rightarrow> Reply Code \<Rightarrow> bool"
  for mg :: LockManager and t :: TxnId and r :: ResourceId and m :: LockMode where
  "truthful mg t r m b (Return x)"
| "truthful mg t r m b k \<Longrightarrow> truthful mg t r m b (Lock l k)"
| "truthful mg t r m b k \<Longrightarrow> (l = Waits \<Longrightarrow> \<exists>acq. k = Return (Answer (Acq acq)) \<and> (acq = Granted \<longleftrightarrow> b)) \<Longrightarrow>
    truthful mg t r m b (Unlock l k)"
| "(\<And>w. truthful mg t r m b (k w)) \<Longrightarrow> truthful mg t r m b (On_Waits f k)"
| "(\<And>sh. shard_inv sh \<Longrightarrow> (i = route mg r \<Longrightarrow> covered (point_mode sh t r) m = b) \<Longrightarrow>
      truthful mg t r m (if i = route mg r then covered (point_mode (f sh) t r) m else b) (k sh)) \<Longrightarrow>
    truthful mg t r m b (On_Shard i f k)"

inductive_simps truthful_simps [simp]:
  "truthful mg t r m b (Return x)" "truthful mg t r m b Panic" "truthful mg t r m b (Lock l k)"
  "truthful mg t r m b (Unlock l k)" "truthful mg t r m b (On_Waits f k)" "truthful mg t r m b (On_Shard i f k)"

lemma truthful_cong:
  assumes bits: "bits mg' = bits mg" and "truthful mg t r m b c"
  shows "truthful mg' t r m b c"
  using assms(2) by induction (auto simp: route_cong [OF bits])

lemma peek_truthful:
  assumes "shape_ok mg" and "\<And>x. truthful mg t r m b (k x)"
  shows "truthful mg t r m b (on_resource mg res (peek look) k)"
  using route_less [OF assms(1), of res] assms(2)
  by (auto simp: on_resource_def section_code_def route_def Let_def)

lemma build_loop_truthful:
  assumes "shape_ok mg" and "\<And>g. truthful mg t r m b (k g)"
  shows "truthful mg t r m b (build_loop mg w xs g k)"
  by (induction xs arbitrary: g) (auto simp: assms split: option.split intro!: peek_truthful)

lemma detection_answer_refuses: "detection_answer g t \<noteq> Granted"
  by (simp add: detection_answer_def Let_def split: option.split)

lemma request_code_truthful:
  assumes shape: "shape_ok mg"
  shows "truthful mg t r m b (request_code ord mg t r m)"
proof -
  have "unat (shard_index mg r) < length (shards mg)" using route_less [OF shape, of r] by (simp add: route_def)
  moreover have "truthful mg t r m False (build_code ord mg w (\<lambda>g. Unlock Waits (Return (Answer (Acq (detection_answer g t))))))"
    for w
    unfolding build_code_def by (rule build_loop_truthful [OF shape]) (simp add: detection_answer_refuses)
  ultimately show ?thesis
    by (auto simp: request_code_def on_resource_def section_code_def Let_def route_def grant_section_covered)
qed

text \<open>Every thread with a request under way will leave the registry with the truth.\<close>

definition thread_truthful :: "System \<Rightarrow> nat \<Rightarrow> bool" where
  "thread_truthful s tid \<longleftrightarrow> (\<forall>t r m c. threads s tid = Running (Change (Request t r m)) c \<longrightarrow>
     truthful (mgr s) t r m (covered (holds (mgr s) t r) m) c)"

lemma code_step_truthful:
  assumes run: "code_step mg own tid c = Some (mg', own', c')" and inv: "manager_inv mg"
    and ord: "ordered (length (shards mg)) {l. own l = Some tid} c" and wr: "writes mg T c"
    and bits: "bits mg' = bits mg" and c: "truthful mg t r m (covered (holds mg t r) m) c"
  shows "truthful mg' t r m (covered (holds mg' t r) m) c'"
proof -
  have "truthful mg t r m (covered (holds mg' t r) m) c'"
  proof (cases c)
    case (On_Shard i f k)
    with ord have i: "i < length (shards mg)" by simp
    note fits = manager_inv_fits [OF inv i]
    have mg': "mg' = put_shard mg i (f (shard_at mg i))" "c' = k (shard_at mg i)"
      using run On_Shard by (simp_all add: shard_at_def)
    from On_Shard wr have "shard_write mg T i f" by simp
    from shard_writeD(1) [OF this fits] have fits': "shard_fits mg i (f (shard_at mg i))" .
    have held: "i = route mg r \<Longrightarrow> point_mode (shard_at mg i) t r = holds mg t r"
      using point_mode_shard [OF inv i] by simp
    have "truthful mg t r m
        (if i = route mg r then covered (point_mode (f (shard_at mg i)) t r) m else covered (holds mg t r) m)
        (k (shard_at mg i))"
      using c On_Shard shard_fitsD(1) [OF fits] held by simp
    moreover have "holds mg' t r = (if i = route mg r then point_mode (f (shard_at mg i)) t r else holds mg t r)"
      using put_shard_inv(2) [OF inv i fits'] mg'(1) by simp
    ultimately show ?thesis using mg'(2) by (simp split: if_splits)
  qed (use run c in \<open>auto split: if_splits\<close>)
  then show ?thesis using truthful_cong [OF bits] by blast
qed

lemma thread_truthful_step:
  assumes run: "sys_step ord s (tid, a) = Some s'" and inv: "client_inv s"
    and u: "thread_truthful s u"
  shows "thread_truthful s' u"
  unfolding thread_truthful_def
proof (intro allI impI)
  fix t r m c assume th: "threads s' u = Running (Change (Request t r m)) c"
  have sys: "system_inv s" and exc: "exclusive s" using inv by (simp_all add: client_inv_def)
  note fr = sys_step_frame [OF run sys]
  show "truthful (mgr s') t r m (covered (holds (mgr s') t r) m) c"
  proof (cases "u = tid")
    case True
    show ?thesis
    proof (cases a)
      case (Start j)
      with sys_step_Start(2) [OF run [unfolded Start]] th True show ?thesis
        using request_code_truthful [OF manager_inv_shape [OF system_invD(2) [OF sys]]] by auto
    next
      case Go
      from run [unfolded this] obtain j c0 mg' own' c' where st: "threads s tid = Running j c0"
          "code_step (mgr s) (owner s) tid c0 = Some (mg', own', c')"
          "s' = \<lparr>mgr = mg', owner = own', threads = (threads s)(tid := Running j c')\<rparr>" by (rule sys_step_Go)
      with th True have j: "j = Change (Request t r m)" "c = c'" by auto
      have "bits mg' = bits (mgr s)" using fr(3) st(3) by simp
      moreover have "truthful (mgr s) t r m (covered (holds (mgr s) t r) m) c0"
        using u st(1) j True by (simp add: thread_truthful_def)
      ultimately show ?thesis
        using code_step_truthful [OF st(2) system_invD(2) [OF sys] system_invD(4) [OF sys st(1)]
            system_invD(3) [OF sys st(1)]] st(3) j(2) by simp
    next
      case Finish
      from run [unfolded this] obtain j q where "s' = s\<lparr>threads := (threads s)(tid := Idle)\<rparr>" by (rule sys_step_Finish)
      with th True show ?thesis by simp
    qed
  next
    case False
    with fr(4) th have th0: "threads s u = Running (Change (Request t r m)) c" by simp
    show ?thesis
    proof (cases "\<exists>q. c = Return q")
      case unfinished: False
      have "a = Go \<longrightarrow> (\<forall>j c. threads s tid = Running j c \<longrightarrow> t \<notin> job_txns j)"
      proof (intro impI allI)
        fix j1 c1 assume "a = Go" and c1: "threads s tid = Running j1 c1"
        with run have "unfinished s tid" by (auto simp: unfinished_Running)
        with exc False unfinished th0 have "jobs_txns s u \<inter> jobs_txns s tid = {}"
          by (simp add: exclusive_def unfinished_Running)
        with th0 c1 show "t \<notin> job_txns j1" by (auto simp: jobs_txns_def)
      qed
      from locks_of_holds [OF conjunct1 [OF sys_step_effect(2) [OF run sys this]]]
      have "holds (mgr s') t = holds (mgr s) t" .
      moreover have "truthful (mgr s) t r m (covered (holds (mgr s) t r) m) c"
        using u th0 by (simp add: thread_truthful_def)
      ultimately show ?thesis using truthful_cong [OF fr(3)] by simp
    qed auto
  qed
qed

lemma concurrent_truthful:
  assumes "concurrent ord client_ok s" and "key_order ord"
  shows "thread_truthful s tid"
  using assms(1)
proof (induction rule: concurrent.induct)
  case (start oc alloc n mg)
  then show ?case by (simp add: thread_truthful_def fresh_system_def)
next
  case (step s a tid' s')
  have "client_inv s" using concurrent_detection_inv [OF step.hyps(1) assms(2)] by (simp add: detection_inv_def)
  with step show ?case using thread_truthful_step by blast
qed

lemma leaving_truth:
  assumes "concurrent ord client_ok s" and "key_order ord"
    and "threads s tid = Running (Change (Request t r m)) (Unlock Waits (Return (Answer (Acq acq))))"
  shows "acq = Granted \<longleftrightarrow> covered (holds (mgr s) t r) m"
  using concurrent_truthful [OF assms(1,2), of tid] assms(3) by (auto simp: thread_truthful_def)

section \<open>One decision\<close>

text \<open>Code that has decided: whatever it sees from now on, its answer is a grant or is a refusal.\<close>

inductive answers :: "bool \<Rightarrow> Reply Code \<Rightarrow> bool" for b :: bool where
  "(acq = Granted \<longleftrightarrow> b) \<Longrightarrow> answers b (Return (Answer (Acq acq)))"
| "answers b k \<Longrightarrow> answers b (Lock l k)"
| "answers b k \<Longrightarrow> answers b (Unlock l k)"
| "(\<And>w. answers b (k w)) \<Longrightarrow> answers b (On_Waits f k)"
| "(\<And>sh. answers b (k sh)) \<Longrightarrow> answers b (On_Shard i f k)"

inductive_simps answers_simps [simp]:
  "answers b (Return x)" "answers b Panic" "answers b (Lock l k)" "answers b (Unlock l k)"
  "answers b (On_Waits f k)" "answers b (On_Shard i f k)"

lemma build_loop_answers:
  assumes "shape_ok mg" and "\<And>g. answers b (k g)"
  shows "answers b (build_loop mg w xs g k)"
proof (induction xs arbitrary: g)
  case (Cons x xs)
  have "route mg res < length (shards mg)" for res using route_less [OF assms(1)] .
  with Cons show ?case by (auto simp: on_resource_def section_code_def route_def Let_def split: option.split)
qed (simp add: assms(2))

lemma code_step_answers: "code_step mg own tid c = Some (mg', own', c') \<Longrightarrow> answers b c \<Longrightarrow> answers b c'"
  by (cases c) (auto split: if_splits)

text \<open>The instruction that decides, as \<open>try_acquire\<close> does when it runs alone.\<close>

definition decides :: "LockManager \<Rightarrow> TxnId \<Rightarrow> ResourceId \<Rightarrow> LockMode \<Rightarrow> Reply Code \<Rightarrow> bool" where
  "decides mg t r m c \<longleftrightarrow>
     (\<forall>mg1 own tid. manager_inv mg1 \<and> bits mg1 = bits mg \<and> length (shards mg1) = length (shards mg) \<longrightarrow>
        (\<exists>b mg2 c'. code_step mg1 own tid c = Some (mg2, own, c') \<and> answers b c'
           \<and> try_acquire mg1 t r m = Some (if b then Ok () else Err Conflict, mg2)))"

lemma decides_step:
  "decides mg t r m c \<Longrightarrow> manager_inv mg \<Longrightarrow> \<exists>b mg2 c'. code_step mg own tid c = Some (mg2, own, c') \<and> answers b c'
     \<and> try_acquire mg t r m = Some (if b then Ok () else Err Conflict, mg2)"
  unfolding decides_def by blast

lemma request_code_decides:
  assumes shape: "shape_ok mg"
  shows "\<exists>i c. request_code ord mg t r m = Lock Waits (Lock (Shard_Mutex i) c) \<and> decides mg t r m c"
proof -
  define K where "K = (\<lambda>granted.
      if granted then On_Waits (fmdrop t) (\<lambda>_. Unlock Waits (Return (Answer (Acq Granted))))
      else On_Waits (fmupd t (r, m)) (\<lambda>ws. build_code ord mg (fmupd t (r, m) ws) (\<lambda>graph.
        Unlock Waits (Return (Answer (Acq (detection_answer graph t)))))))"
  let ?c = "On_Shard (route mg r) (\<lambda>sh. snd (grant_section t r m sh))
      (\<lambda>sh. Unlock (Shard_Mutex (route mg r)) (K (fst (grant_section t r m sh))))"
  have K: "answers b (K b)" for b
    using build_loop_answers [OF shape, of False] by (simp add: K_def build_code_def detection_answer_refuses)
  have "request_code ord mg t r m = Lock Waits (Lock (Shard_Mutex (route mg r)) ?c)"
    using route_less [OF shape, of r]
    by (simp add: request_code_def on_resource_def section_code_def route_def Let_def K_def)
  moreover have "decides mg t r m ?c"
    unfolding decides_def
  proof (intro allI impI)
    fix mg1 own tid
    assume mg1: "manager_inv mg1 \<and> bits mg1 = bits mg \<and> length (shards mg1) = length (shards mg)"
    then have rt: "route mg1 = route mg" by (blast intro: route_cong)
    from mg1 show "\<exists>b mg2 c'. code_step mg1 own tid ?c = Some (mg2, own, c') \<and> answers b c'
        \<and> try_acquire mg1 t r m = Some (if b then Ok () else Err Conflict, mg2)"
      using K
      by (intro exI [of _ "fst (grant_section t r m (shard_at mg1 (route mg r)))"])
        (simp add: try_acquire_def with_shard_put [OF manager_inv_shape] rt shard_at_def)
  qed
  ultimately show ?thesis by blast
qed

definition undecided :: "System \<Rightarrow> nat \<Rightarrow> TxnId \<Rightarrow> ResourceId \<Rightarrow> LockMode \<Rightarrow> bool" where
  "undecided s tid t r m \<longleftrightarrow>
     (\<exists>c i. decides (mgr s) t r m c
        \<and> (threads s tid = Running (Change (Request t r m)) (Lock Waits (Lock (Shard_Mutex i) c))
           \<or> owner s Waits = Some tid \<and> (threads s tid = Running (Change (Request t r m)) (Lock (Shard_Mutex i) c)
             \<or> threads s tid = Running (Change (Request t r m)) c)))"

definition decided :: "System \<Rightarrow> nat \<Rightarrow> bool \<Rightarrow> bool" where
  "decided s tid b \<longleftrightarrow> (\<exists>j c. threads s tid = Running j c \<and> answers b c)"

lemma undecided_step:
  assumes run: "sys_step ord s (u, a) = Some s'" and inv: "system_inv s" and un: "undecided s tid t r m"
    and a: "(u, a) \<noteq> (tid, Finish)"
  shows "undecided s' tid t r m \<or> u = tid \<and> a = Go \<and> (\<exists>b. (owner s Waits = Some tid
    \<and> try_acquire (mgr s) t r m = Some (if b then Ok () else Err Conflict, mgr s')) \<and> decided s' tid b)"
proof -
  note fr = sys_step_frame [OF run inv]
  let ?run = "Running (Change (Request t r m))"
  from un obtain c i where c: "decides (mgr s) t r m c"
      "threads s tid = ?run (Lock Waits (Lock (Shard_Mutex i) c))
       \<or> owner s Waits = Some tid \<and> (threads s tid = ?run (Lock (Shard_Mutex i) c) \<or> threads s tid = ?run c)"
    by (auto simp: undecided_def)
  have c': "decides (mgr s') t r m c" using c(1) fr(2,3) by (simp add: decides_def)
  show ?thesis
  proof (cases "u = tid")
    case False
    with fr(4) [of tid] fr(5) [of tid Waits] c' c(2) show ?thesis unfolding undecided_def by metis
  next
    case True
    with a c(2) run have go: "a = Go" by (cases a) auto
    with run True have "sys_step ord s (tid, Go) = Some s'" by blast
    then obtain j1 c1 mg' own' c2 where st: "threads s tid = Running j1 c1"
        "code_step (mgr s) (owner s) tid c1 = Some (mg', own', c2)"
        "s' = \<lparr>mgr = mg', owner = own', threads = (threads s)(tid := Running j1 c2)\<rparr>"
      by (rule sys_step_Go)
    from c(2) st(1) consider (at) "owner s Waits = Some tid" "j1 = Change (Request t r m)" "c1 = c"
      | (shard) "owner s Waits = Some tid" "j1 = Change (Request t r m)" "c1 = Lock (Shard_Mutex i) c"
      | (waits) "j1 = Change (Request t r m)" "c1 = Lock Waits (Lock (Shard_Mutex i) c)" by auto
    then show ?thesis
    proof cases
      case at
      from decides_step [OF c(1) system_invD(2) [OF inv], of "owner s" tid] obtain b mg2 c3 where
        "code_step (mgr s) (owner s) tid c = Some (mg2, owner s, c3)" and b: "answers b c3"
        "try_acquire (mgr s) t r m = Some (if b then Ok () else Err Conflict, mg2)" by blast
      with st at(3) have "mg2 = mg'" "c3 = c2" by simp_all
      with b st(3) have "try_acquire (mgr s) t r m = Some (if b then Ok () else Err Conflict, mgr s') \<and> decided s' tid b"
        by (simp add: decided_def)
      with True go at(1) show ?thesis by blast
    next
      case shard
      with st(2) have eq: "mg' = mgr s" "own' = (owner s)(Shard_Mutex i := Some tid)" "c2 = c"
        by (simp_all split: if_splits)
      have "threads s' tid = ?run c" "owner s' Waits = Some tid" using shard st(3) eq by simp_all
      with c' have "undecided s' tid t r m" unfolding undecided_def by blast
      then show ?thesis ..
    next
      case waits
      with st(2) have eq: "mg' = mgr s" "own' = (owner s)(Waits := Some tid)" "c2 = Lock (Shard_Mutex i) c"
        by (simp_all split: if_splits)
      have "threads s' tid = ?run (Lock (Shard_Mutex i) c)" "owner s' Waits = Some tid"
        using waits st(3) eq by simp_all
      with c' have "undecided s' tid t r m" unfolding undecided_def by blast
      then show ?thesis ..
    qed
  qed
qed

lemma decided_step:
  assumes run: "sys_step ord s (u, a) = Some s'" and inv: "system_inv s" and d: "decided s tid b"
    and a: "(u, a) \<noteq> (tid, Finish)"
  shows "decided s' tid b"
proof (cases "u = tid")
  case False
  with sys_step_frame(4) [OF run inv, of tid] d show ?thesis by (simp add: decided_def)
next
  case True
  with a d run have "a = Go" by (cases a) (auto simp: decided_def)
  with True run have "sys_step ord s (tid, Go) = Some s'" by blast
  then obtain j c mg' own' c' where st: "threads s tid = Running j c"
      "code_step (mgr s) (owner s) tid c = Some (mg', own', c')"
      "s' = \<lparr>mgr = mg', owner = own', threads = (threads s)(tid := Running j c')\<rparr>"
    by (rule sys_step_Go)
  with d code_step_answers [OF st(2)] show ?thesis by (simp add: decided_def)
qed

lemma undecided_reply:
  assumes "undecided s tid t r m" and "system_inv s"
  shows "reply s tid = None"
proof -
  have "c \<noteq> Return q" if "decides (mgr s) t r m c" for c q
    using decides_step [OF that system_invD(2) [OF assms(2)], of "\<lambda>m. Some 0" 0] by auto
  then show ?thesis using assms(1) by (auto simp: undecided_def reply_def split: Code.splits)
qed

interpretation one_decision: commitment ord tid "\<lambda>s. undecided s tid t r m" "\<lambda>b s. decided s tid b"
  "\<lambda>s b s'. owner s Waits = Some tid \<and> try_acquire (mgr s) t r m = Some (if b then Ok () else Err Conflict, mgr s')"
  for ord tid t r m
  by unfold_locales (erule (3) undecided_step, erule (3) decided_step, erule (1) undecided_reply)

lemma started_undecided:
  assumes "sys_step ord s (tid, Start (Change (Request t r m))) = Some s'" and "system_inv s"
  shows "undecided s' tid t r m"
  using sys_step_Start [OF assms(1)] request_code_decides [OF manager_inv_shape [OF system_invD(2) [OF assms(2)]], of ord t r m]
  by (auto simp: undecided_def)

lemma decided_reply:
  assumes "decided s tid b" and "reply s tid = Some x"
  shows "\<exists>acq. x = Answer (Acq acq) \<and> (acq = Granted \<longleftrightarrow> b)"
  using assms by (auto simp: decided_def reply_def split: Code.splits)

end
