(* ===== verification/Thread_Props.thy ===== *)
theory Thread_Props
  imports Thread_Runs Thread_Requests
begin

text \<open>
  The properties of concurrent operations, each for every number of threads and every interleaving
  of their instructions, and the schedules that show them at work.
\<close>

section \<open>Schedules for the concrete cases\<close>

abbreviation ask :: "u64 \<Rightarrow> u64 \<Rightarrow> Action" where
  "ask t r \<equiv> Start (Change (Request (TxnId t) (ResourceId r) Exclusive))"

abbreviation try_x :: "u64 \<Rightarrow> u64 \<Rightarrow> Action" where
  "try_x t r \<equiv> Start (Change (Try_Acquire (TxnId t) (ResourceId r) Exclusive))"

text \<open>Thread 0 is in the middle of a request, thread 1 waits for the registry.\<close>

definition mid_request :: "(nat \<times> Action) list" where
  "mid_request = [(0, ask 1 1), (1, ask 2 2), (0, Go), (0, Go)]"

text \<open>Two transactions ask for each other's resource, instruction by instruction in turn.\<close>

definition crossing :: "(nat \<times> Action) list" where
  "crossing = [(0, ask 1 1), (1, ask 2 2)] @ go 0 6 @ go 1 6 @ [(0, Finish), (1, Finish), (0, ask 1 2)] @ go 0 5
     @ [(1, ask 2 1)] @ go 0 4 @ go 1 5 @ [(0, Finish)] @ go 1 6"

section \<open>Mutexes\<close>

text \<open>
  C9: No operation is ever out of range or touches a shard or the registry of waits without its
  mutex; the registry is locked only by a thread that holds nothing, a shard only by a thread that
  holds at most the registry, and a thread that is done or idle holds nothing.
\<close>

theorem lock_discipline:
  assumes "concurrent ord may s"
  shows "(threads s tid = Idle \<longrightarrow> held s tid = {})
    \<and> (\<forall>j c. threads s tid = Running j c \<longrightarrow>
      c \<noteq> Panic \<and> (\<forall>r. c = Return r \<longrightarrow> held s tid = {})
      \<and> (\<forall>k. c = Lock Waits k \<longrightarrow> held s tid = {})
      \<and> (\<forall>i k. c = Lock (Shard_Mutex i) k \<longrightarrow> i < shard_count (mgr s) \<and> held s tid \<subseteq> {Waits})
      \<and> (\<forall>m k. c = Unlock m k \<longrightarrow> m \<in> held s tid)
      \<and> (\<forall>i f k. c = On_Shard i f k \<longrightarrow> i < shard_count (mgr s) \<and> Shard_Mutex i \<in> held s tid)
      \<and> (\<forall>f k. c = On_Waits f k \<longrightarrow> Waits \<in> held s tid))"
proof -
  have inv: "ordered_system s" using concurrent_ordered [OF assms] .
  show ?thesis
  proof (intro conjI allI impI)
    show "held s tid = {}" if "threads s tid = Idle"
      using ordered_held_running [OF inv, of _ tid] that by fastforce
  qed (auto dest!: ordered_runningD [OF inv] simp: shard_count_def)
qed

theorem lock_discipline_witness:
  "\<exists>s j f k. threads s 0 = Running j (On_Shard 2 f k) \<and> 2 < shard_count (mgr s) \<and> Shard_Mutex 2 \<in> held s 0
     \<and> Waits \<in> held s 0"
proof -
  define view where "view = (\<lambda>(s :: System, told :: TxnId set). (owner s Waits,
      case threads s 0 of Running j (On_Shard i f k) \<Rightarrow> i = 2 | _ \<Rightarrow> False))"
  have "map_option view (race mid_request) = Some (Some 0, True)"
    unfolding view_def by code_simp
  from race_state [OF this] obtain s told where s: "view (s, told) = (Some 0, True)"
      "concurrent sorted_list_of_set (\<lambda>s tid j. True) s" by blast
  from s(1) obtain j f k where th: "threads s 0 = Running j (On_Shard 2 f k)" "owner s Waits = Some 0"
    by (auto simp: view_def split: Thread.splits Code.splits)
  from lock_discipline [OF s(2), of 0] th(1) have "2 < shard_count (mgr s) \<and> Shard_Mutex 2 \<in> held s 0" by blast
  moreover have "Waits \<in> held s 0" using th(2) by (simp add: held_def)
  ultimately show ?thesis using th(1) by blast
qed

text \<open>
  C10: Threads never block each other for ever: as long as an operation has not returned, some thread
  can go on with an operation that was started, and operations that were started cannot go on for
  ever; so when no thread can go on, all have returned.
\<close>

theorem started_calls_return:
  assumes "concurrent ord may s"
  shows "((\<exists>tid. threads s tid \<noteq> Idle) \<longrightarrow> (\<exists>u a s'. (a = Go \<or> a = Finish) \<and> sys_step ord s (u, a) = Some s'))
    \<and> \<not> (\<exists>f. f 0 = s \<and> (\<forall>i. \<exists>u a. (a = Go \<or> a = Finish) \<and> sys_step ord (f i) (u, a) = Some (f (Suc i))))"
proof (intro conjI impI notI)
  show "\<exists>u a s'. (a = Go \<or> a = Finish) \<and> sys_step ord s (u, a) = Some s'" if "\<exists>tid. threads s tid \<noteq> Idle"
    using ordered_system_progress [OF concurrent_ordered [OF assms]] that unfolding enabled_iff by blast
  assume "\<exists>f. f 0 = s \<and> (\<forall>i. \<exists>u a. (a = Go \<or> a = Finish) \<and> sys_step ord (f i) (u, a) = Some (f (Suc i)))"
  then obtain f where f: "f 0 = s" "\<forall>i. \<exists>u a. (a = Go \<or> a = Finish) \<and> sys_step ord (f i) (u, a) = Some (f (Suc i))"
    by blast
  with concurrent_running [OF assms] show False by (intro no_endless_run [of ord f]) auto
qed

theorem started_calls_return_witness:
  "\<exists>s. sys_step sorted_list_of_set s (1, Go) = None
     \<and> (\<exists>u a s'. (a = Go \<or> a = Finish) \<and> sys_step sorted_list_of_set s (u, a) = Some s')"
proof -
  define view where "view = (\<lambda>(s :: System, told :: TxnId set).
      (map_option (\<lambda>_. ()) (sys_step sorted_list_of_set s (1, Go)),
       case threads s 0 of Idle \<Rightarrow> False | Running j c \<Rightarrow> True))"
  have "map_option view (race mid_request) = Some (None, True)"
    unfolding view_def by code_simp
  from race_state [OF this] obtain s told where s: "view (s, told) = (None, True)"
      "concurrent sorted_list_of_set (\<lambda>s tid j. True) s" by blast
  from s(1) have "sys_step sorted_list_of_set s (1, Go) = None" "threads s 0 \<noteq> Idle"
    by (auto simp: view_def simp del: sys_step.simps split: Thread.splits)
  with started_calls_return [OF s(2)] show ?thesis by blast
qed

section \<open>The table\<close>

text \<open>
  C1: At every moment of every interleaving, two transactions do not hold incompatible modes on a
  resource, nor incompatible overlapping ranges in a space.
\<close>

theorem concurrent_no_conflict:
  assumes s: "concurrent ord may s" and "t \<noteq> u"
  shows "(\<forall>r a b. holds (mgr s) t r = Some a \<and> holds (mgr s) u r = Some b \<longrightarrow> compatible_with a b)
    \<and> (\<forall>x a b. a \<in> set (range_holders (mgr s) x) \<and> b \<in> set (range_holders (mgr s) x) \<and> rh_txn a = t \<and> rh_txn b = u
        \<and> overlaps (rh_range a) (rh_range b) \<longrightarrow> compatible_with (rh_mode a) (rh_mode b))"
proof -
  have inv: "manager_inv (mgr s)" using system_invD(2) [OF concurrent_inv [OF s]] .
  note shard = manager_inv_shard [OF inv]
  show ?thesis
    using point_modes_compatible [OF shard] spans_compatible [OF shard] assms(2)
    unfolding holds_def range_holders_def by blast
qed

theorem concurrent_no_conflict_witness:
  "\<exists>s told. race (take 14 crossing) = Some (s, told) \<and> holds (mgr s) (TxnId 1) (ResourceId 1) = Some Exclusive
     \<and> (\<forall>b. holds (mgr s) (TxnId 2) (ResourceId 1) = Some b \<longrightarrow> compatible_with Exclusive b)"
proof -
  define view where "view = (\<lambda>(s :: System, told :: TxnId set). holds (mgr s) (TxnId 1) (ResourceId 1))"
  have "map_option view (race (take 14 crossing)) = Some (Some Exclusive)"
    unfolding view_def by code_simp
  from race_state [OF this] obtain s told where s: "race (take 14 crossing) = Some (s, told)"
      "holds (mgr s) (TxnId 1) (ResourceId 1) = Some Exclusive"
      "concurrent sorted_list_of_set (\<lambda>s tid j. True) s" by (auto simp: view_def)
  have "TxnId 1 \<noteq> TxnId 2" by simp
  from concurrent_no_conflict [OF s(3) this] s(1,2) show ?thesis by blast
qed

text \<open>
  C14: An exclusive holder is alone: from the moment a transaction holds a resource exclusively, and
  as long as nobody works for it, it keeps the lock and nobody else holds the resource, whatever all
  other threads do.
\<close>

theorem exclusive_holder_alone:
  assumes s: "concurrent ord may s" and held: "holds (mgr s) t r = Some Exclusive" and rest: "at_rest s t"
    and run: "sys_run ord s as = Some s'" and no: "\<not> starts_for as t"
  shows "holds (mgr s') t r = Some Exclusive \<and> (\<forall>u. u \<noteq> t \<longrightarrow> holds (mgr s') u r = None)
    \<and> holder_count (mgr s') r = Some 1"
proof -
  note inv = concurrent_inv [OF s]
  have sys': "system_inv s'" using sys_run_inv [OF run inv] .
  have inv': "manager_inv (mgr s')" using system_invD(2) [OF sys'] .
  have mine: "holds (mgr s') t r = Some Exclusive"
    using at_rest_run [OF run inv rest no] held locks_of_holds by metis
  have others: "holds (mgr s') u r = None" if "u \<noteq> t" for u
  proof (rule ccontr)
    assume "holds (mgr s') u r \<noteq> None"
    then obtain b where "holds (mgr s') u r = Some b" by blast
    with mine that have "compatible_with Exclusive b"
      using point_modes_compatible [OF manager_inv_shard [OF inv'], of r t r Exclusive u b] by (simp add: holds_def)
    then show False by (cases b) (simp_all add: mode_simps)
  qed
  have "holds (mgr s') u r \<noteq> None \<longleftrightarrow> u = t" for u using mine others [of u] by (cases "u = t") simp_all
  then have "holder_count (mgr s') r = Some 1" using holder_count_eq [OF inv', of r] by (simp del: not_None_eq)
  with mine others show ?thesis by blast
qed

theorem exclusive_holder_alone_witness:
  "\<exists>s s'. sys_run sorted_list_of_set s ([(1, try_x 2 1)] @ go 1 3) = Some s'
     \<and> reply s' 1 = Some (Answer (Res (Err Conflict))) \<and> holder_count (mgr s') (ResourceId 1) = Some 1"
proof -
  let ?as = "[(1, try_x 2 1)] @ go 1 3"
  define view where "view = (\<lambda>(s :: System, told :: TxnId set). (holds (mgr s) (TxnId 1) (ResourceId 1),
      is_idle (threads s 0), is_idle (threads s 1),
      map_option (\<lambda>s'. reply s' 1) (sys_run sorted_list_of_set s ?as)))"
  have "map_option view (race ([(0, try_x 1 1)] @ go 0 3 @ [(0, Finish)])) =
      Some (Some Exclusive, True, True, Some (Some (Answer (Res (Err Conflict)))))"
    unfolding view_def by code_simp
  from race_state [OF this] obtain s told where s: "race ([(0, try_x 1 1)] @ go 0 3 @ [(0, Finish)]) = Some (s, told)"
      "view (s, told) = (Some Exclusive, True, True, Some (Some (Answer (Res (Err Conflict)))))"
      "concurrent sorted_list_of_set (\<lambda>s tid j. True) s" by blast
  from s(2) obtain s' where run: "sys_run sorted_list_of_set s ?as = Some s'"
      "reply s' 1 = Some (Answer (Res (Err Conflict)))"
    and held: "holds (mgr s) (TxnId 1) (ResourceId 1) = Some Exclusive"
    and idle: "is_idle (threads s 0)" "is_idle (threads s 1)"
    unfolding view_def by (auto simp del: sys_run.simps append.simps)
  have "\<not> starts_for ?as (TxnId 1)" by (auto simp: starts_for_def)
  from exclusive_holder_alone [OF s(3) held race_all_idle(1) [OF s(1) idle] run(1) this] run show ?thesis by blast
qed

section \<open>When operations take effect\<close>

text \<open>
  C11: An operation with one critical section is atomic: somewhere between its start and its answer
  one instruction of its thread does to the table exactly what the whole operation does when it runs
  alone, and the answer is the answer it gives then.
\<close>

theorem one_section_atomic:
  assumes s: "concurrent ord may s0" and one: "one_section j"
    and run: "sys_run ord s0 ((tid, Start j) # as) = Some s1" and ans: "reply s1 tid = Some r"
    and fin: "(tid, Finish) \<notin> set as"
  shows "\<exists>bs cs sa sb. as = bs @ (tid, Go) # cs \<and> sys_run ord s0 ((tid, Start j) # bs) = Some sa
    \<and> sys_step ord sa (tid, Go) = Some sb \<and> perform ord (mgr sa) j = Some (r, mgr sb)"
proof -
  from run obtain s where st: "sys_step ord s0 (tid, Start j) = Some s" "sys_run ord s as = Some s1"
    by (auto simp: bind_eq_Some_conv simp del: sys_step.simps)
  note inv = concurrent_inv [OF s]
  from pending_run [OF st(2) sys_step_frame(1) [OF st(1) inv] started_pending [OF st(1) inv one] fin ans]
  show ?thesis using st(1) by (auto simp del: sys_step.simps)
qed

theorem one_section_atomic_witness:
  "\<exists>s0 s1 bs cs sa sb. sys_run sorted_list_of_set s0 ((0, try_x 1 1) # [(0, Go), (1, Go), (0, Go), (1, Go), (0, Go)]) = Some s1
     \<and> [(0, Go), (1, Go), (0, Go), (1, Go), (0, Go)] = bs @ (0, Go) # cs
     \<and> sys_step sorted_list_of_set sa (0, Go) = Some sb
     \<and> try_acquire (mgr sa) (TxnId 1) (ResourceId 1) Exclusive = Some (Ok (), mgr sb)"
proof -
  let ?as = "[(0, Go), (1, Go), (0, Go), (1, Go), (0, Go)]"
  let ?j = "Change (Try_Acquire (TxnId 1) (ResourceId 1) Exclusive)"
  define view where "view = (\<lambda>(s :: System, told :: TxnId set).
      map_option (\<lambda>s'. reply s' 0) (sys_run sorted_list_of_set s ((0, Start ?j) # ?as)))"
  have "map_option view (race ([(1, ask 2 2)] @ go 1 2)) = Some (Some (Some (Answer (Res (Ok ())))))"
    unfolding view_def by code_simp
  from race_state [OF this] obtain s told where s: "view (s, told) = Some (Some (Answer (Res (Ok ()))))"
      "concurrent sorted_list_of_set (\<lambda>s tid j. True) s" by blast
  from s(1) obtain s1 where run: "sys_run sorted_list_of_set s ((0, Start ?j) # ?as) = Some s1"
      "reply s1 0 = Some (Answer (Res (Ok ())))"
    unfolding view_def by (auto simp del: sys_run.simps)
  have "one_section ?j" and "(0, Finish) \<notin> set ?as" by simp_all
  from one_section_atomic [OF s(2) this(1) run this(2)] obtain bs cs sa sb where
    at: "?as = bs @ (0, Go) # cs" "sys_step sorted_list_of_set sa (0, Go) = Some sb"
      "perform sorted_list_of_set (mgr sa) ?j = Some (Answer (Res (Ok ())), mgr sb)" by blast
  from at(3) have "try_acquire (mgr sa) (TxnId 1) (ResourceId 1) Exclusive = Some (Ok (), mgr sb)"
    by (auto simp: map_prod_def split: prod.splits)
  with at(1,2) run(1) show ?thesis by blast
qed

text \<open>
  C13: \<open>release_all\<close> locks one shard after the other, yet for its transaction it is one step: if no
  other thread works for the transaction meanwhile, then when it answers the transaction holds and
  waits for nothing, and the answer is the number of locks it held at the start.
\<close>

theorem concurrent_release_all:
  assumes s: "concurrent ord may s0" and alone: "works_alone s0 tid t"
    and run: "sys_run ord s0 ((tid, Start (Change (Release_All t))) # as) = Some s1"
    and ans: "reply s1 tid = Some r" and fin: "(tid, Finish) \<notin> set as" and no: "\<not> starts_for as t"
  shows "r = Answer (Count (lock_total (mgr s0) t)) \<and> (\<forall>q. holds (mgr s1) t q = None)
    \<and> (\<forall>x. \<forall>h \<in> set (range_holders (mgr s1) x). rh_txn h \<noteq> t) \<and> t \<notin> fmdom' (waits (mgr s1))"
proof -
  let ?j = "Change (Release_All t)"
  from run obtain s where st: "sys_step ord s0 (tid, Start ?j) = Some s" "sys_run ord s as = Some s1"
    by (auto simp: bind_eq_Some_conv simp del: sys_step.simps)
  note s' = sys_step_Start [OF st(1)] and inv = concurrent_inv [OF s]
  have "threads s tid = Running ?j (release_all_code (mgr s0) t)" "works_alone s tid t" "mgr s = mgr s0"
    using s' alone by (auto simp: works_alone_def)
  from releasing_run [OF st(2) sys_step_frame(1) [OF st(1) inv] this(1) _ this(2) no fin system_invD(2) [OF inv]]
  obtain c where c: "threads s1 tid = Running ?j c" "releasing (mgr s0) t (mgr s1) c"
    using \<open>mgr s = mgr s0\<close> releasing_start by auto
  with ans have "c = Return r" by (auto simp: reply_def split: Code.splits)
  note finished = releasing_done [OF c(2) [unfolded this] system_invD(2) [OF inv]]
  have "rh_txn h \<noteq> t" if "h \<in> set (range_holders (mgr s1) x)" for h x
    using finished(3) [of x] that by (auto simp: spans_of_def filter_mset_eq_conv filter_empty_conv simp flip: mset_filter)
  with finished(1,2,4) show ?thesis by (simp add: fmlookup_dom'_iff)
qed

theorem concurrent_release_all_witness:
  "\<exists>s0 s1. sys_run sorted_list_of_set s0 ((0, Start (Change (Release_All (TxnId 1)))) #
        ([(1, try_x 2 1)] @ go 0 9 @ go 1 3 @ go 0 6)) = Some s1
     \<and> reply s1 0 = Some (Answer (Count 2)) \<and> lock_total (mgr s0) (TxnId 1) = 2
     \<and> reply s1 1 = Some (Answer (Res (Err Conflict))) \<and> holds (mgr s1) (TxnId 1) (ResourceId 1) = None"
proof -
  let ?as = "[(1, try_x 2 1)] @ go 0 9 @ go 1 3 @ go 0 6"
  let ?j = "Change (Release_All (TxnId 1))"
  let ?before = "[(0, try_x 1 1)] @ go 0 3 @ [(0, Finish), (0, try_x 1 2)] @ go 0 3 @ [(0, Finish)]"
  define view where "view = (\<lambda>(s :: System, told :: TxnId set). (is_idle (threads s 0), is_idle (threads s 1),
      map_option (\<lambda>s'. (reply s' 0, reply s' 1)) (sys_run sorted_list_of_set s ((0, Start ?j) # ?as))))"
  have "map_option view (race ?before) =
      Some (True, True, Some (Some (Answer (Count 2)), Some (Answer (Res (Err Conflict)))))"
    unfolding view_def by code_simp
  from race_state [OF this] obtain s told where s: "race ?before = Some (s, told)"
      "view (s, told) = (True, True, Some (Some (Answer (Count 2)), Some (Answer (Res (Err Conflict)))))"
      "concurrent sorted_list_of_set (\<lambda>s tid j. True) s" by blast
  from s(2) obtain s1 where run: "sys_run sorted_list_of_set s ((0, Start ?j) # ?as) = Some s1"
      "reply s1 0 = Some (Answer (Count 2))" "reply s1 1 = Some (Answer (Res (Err Conflict)))"
    and idle: "is_idle (threads s 0)" "is_idle (threads s 1)"
    unfolding view_def by (auto simp del: sys_run.simps append.simps)
  have "(0, Finish) \<notin> set ?as" and "\<not> starts_for ?as (TxnId 1)" by (auto simp: starts_for_def)
  from concurrent_release_all [OF s(3) race_all_idle(2) [OF s(1) idle] run(1,2) this] run show ?thesis by auto
qed

section \<open>Deadlock detection\<close>

text \<open>
  C12: \<open>request\<close> locks the registry, a shard, and for detection other shards one after the other, yet it
  decides at one instant between its start and its answer: there, with the registry in its hands, it
  grants or refuses exactly as \<open>try_acquire\<close> would if run alone, and its answer is \<open>Granted\<close> exactly if
  it was granted there.  This holds for all clients.
\<close>

theorem request_decides_once:
  assumes s: "concurrent ord may s0"
    and run: "sys_run ord s0 ((tid, Start (Change (Request t r m))) # as) = Some s1"
    and ans: "reply s1 tid = Some x" and fin: "(tid, Finish) \<notin> set as"
  shows "\<exists>bs cs sa sb acq. as = bs @ (tid, Go) # cs
    \<and> sys_run ord s0 ((tid, Start (Change (Request t r m))) # bs) = Some sa
    \<and> sys_step ord sa (tid, Go) = Some sb \<and> owner sa Waits = Some tid \<and> x = Answer (Acq acq)
    \<and> try_acquire (mgr sa) t r m = Some (if acq = Granted then Ok () else Err Conflict, mgr sb)"
proof -
  from run obtain s where st: "sys_step ord s0 (tid, Start (Change (Request t r m))) = Some s" "sys_run ord s as = Some s1"
    by (auto simp: bind_eq_Some_conv simp del: sys_step.simps)
  note inv = concurrent_inv [OF s]
  from one_decision.before_run [OF st(2) sys_step_frame(1) [OF st(1) inv] started_undecided [OF st(1) inv] fin ans]
  obtain bs cs sa sb b where sa: "as = bs @ (tid, Go) # cs" "sys_run ord s bs = Some sa"
      "sys_step ord sa (tid, Go) = Some sb" "owner sa Waits = Some tid"
      "try_acquire (mgr sa) t r m = Some (if b then Ok () else Err Conflict, mgr sb)" and "decided s1 tid b" by blast
  from decided_reply [OF this(6) ans] obtain acq where acq: "x = Answer (Acq acq)" "(acq = Granted) = b" by blast
  from st(1) sa(2) have "sys_run ord s0 ((tid, Start (Change (Request t r m))) # bs) = Some sa"
    by (simp del: sys_step.simps)
  with sa acq show ?thesis by blast
qed

theorem request_decides_once_witness:
  "\<exists>s0 s1 bs cs sa sb. sys_run sorted_list_of_set s0 ((0, ask 1 2) # go 0 3 @ [(1, Finish)] @ go 0 6) = Some s1
     \<and> reply s1 0 = Some (Answer (Acq Waiting)) \<and> go 0 3 @ [(1, Finish)] @ go 0 6 = bs @ (0, Go) # cs
     \<and> sys_step sorted_list_of_set sa (0, Go) = Some sb
     \<and> try_acquire (mgr sa) (TxnId 1) (ResourceId 2) Exclusive = Some (Err Conflict, mgr sb)"
proof -
  let ?as = "go 0 3 @ [(1, Finish)] @ go 0 6"
  define view where "view = (\<lambda>(s :: System, told :: TxnId set).
      map_option (\<lambda>s'. reply s' 0) (sys_run sorted_list_of_set s ((0, ask 1 2) # ?as)))"
  have "map_option view (race ([(1, ask 2 2)] @ go 1 6)) = Some (Some (Some (Answer (Acq Waiting))))"
    unfolding view_def by code_simp
  from race_state [OF this] obtain s told where s: "view (s, told) = Some (Some (Answer (Acq Waiting)))"
      "concurrent sorted_list_of_set (\<lambda>s tid j. True) s" by blast
  from s(1) obtain s1 where run: "sys_run sorted_list_of_set s ((0, ask 1 2) # ?as) = Some s1"
      "reply s1 0 = Some (Answer (Acq Waiting))"
    unfolding view_def by (auto simp del: sys_run.simps append.simps)
  have "(0, Finish) \<notin> set ?as" by simp
  from request_decides_once [OF s(2) run this] obtain bs cs sa sb acq where
    at: "?as = bs @ (0, Go) # cs" "sys_step sorted_list_of_set sa (0, Go) = Some sb"
      "Answer (Acq Waiting) = Answer (Acq acq)"
      "try_acquire (mgr sa) (TxnId 1) (ResourceId 2) Exclusive = Some (if acq = Granted then Ok () else Err Conflict, mgr sb)"
    by blast
  from at(3,4) have "try_acquire (mgr sa) (TxnId 1) (ResourceId 2) Exclusive = Some (Err Conflict, mgr sb)" by simp
  with at(1,2) run show ?thesis by blast
qed

text \<open>
  C7: With disciplined clients, the answers of concurrent requests and of deadlock detection are right
  about the table at the moment the thread gives back the registry.  \<open>Granted\<close>: the requester holds the
  resource in a mode that covers what it asked for, and is not registered.  \<open>Waiting\<close>: it does not, is
  registered with just this request, and no cycle is reachable from it.  \<open>Deadlock\<close>: it is registered
  without the lock, and the answer names a cycle of waiting transactions that exists then and is
  reachable from it, with its youngest member.  And \<open>find_deadlock\<close> finds a cycle that exists then, or
  nothing only if there is no cycle at all.
\<close>

theorem concurrent_detection_exact:
  assumes s: "concurrent ord client_ok s" and ord: "key_order ord" and th: "threads s tid = Running j (Unlock Waits k)"
  shows "(\<forall>t r m. j = Change (Request t r m) \<longrightarrow> (\<exists>acq. k = Return (Answer (Acq acq)) \<and>
      (acq = Granted \<longleftrightarrow> covered (holds (mgr s) t r) m) \<and>
      (case acq of
         Granted \<Rightarrow> fmlookup (waits (mgr s)) t = None
       | Waiting \<Rightarrow> fmlookup (waits (mgr s)) t = Some (r, m)
           \<and> (\<forall>x. (t, x) \<in> (wait_rel (mgr s))\<^sup>* \<longrightarrow> (x, x) \<notin> (wait_rel (mgr s))\<^sup>+)
       | Deadlock d \<Rightarrow> fmlookup (waits (mgr s)) t = Some (r, m) \<and> deadlock_cycle (mgr s) (dl_cycle d)
           \<and> dl_victim d = Max (set (dl_cycle d)) \<and> (t, hd (dl_cycle d)) \<in> (wait_rel (mgr s))\<^sup>*)))
    \<and> (j = Find_Deadlock \<longrightarrow> (\<exists>x. k = Return (Found x) \<and>
      (case x of
         None \<Rightarrow> acyclic (wait_rel (mgr s))
       | Some d \<Rightarrow> deadlock_cycle (mgr s) (dl_cycle d) \<and> dl_victim d = Max (set (dl_cycle d)))))"
proof (intro conjI allI impI)
  have right: "answer_right j (waits (mgr s)) (wait_edges (mgr s)) k"
    using leaving_answer(2) [OF concurrent_detection_inv [OF s ord] th] .
  {
    fix t r m assume j: "j = Change (Request t r m)"
    with right obtain acq where acq: "k = Return (Answer (Acq acq))"
        "request_right t r m (waits (mgr s)) (wait_edges (mgr s)) acq" by (auto simp: answer_right_def)
    from leaving_truth [OF s ord, of tid t r m acq] th j acq(1)
    have "acq = Granted \<longleftrightarrow> covered (holds (mgr s) t r) m" by simp
    with acq(1) request_right_table [OF acq(2)]
    show "\<exists>acq. k = Return (Answer (Acq acq)) \<and> (acq = Granted \<longleftrightarrow> covered (holds (mgr s) t r) m) \<and>
      (case acq of
         Granted \<Rightarrow> fmlookup (waits (mgr s)) t = None
       | Waiting \<Rightarrow> fmlookup (waits (mgr s)) t = Some (r, m)
           \<and> (\<forall>x. (t, x) \<in> (wait_rel (mgr s))\<^sup>* \<longrightarrow> (x, x) \<notin> (wait_rel (mgr s))\<^sup>+)
       | Deadlock d \<Rightarrow> fmlookup (waits (mgr s)) t = Some (r, m) \<and> deadlock_cycle (mgr s) (dl_cycle d)
           \<and> dl_victim d = Max (set (dl_cycle d)) \<and> (t, hd (dl_cycle d)) \<in> (wait_rel (mgr s))\<^sup>*)" by blast
  }
  {
    assume "j = Find_Deadlock"
    with right obtain x where "k = Return (Found x)" "scan_right (wait_edges (mgr s)) x"
      by (auto simp: answer_right_def)
    with scan_right_table show "\<exists>x. k = Return (Found x) \<and> (case x of
        None \<Rightarrow> acyclic (wait_rel (mgr s))
      | Some d \<Rightarrow> deadlock_cycle (mgr s) (dl_cycle d) \<and> dl_victim d = Max (set (dl_cycle d)))" by blast
  }
qed

theorem concurrent_detection_exact_witness:
  "\<exists>s told. race crossing = Some (s, told) \<and> owner s Waits = Some 1
     \<and> deadlock_cycle (mgr s) [TxnId 2, TxnId 1] \<and> TxnId 2 = Max (set [TxnId 2, TxnId 1])"
proof -
  define view where "view = (\<lambda>(s :: System, told :: TxnId set). (owner s Waits, leaving_reply (threads s 1)))"
  have "map_option view (race crossing) =
      Some (Some 1, Some (TxnId 2, Deadlock \<lparr>dl_victim = TxnId 2, dl_cycle = [TxnId 2, TxnId 1]\<rparr>))"
    unfolding view_def by code_simp
  from race_state [OF this] obtain s told where s: "race crossing = Some (s, told)" "owner s Waits = Some 1"
      "leaving_reply (threads s 1) = Some (TxnId 2, Deadlock \<lparr>dl_victim = TxnId 2, dl_cycle = [TxnId 2, TxnId 1]\<rparr>)"
      "concurrent sorted_list_of_set client_ok s" by (auto simp: view_def)
  from leaving_reply_Some [OF s(3)] obtain r m where th: "threads s 1 = Running (Change (Request (TxnId 2) r m))
      (Unlock Waits (Return (Answer (Acq (Deadlock \<lparr>dl_victim = TxnId 2, dl_cycle = [TxnId 2, TxnId 1]\<rparr>)))))" by blast
  from concurrent_detection_exact [OF s(4) key_order_sorted th]
  have "deadlock_cycle (mgr s) [TxnId 2, TxnId 1] \<and> TxnId 2 = Max (set [TxnId 2, TxnId 1])" by simp
  with s(1,2) show ?thesis by blast
qed

text \<open>
  C8: No deadlock goes unreported: whenever the registry is free, every cycle of waiting transactions
  contains one whose latest request was answered \<open>Deadlock\<close> and which still waits.
\<close>

theorem no_deadlock_unreported:
  assumes "observed ord s told" and "key_order ord" and "owner s Waits = None"
    and "deadlock_cycle (mgr s) c"
  shows "\<exists>t \<in> set c. t \<in> told"
proof -
  have "requester s = {}" using assms(3) by (simp add: requester_def)
  with observed_cycle_told [OF observed_observed_inv [OF assms(1,2)] assms(4)] show ?thesis by simp
qed

theorem no_deadlock_unreported_witness:
  "\<exists>s told. race (crossing @ go 1 1) = Some (s, told) \<and> deadlock_cycle (mgr s) [TxnId 2, TxnId 1]
     \<and> TxnId 2 \<in> told"
proof -
  define view where "view = (\<lambda>(s :: System, told :: TxnId set). (owner s Waits,
      fmlookup (waits (mgr s)) (TxnId 1), fmlookup (waits (mgr s)) (TxnId 2),
      holds (mgr s) (TxnId 1) (ResourceId 1), holds (mgr s) (TxnId 2) (ResourceId 2), TxnId 1 \<in> told))"
  have "map_option view (race (crossing @ go 1 1)) =
      Some (None, Some (ResourceId 2, Exclusive), Some (ResourceId 1, Exclusive), Some Exclusive, Some Exclusive, False)"
    unfolding view_def by code_simp
  from race_state [OF this] obtain s told where s: "race (crossing @ go 1 1) = Some (s, told)"
      "observed sorted_list_of_set s told" "owner s Waits = None" "TxnId 1 \<notin> told"
      "fmlookup (waits (mgr s)) (TxnId 1) = Some (ResourceId 2, Exclusive)"
      "fmlookup (waits (mgr s)) (TxnId 2) = Some (ResourceId 1, Exclusive)"
      "holds (mgr s) (TxnId 1) (ResourceId 1) = Some Exclusive"
      "holds (mgr s) (TxnId 2) (ResourceId 2) = Some Exclusive"
    by (auto simp: view_def)
  have "\<not> compatible_with Exclusive Exclusive" by (simp add: mode_simps)
  with s(5-8) have "deadlock_cycle (mgr s) [TxnId 2, TxnId 1]"
    by (auto simp: deadlock_cycle_def waits_for_def less_Suc_eq)
  moreover from no_deadlock_unreported [OF s(2) key_order_sorted s(3) this] s(4) have "TxnId 2 \<in> told" by auto
  ultimately show ?thesis using s(1) by blast
qed

end
