(* ===== verification/One_Table.thy ===== *)
theory One_Table
  imports Thread_Atomic
begin

text \<open>
  What the lock manager computes, without shards, hash maps and reverse indexes: one table of holders
  per resource, one multiset of ranges per space, and the registered waits.  \<open>table_step\<close> says what
  every operation answers and does on that state.  \<open>step_simulated\<close> shows that the sharded manager of
  \<open>Manager\<close> gives exactly these answers, the cycle of a deadlock included, for every shard count.
\<close>

section \<open>The specification\<close>

record Table =
  holders :: "ResourceId \<Rightarrow> Holder list"
  ranges_held :: "ResourceId \<Rightarrow> RangeHolder multiset"
  registered :: "(TxnId, ResourceId \<times> LockMode) hash_map"

definition empty_table :: Table where
  "empty_table = \<lparr>holders = (\<lambda>r. []), ranges_held = (\<lambda>s. {#}), registered = fmempty\<rparr>"

text \<open>The holders of a resource after a grant; \<open>None\<close> when the grant is refused.\<close>

definition grant_in :: "TxnId \<Rightarrow> LockMode \<Rightarrow> Holder list \<Rightarrow> Holder list option" where
  "grant_in t m hs =
     (case position (\<lambda>h. h_txn h = t) hs of
        None \<Rightarrow> if list_all (\<lambda>h. compatible_with (h_mode h) m) hs then Some (hs @ [\<lparr>h_txn = t, h_mode = m\<rparr>]) else None
      | Some i \<Rightarrow>
          if covers (h_mode (hs ! i)) m then Some hs
          else if \<forall>j < length hs. j \<noteq> i \<longrightarrow> compatible_with (h_mode (hs ! j)) (join (h_mode (hs ! i)) m)
          then Some (hs[i := (hs ! i)\<lparr>h_mode := join (h_mode (hs ! i)) m\<rparr>]) else None)"

definition remove_from :: "TxnId \<Rightarrow> Holder list \<Rightarrow> Holder list" where
  "remove_from t hs = (case position (\<lambda>h. h_txn h = t) hs of None \<Rightarrow> hs | Some i \<Rightarrow> swap_remove i hs)"

definition is_holder :: "TxnId \<Rightarrow> Holder list \<Rightarrow> bool" where
  "is_holder t hs \<longleftrightarrow> list_ex (\<lambda>h. h_txn h = t) hs"

definition blockers_in :: "TxnId \<Rightarrow> LockMode \<Rightarrow> Holder list \<Rightarrow> TxnId list" where
  "blockers_in w m hs = map h_txn (filter (\<lambda>h. h_txn h \<noteq> w \<and> \<not> compatible_with (h_mode h) m) hs)"

text \<open>The wait-for graph: the vector of a waiter are its blockers in the order of the holders.\<close>

definition wait_graph :: "Table \<Rightarrow> WaitForGraph" where
  "wait_graph tb = \<lparr>edges =
     fmfilter (\<lambda>w. case fmlookup (registered tb) w of
         Some (r, m) \<Rightarrow> blockers_in w m (holders tb r) \<noteq> [] | None \<Rightarrow> False)
       (fmmap_keys (\<lambda>w (r, m). blockers_in w m (holders tb r)) (registered tb))\<rparr>"

definition locks_total :: "Table \<Rightarrow> TxnId \<Rightarrow> nat" where
  "locks_total tb t = card {r. is_holder t (holders tb r)}
     + (\<Sum>s\<in>{s. ranges_held tb s \<noteq> {#}}. size (filter_mset (\<lambda>h. rh_txn h = t) (ranges_held tb s)))"

definition range_refused :: "TxnId \<Rightarrow> KeyRange \<Rightarrow> LockMode \<Rightarrow> RangeHolder multiset \<Rightarrow> bool" where
  "range_refused t rg m hs \<longleftrightarrow>
     (\<exists>h \<in># hs. rh_txn h \<noteq> t \<and> overlaps (rh_range h) rg \<and> \<not> compatible_with (rh_mode h) m)"

definition put_holders :: "Table \<Rightarrow> ResourceId \<Rightarrow> Holder list \<Rightarrow> Table" where
  "put_holders tb r hs = tb\<lparr>holders := (holders tb)(r := hs)\<rparr>"

text \<open>
  One operation.  A transaction may hold the same range in several modes, and \<open>release_range\<close> then
  takes one of these locks; which one is not specified, and the state above does not say it.  So
  \<open>mode_of\<close> fixes in which mode a transaction takes a range, and the simulation is for clients that
  keep to it.
\<close>

type_synonym range_modes = "TxnId \<Rightarrow> ResourceId \<Rightarrow> KeyRange \<Rightarrow> LockMode"

primrec table_call :: "range_modes \<Rightarrow> Table \<Rightarrow> Call \<Rightarrow> Outcome \<times> Table" where
  "table_call mode_of tb (Try_Acquire t r m) =
     (case grant_in t m (holders tb r) of
        Some hs \<Rightarrow> (Res (Ok ()), put_holders tb r hs)
      | None \<Rightarrow> (Res (Err Conflict), tb))"
| "table_call mode_of tb (Release_One t r) =
     (if is_holder t (holders tb r) then (Res (Ok ()), put_holders tb r (remove_from t (holders tb r)))
      else (Res (Err NotHeld), tb))"
| "table_call mode_of tb (Release_All t) =
     (Count (locks_total tb t),
      \<lparr>holders = (\<lambda>r. remove_from t (holders tb r)),
       ranges_held = (\<lambda>s. filter_mset (\<lambda>h. rh_txn h \<noteq> t) (ranges_held tb s)),
       registered = fmdrop t (registered tb)\<rparr>)"
| "table_call mode_of tb (Request t r m) =
     (case grant_in t m (holders tb r) of
        Some hs \<Rightarrow> (Acq Granted, put_holders (tb\<lparr>registered := fmdrop t (registered tb)\<rparr>) r hs)
      | None \<Rightarrow>
          (let tb1 = tb\<lparr>registered := fmupd t (r, m) (registered tb)\<rparr>
           in (Acq (detection_answer (wait_graph tb1) t), tb1)))"
| "table_call mode_of tb (Cancel_Wait t) = (Unit, tb\<lparr>registered := fmdrop t (registered tb)\<rparr>)"
| "table_call mode_of tb (Try_Acquire_Range t s rg m) =
     (if range_refused t rg m (ranges_held tb s) then (Res (Err Conflict), tb)
      else (Res (Ok ()), tb\<lparr>ranges_held := (ranges_held tb)
        (s := add_mset \<lparr>rh_txn = t, rh_range = rg, rh_mode = m\<rparr> (ranges_held tb s))\<rparr>))"
| "table_call mode_of tb (Release_Range t s rg) =
     (let lock = \<lparr>rh_txn = t, rh_range = rg, rh_mode = mode_of t s rg\<rparr>
      in if lock \<in># ranges_held tb s
         then (Res (Ok ()), tb\<lparr>ranges_held := (ranges_held tb)(s := ranges_held tb s - {#lock#})\<rparr>)
         else (Res (Err NotHeld), tb))"

primrec table_step ::
  "(TxnId set \<Rightarrow> TxnId list) \<Rightarrow> range_modes \<Rightarrow> Table \<Rightarrow> Job \<Rightarrow> Reply \<times> Table"
where
  "table_step ord mode_of tb (Change c) = map_prod Answer id (table_call mode_of tb c)"
| "table_step ord mode_of tb Find_Deadlock = (Found (scan_answer ord (wait_graph tb)), tb)"
| "table_step ord mode_of tb Waiting_Count = (Number (hash_map_len (registered tb)), tb)"
| "table_step ord mode_of tb (Holder_Count r) = (Number (length (holders tb r)), tb)"
| "table_step ord mode_of tb (Mode_Held t r) =
     (Mode_Is (map_option h_mode (find (\<lambda>h. h_txn h = t) (holders tb r))), tb)"
| "table_step ord mode_of tb (Range_Count s) = (Number (size (ranges_held tb s)), tb)"

definition keeps_modes :: "range_modes \<Rightarrow> Job \<Rightarrow> bool" where
  "keeps_modes mode_of j \<longleftrightarrow>
     (case j of Change (Try_Acquire_Range t s rg m) \<Rightarrow> m = mode_of t s rg | _ \<Rightarrow> True)"

section \<open>Sections of a shard, on the lists of holders\<close>

lemma grant_section_list:
  assumes "grant_section t r m sh = (granted, sh')"
  shows "granted \<longleftrightarrow> grant_in t m (holders_of (locks sh) r) \<noteq> None"
    and "holders_of (locks sh') = (holders_of (locks sh))
      (r := (case grant_in t m (holders_of (locks sh) r) of Some hs \<Rightarrow> hs | None \<Rightarrow> holders_of (locks sh) r))"
proof -
  obtain e lks1 where e: "entry_or_insert r LockEntry_new (locks sh) = (e, lks1)" by fastforce
  then have hs: "le_holders e = holders_of (locks sh) r" "holders_of lks1 = holders_of (locks sh)"
    by (auto simp: entry_or_insert_def LockEntry_new_def holders_lookup map_simps fun_eq_iff split: option.splits)
  have blocked: "list_ex (\<lambda>(i, h). i \<noteq> pos \<and> \<not> compatible_with (h_mode h) target) (enumerate 0 xs) \<longleftrightarrow>
      \<not> (\<forall>j < length xs. j \<noteq> pos \<longrightarrow> compatible_with (h_mode (xs ! j)) target)" for pos target xs
    by (auto simp: list_ex_iff in_set_enumerate_eq)
  show "granted \<longleftrightarrow> grant_in t m (holders_of (locks sh) r) \<noteq> None"
    and "holders_of (locks sh') = (holders_of (locks sh))
      (r := (case grant_in t m (holders_of (locks sh) r) of Some hs \<Rightarrow> hs | None \<Rightarrow> holders_of (locks sh) r))"
    using assms
    by (auto simp: grant_section_def try_grant_locked_def e hs grant_in_def Let_def blocked map_simps
        simp del: position_None split: option.splits if_splits)
qed

text \<open>\<open>is_holder\<close> on the two sides.\<close>

lemma is_holder_iff: "is_holder t hs \<longleftrightarrow> (\<exists>h \<in> set hs. h_txn h = t)"
  by (simp add: is_holder_def list_ex_iff)

lemma position_holder: "\<not> is_holder t hs \<Longrightarrow> position (\<lambda>h. h_txn h = t) hs = None"
  by (simp add: is_holder_iff)

lemma remove_from_absent: "\<not> is_holder t hs \<Longrightarrow> remove_from t hs = hs"
  by (simp add: remove_from_def position_holder del: position_None)

lemma release_section_list:
  shows "fst (release_section t r sh) = (if is_holder t (holders_of (locks sh) r) then Ok () else Err NotHeld)"
    and "holders_of (locks (snd (release_section t r sh))) =
      (holders_of (locks sh))(r := remove_from t (holders_of (locks sh) r))"
proof -
  let ?hs = "holders_of (locks sh) r"
  have "fst (release_section t r sh) = (if is_holder t ?hs then Ok () else Err NotHeld)
     \<and> holders_of (locks (snd (release_section t r sh))) = (holders_of (locks sh))(r := remove_from t ?hs)"
  proof (cases "fmlookup (locks sh) r")
    case None
    then show ?thesis
      by (simp add: release_section_def holders_lookup remove_from_def is_holder_def fun_upd_idem)
  next
    case (Some e)
    show ?thesis
    proof (cases "position (\<lambda>h. h_txn h = t) (le_holders e)")
      case None
      then have "\<not> is_holder t (le_holders e)" by (simp add: is_holder_iff)
      with Some None show ?thesis
        by (simp add: release_section_def holders_lookup remove_from_absent fun_upd_idem del: position_None)
    next
      case pos: (Some i)
      then have "is_holder t (le_holders e)"
        using position_Some_nth_mem [OF pos] position_Some_holds [OF pos] by (auto simp: is_holder_iff)
      with Some pos show ?thesis
        by (simp add: release_section_def holders_lookup remove_from_def Let_def map_simps del: swap_remove_eq_Nil)
    qed
  qed
  then show "fst (release_section t r sh) = (if is_holder t ?hs then Ok () else Err NotHeld)"
    and "holders_of (locks (snd (release_section t r sh))) = (holders_of (locks sh))(r := remove_from t ?hs)"
    by blast+
qed

text \<open>\<open>release_all\<close>: every resource of the vector loses the holder, and the vector has them all.\<close>

lemma drop_one_point:
  "drop_one h_txn point_item (\<lambda>r. r) t r (tbl, n) =
     (tbl(r := remove_from t (tbl r)), snd (drop_one h_txn point_item (\<lambda>r. r) t r (tbl, n)))"
  by (auto simp: drop_one_def point_item_def remove_from_def fun_upd_idem simp del: position_None split: option.split)

lemma drop_points:
  "distinct rs \<Longrightarrow> fst (fold (drop_one h_txn point_item (\<lambda>r. r) t) rs (tbl, n)) =
     (\<lambda>r. if r \<in> set rs then remove_from t (tbl r) else tbl r)"
proof (induction rs arbitrary: tbl n)
  case (Cons r rs)
  obtain n' where "drop_one h_txn point_item (\<lambda>r. r) t r (tbl, n) = (tbl(r := remove_from t (tbl r)), n')"
    using drop_one_point by blast
  with Cons show ?case by (auto simp: fun_eq_iff)
qed simp

lemma release_all_section_list:
  assumes inv: "shard_inv sh"
  shows "holders_of (locks (snd (release_all_section t sh))) r = remove_from t (holders_of (locks sh) r)"
proof -
  let ?d = "drop_one h_txn point_item (\<lambda>r. r) t" and ?v = "vec_at (by_txn sh) t"
  obtain lks n where lks: "fold (release_point t) ?v (locks sh, 0) = (lks, n)"
      "holders_of lks = fst (fold ?d ?v (holders_of (locks sh), 0))"
    using fold_simulated [of "release_point t" ?d holders_of "\<lambda>m. True" ?v "locks sh" 0] release_point_drop_one
    by blast
  have "locks (snd (release_all_section t sh)) = lks"
    unfolding release_all_section_def fold_absent_point fold_absent_span
    by (simp add: lks(1) split: prod.split)
  then have "holders_of (locks (snd (release_all_section t sh))) r =
      (if r \<in> set ?v then remove_from t (holders_of (locks sh) r) else holders_of (locks sh) r)"
    using lks(2) drop_points [OF point_vec(1) [OF inv]] by simp
  moreover have "\<not> is_holder t (holders_of (locks sh) r)" if "r \<notin> set ?v"
    using that point_vec(2) [OF inv, of t] by (auto simp: is_holder_iff point_mode_def held_mode_None)
  ultimately show ?thesis by (auto simp: remove_from_absent)
qed

section \<open>The manager as one table\<close>

definition points :: "LockManager \<Rightarrow> ResourceId \<Rightarrow> Holder list" where
  "points mg r = holders_of (locks (shard_at mg (route mg r))) r"

lemma with_shard_points:
  assumes inv: "manager_inv mg" and run: "with_shard mg res crit = Some (x, mg')"
    and crit: "holders_of (locks (snd (crit (shard_at mg (route mg res))))) =
      (holders_of (locks (shard_at mg (route mg res))))(res := hs)"
  shows "x = fst (crit (shard_at mg (route mg res)))" and "points mg' = (points mg)(res := hs)"
proof -
  let ?i = "route mg res"
  obtain y sh where sec: "crit (shard_at mg ?i) = (y, sh)" by fastforce
  have len: "?i < length (shards mg)" using inv route_less by (simp add: manager_inv_def)
  have mg': "x = y" "mg' = mg\<lparr>shards := (shards mg)[?i := (shards mg ! ?i)\<lparr>inner := sh\<rparr>]\<rparr>"
    using run sec lock_shard_Some [OF manager_inv_shape [OF inv], of res]
    by (auto simp: with_shard_def route_def Let_def)
  then show "x = fst (crit (shard_at mg ?i))" using sec by simp
  have "route mg' = route mg" by (simp add: fun_eq_iff route_def shard_index_def mg')
  moreover have "shard_at mg' j = (if j = ?i then sh else shard_at mg j)" for j
    using len by (simp add: shard_at_def mg')
  ultimately show "points mg' = (points mg)(res := hs)"
    using crit sec by (auto simp: fun_eq_iff points_def)
qed

lemma points_waits [simp]: "points (mg\<lparr>waits := w\<rparr>) = points mg"
  by (simp add: fun_eq_iff points_def)

lemma release_all_points:
  assumes inv: "manager_inv mg"
  shows "points (snd (release_all mg t)) = (\<lambda>r. remove_from t (points mg r))"
proof
  fix r
  let ?rel = "\<lambda>s. s\<lparr>inner := snd (release_all_section t (inner s))\<rparr>"
  have "\<forall>s \<in> set (shards mg). shard_inv (inner s)"
    using shard_okD(1) manager_inv_ok [OF inv] by (auto simp: in_set_conv_nth shard_at_def)
  then have mg': "snd (release_all mg t) = mg\<lparr>shards := map ?rel (shards mg), waits := fmdrop t (waits mg)\<rparr>"
    by (simp add: release_all_def release_shards_eq)
  have rt: "route (snd (release_all mg t)) r = route mg r" by (simp add: route_def shard_index_def mg')
  have len: "route mg r < length (shards mg)" using inv by (simp add: route_less manager_inv_shape)
  then have "shard_at (snd (release_all mg t)) (route mg r) = snd (release_all_section t (shard_at mg (route mg r)))"
    by (simp add: shard_at_def mg')
  then show "points (snd (release_all mg t)) r = remove_from t (points mg r)"
    using release_all_section_list [OF manager_inv_shard [OF inv]] by (simp add: points_def rt)
qed

lemma holds_points: "holds mg t r = held_mode (points mg r) t"
  by (simp add: holds_def points_def point_mode_def)

lemma is_holder_points: "is_holder t (points mg r) \<longleftrightarrow> holds mg t r \<noteq> None"
  by (auto simp: is_holder_iff holds_points held_mode_None)

lemma find_holder: "map_option h_mode (find (\<lambda>h. h_txn h = t) (points mg r)) = holds mg t r"
  by (simp add: holds_points held_mode_def)

text \<open>The graph that \<open>build_wait_graph\<close> builds, whatever the order of the waits.\<close>

lemma holders_blocking_points:
  "manager_inv mg \<Longrightarrow> holders_blocking mg w r m = Some (blockers_in w m (points mg r))"
  by (simp add: holders_blocking_def read_shard_Some blocking_section_def points_def blockers_in_def
      holders_of_def get_map_or_def split: option.split)

lemma add_waits_new:
  assumes "fmlookup (edges g) w = None" and "w \<notin> set bs"
  shows "edges (add_waits g w bs) = (if bs = [] then edges g else fmupd w bs (edges g))"
proof -
  have more: "fmlookup (edges g) w = Some v \<Longrightarrow> w \<notin> set bs \<Longrightarrow> edges (add_waits g w bs) = fmupd w (v @ bs) (edges g)"
    for g v bs
  proof (induction bs arbitrary: g v)
    case Nil
    then show ?case by (auto intro!: fmap_ext)
  next
    case (Cons b bs)
    then have "edges (add_wait g w b) = fmupd w (v @ [b]) (edges g)"
      by (auto simp: add_wait_def entry_push_fmupd get_map_or_Some)
    with Cons.IH [of "add_wait g w b" "v @ [b]"] Cons.prems show ?case
      by (auto intro!: fmap_ext)
  qed
  show ?thesis
  proof (cases bs)
    case (Cons b bs')
    with assms have "edges (add_wait g w b) = fmupd w [b] (edges g)"
      by (auto simp: add_wait_def entry_push_fmupd get_map_or_None)
    with more [of "add_wait g w b" "[b]" bs'] assms Cons show ?thesis
      by (auto intro!: fmap_ext)
  qed simp
qed

definition wait_vector :: "LockManager \<Rightarrow> TxnId \<Rightarrow> TxnId list" where
  "wait_vector mg w = (case fmlookup (waits mg) w of Some (r, m) \<Rightarrow> blockers_in w m (points mg r) | None \<Rightarrow> [])"

lemma add_waiters_lookup:
  assumes "manager_inv mg" and "distinct ws" and "\<forall>w \<in> set ws. fmlookup (edges g) w = None"
  shows "\<exists>g'. add_waiters mg ws g = Some g' \<and> (\<forall>w. fmlookup (edges g') w =
    (if w \<in> set ws \<and> wait_vector mg w \<noteq> [] then Some (wait_vector mg w) else fmlookup (edges g) w))"
  using assms(2,3)
proof (induction ws arbitrary: g)
  case (Cons w ws)
  show ?case
  proof (cases "fmlookup (waits mg) w")
    case None
    then have "wait_vector mg w = []" by (simp add: wait_vector_def)
    with None Cons.IH [of g] Cons.prems show ?thesis by auto
  next
    case (Some rm)
    obtain r m where rm: "rm = (r, m)" by fastforce
    let ?bs = "blockers_in w m (points mg r)"
    have vec: "wait_vector mg w = ?bs" using Some rm by (simp add: wait_vector_def)
    have "w \<notin> set ?bs" by (auto simp: blockers_in_def)
    then have e: "edges (add_waits g w ?bs) = (if ?bs = [] then edges g else fmupd w ?bs (edges g))"
      using Cons.prems(2) by (intro add_waits_new) auto
    then have "\<forall>u \<in> set ws. fmlookup (edges (add_waits g w ?bs)) u = None"
      using Cons.prems by auto
    from Cons.IH [OF _ this] Cons.prems(1) obtain g' where
      "add_waiters mg ws (add_waits g w ?bs) = Some g'"
      "\<forall>u. fmlookup (edges g') u = (if u \<in> set ws \<and> wait_vector mg u \<noteq> [] then Some (wait_vector mg u)
         else fmlookup (edges (add_waits g w ?bs)) u)" by auto
    moreover have "add_waiters mg (w # ws) g = add_waiters mg ws (add_waits g w ?bs)"
      using Some rm by (simp add: holders_blocking_points [OF assms(1)])
    ultimately show ?thesis using e vec Cons.prems by auto
  qed
qed simp

lemma build_wait_graph_points:
  assumes inv: "manager_inv mg" and ord: "key_order ord"
    and tb: "holders tb = points mg" "registered tb = waits mg"
  shows "build_wait_graph ord mg = Some (wait_graph tb)"
proof -
  obtain g' where g': "build_wait_graph ord mg = Some g'"
    "\<forall>w. fmlookup (edges g') w = (if w \<in> fmdom' (waits mg) \<and> wait_vector mg w \<noteq> [] then Some (wait_vector mg w) else None)"
    using add_waiters_lookup [OF inv, of "ord (fmdom' (waits mg))" WaitForGraph_new] key_orderD [OF ord, of "fmdom' (waits mg)"]
    by (auto simp: build_wait_graph_def WaitForGraph_new_def)
  have "fmlookup (edges g') w = fmlookup (edges (wait_graph tb)) w" for w
    using g'(2) by (cases "fmlookup (waits mg) w")
      (auto simp: wait_graph_def tb wait_vector_def fmlookup_dom'_iff)
  then have "edges g' = edges (wait_graph tb)" by (rule fmap_ext)
  then have "g' = wait_graph tb" by simp
  with g'(1) show ?thesis by simp
qed

section \<open>Simulation\<close>

definition shows_table :: "range_modes \<Rightarrow> LockManager \<Rightarrow> Table \<Rightarrow> bool" where
  "shows_table mode_of mg tb \<longleftrightarrow> manager_inv mg \<and> holders tb = points mg \<and> registered tb = waits mg
     \<and> (\<forall>s. ranges_held tb s = mset (range_holders mg s))
     \<and> (\<forall>s. \<forall>h \<in># ranges_held tb s. rh_mode h = mode_of (rh_txn h) s (rh_range h))"

lemma shows_tableD:
  assumes "shows_table mode_of mg tb"
  shows "manager_inv mg" and "holders tb = points mg" and "registered tb = waits mg"
    and "ranges_held tb s = mset (range_holders mg s)"
    and "h \<in># ranges_held tb s \<Longrightarrow> rh_mode h = mode_of (rh_txn h) s (rh_range h)"
  using assms by (auto simp: shows_table_def)

lemma grant_points:
  assumes inv: "manager_inv mg"
  shows "\<exists>mg'. with_shard mg r (grant_section t r m) = Some (grant_in t m (points mg r) \<noteq> None, mg')
    \<and> manager_inv mg' \<and> waits mg' = waits mg \<and> range_holders mg' = range_holders mg
    \<and> points mg' = (case grant_in t m (points mg r) of Some hs \<Rightarrow> (points mg)(r := hs) | None \<Rightarrow> points mg)"
proof -
  obtain g mg' where mg': "with_shard mg r (grant_section t r m) = Some (g, mg')"
      "manager_inv mg'" "waits mg' = waits mg" "range_holders mg' = range_holders mg"
    using grant_section_manager [OF inv] by blast
  obtain x sh where sec: "grant_section t r m (shard_at mg (route mg r)) = (x, sh)" by fastforce
  note L = grant_section_list [OF sec, folded points_def]
  have "g = (grant_in t m (points mg r) \<noteq> None)"
    "points mg' = (points mg)(r := (case grant_in t m (points mg r) of Some hs \<Rightarrow> hs | None \<Rightarrow> points mg r))"
    using with_shard_points [OF inv mg'(1)] sec L by auto
  with mg' show ?thesis by (auto split: option.splits)
qed

lemma locks_total_eq:
  assumes "shows_table mode_of mg tb"
  shows "locks_total tb t = lock_total mg t"
  using shows_tableD [OF assms]
  by (simp add: locks_total_def lock_total_def is_holder_points flip: mset_filter)

text \<open>The sections on ranges leave the point locks alone.\<close>

lemma with_shard_same_points:
  assumes inv: "manager_inv mg" and run: "with_shard mg res crit = Some (x, mg')"
    and same: "\<And>sh. locks (snd (crit sh)) = locks sh"
  shows "points mg' = points mg"
proof -
  have "points mg' = (points mg)(res := points mg res)"
    by (rule with_shard_points(2) [OF inv run]) (simp add: same points_def)
  then show ?thesis by simp
qed

lemma range_sections_points:
  assumes inv: "manager_inv mg"
  shows "try_acquire_range mg t s rg m = Some (x, mg') \<Longrightarrow> points mg' = points mg"
    and "release_range mg t s rg = Some (y, mg'') \<Longrightarrow> points mg'' = points mg"
  unfolding try_acquire_range_def release_range_def
  by (erule with_shard_same_points [OF inv],
      simp add: range_acquire_section_def range_release_section_def Let_def split: prod.split option.split)+

lemma table_call_simulated:
  assumes rel: "shows_table mode_of mg tb" and ord: "key_order ord" and keeps: "keeps_modes mode_of (Change c)"
  shows "\<exists>mg'. call ord mg c = Some (fst (table_call mode_of tb c), mg')
    \<and> shows_table mode_of mg' (snd (table_call mode_of tb c))"
proof (cases c)
  case (Try_Acquire t r m)
  note R = shows_tableD [OF rel]
  obtain mg' where "with_shard mg r (grant_section t r m) = Some (grant_in t m (points mg r) \<noteq> None, mg')"
      "manager_inv mg'" "waits mg' = waits mg" "range_holders mg' = range_holders mg"
      "points mg' = (case grant_in t m (points mg r) of Some hs \<Rightarrow> (points mg)(r := hs) | None \<Rightarrow> points mg)"
    using grant_points [OF R(1)] by blast
  with R Try_Acquire show ?thesis
    by (auto simp: try_acquire_def shows_table_def put_holders_def split: option.split)
next
  case (Release_One t r)
  note R = shows_tableD [OF rel]
  obtain x mg' where mg': "release mg t r = Some (x, mg')" "manager_inv mg'" "waits mg' = waits mg"
      "range_holders mg' = range_holders mg" "holds mg t r = None \<longrightarrow> mg' = mg"
    using release_effect [OF R(1)] by blast
  have "x = (if is_holder t (points mg r) then Ok () else Err NotHeld)"
    and "points mg' = (points mg)(r := remove_from t (points mg r))"
    using with_shard_points [OF R(1) mg'(1) [unfolded release_def]] release_section_list [folded points_def]
    by (auto simp: points_def)
  with mg' R Release_One show ?thesis
    by (auto simp: shows_table_def put_holders_def remove_from_absent)
next
  case (Release_All t)
  note R = shows_tableD [OF rel]
  obtain mg' where mg': "release_all mg t = (lock_total mg t, mg')" "manager_inv mg'"
      "waits mg' = fmdrop t (waits mg)"
      "\<forall>s. mset (range_holders mg' s) = filter_mset (\<lambda>h. rh_txn h \<noteq> t) (mset (range_holders mg s))"
    using release_all_effect [OF R(1)] by blast
  moreover have "points mg' = (\<lambda>r. remove_from t (points mg r))"
    using release_all_points [OF R(1), of t] mg'(1) by simp
  ultimately show ?thesis
    using R Release_All locks_total_eq [OF rel, of t] by (auto simp: shows_table_def)
next
  case (Request t r m)
  note R = shows_tableD [OF rel]
  obtain mg' where mg': "with_shard mg r (grant_section t r m) = Some (grant_in t m (points mg r) \<noteq> None, mg')"
      "manager_inv mg'" "waits mg' = waits mg" "range_holders mg' = range_holders mg"
      "points mg' = (case grant_in t m (points mg r) of Some hs \<Rightarrow> (points mg)(r := hs) | None \<Rightarrow> points mg)"
    using grant_points [OF R(1)] by blast
  show ?thesis
  proof (cases "grant_in t m (points mg r)")
    case None
    let ?mg = "mg'\<lparr>waits := fmupd t (r, m) (waits mg)\<rparr>" and ?tb = "tb\<lparr>registered := fmupd t (r, m) (registered tb)\<rparr>"
    have "build_wait_graph ord ?mg = Some (wait_graph ?tb)"
      using mg' None R by (intro build_wait_graph_points ord) auto
    with mg' None R Request show ?thesis
      by (auto simp: request_def Let_def detection_answer_def shows_table_def split: option.split)
  next
    case (Some hs)
    with mg' R Request show ?thesis
      by (auto simp: request_def shows_table_def put_holders_def)
  qed
next
  case (Cancel_Wait t)
  with shows_tableD [OF rel] show ?thesis by (auto simp: cancel_wait_def shows_table_def)
next
  case (Try_Acquire_Range t s rg m)
  note R = shows_tableD [OF rel]
  have b: "range_blocked (range_holders mg s) t rg m = range_refused t rg m (ranges_held tb s)"
    by (auto simp: range_blocked_def range_refused_def list_ex_iff R(4))
  obtain mg' where mg': "try_acquire_range mg t s rg m =
        Some (if range_refused t rg m (ranges_held tb s) then Err Conflict else Ok (), mg')"
      "manager_inv mg'" "waits mg' = waits mg"
      "\<not> range_refused t rg m (ranges_held tb s) \<longrightarrow> range_holders mg' = (range_holders mg)
        (s := range_holders mg s @ [\<lparr>rh_txn = t, rh_range = rg, rh_mode = m\<rparr>])"
      "range_refused t rg m (ranges_held tb s) \<longrightarrow> mg' = mg"
    using try_acquire_range_effect [OF R(1), of t s rg m, unfolded b] by blast
  have "points mg' = points mg"
    using range_sections_points(1) [OF R(1) mg'(1)] .
  with mg' R Try_Acquire_Range keeps show ?thesis
    by (auto simp: shows_table_def keeps_modes_def)
next
  case (Release_Range t s rg)
  note R = shows_tableD [OF rel]
  let ?lock = "\<lparr>rh_txn = t, rh_range = rg, rh_mode = mode_of t s rg\<rparr>" and ?hs = "range_holders mg s"
  have only: "h = ?lock" if "h \<in> set ?hs" "span_at t rg h" for h
    using R(5) [of h s] that by (cases h) (simp add: R(4))
  obtain mg' where mg': "release_range mg t s rg =
        Some (if position (span_at t rg) ?hs = None then Err NotHeld else Ok (), mg')"
      "manager_inv mg'" "waits mg' = waits mg"
      "\<forall>i. position (span_at t rg) ?hs = Some i \<longrightarrow>
         range_holders mg' = (range_holders mg)(s := swap_remove i ?hs)"
      "position (span_at t rg) ?hs = None \<longrightarrow> mg' = mg"
    using release_range_effect [OF R(1), of t s rg] by (elim exE conjE) (rule that)
  have pts: "points mg' = points mg" using range_sections_points(2) [OF R(1) mg'(1)] .
  show ?thesis
  proof (cases "position (span_at t rg) ?hs")
    case None
    have "?lock \<notin> set ?hs"
    proof
      assume "?lock \<in> set ?hs"
      then have "\<exists>i. position (span_at t rg) ?hs = Some i" by (rule position_exists) simp
      with None show False by (simp del: position_None)
    qed
    then have "table_call mode_of tb c = (Res (Err NotHeld), tb)" by (simp add: Release_Range R(4) Let_def)
    moreover have "call ord mg c = Some (Res (Err NotHeld), mg)"
      using mg'(1,5) None by (simp add: Release_Range del: position_None)
    ultimately show ?thesis using rel by simp
  next
    case (Some i)
    then have i: "i < length ?hs" "?hs ! i = ?lock"
      using only position_SomeD [OF Some] by auto
    then have "?lock \<in> set ?hs" using nth_mem by fastforce
    moreover have "mset (swap_remove i ?hs) = mset ?hs - {#?lock#}" using i by (simp add: mset_swap_remove)
    ultimately have "snd (table_call mode_of tb c) = tb\<lparr>ranges_held := (ranges_held tb)(s := mset (swap_remove i ?hs))\<rparr>"
      and "fst (table_call mode_of tb c) = Res (Ok ())"
      by (simp_all add: Release_Range R(4) Let_def)
    moreover have "call ord mg c = Some (Res (Ok ()), mg')"
      using mg'(1) Some by (simp add: Release_Range del: position_None)
    moreover have "h \<in># ranges_held tb s" if "h \<in> set (swap_remove i ?hs)" for h
      using that set_swap_remove_subset [OF i(1)] by (auto simp: R(4))
    ultimately show ?thesis
      using mg'(2-4) Some pts R(2,3,4) R(5) by (auto simp: shows_table_def)
  qed
qed


lemma table_step_simulated:
  assumes rel: "shows_table mode_of mg tb" and ord: "key_order ord" and keeps: "keeps_modes mode_of j"
  shows "\<exists>mg'. perform ord mg j = Some (fst (table_step ord mode_of tb j), mg')
    \<and> shows_table mode_of mg' (snd (table_step ord mode_of tb j))"
proof (cases j)
  case (Change c)
  with table_call_simulated [OF rel ord, of c] keeps show ?thesis by auto
next
  case Find_Deadlock
  note R = shows_tableD [OF rel]
  from Find_Deadlock build_wait_graph_points [OF R(1) ord R(2,3)] rel show ?thesis
    by (simp add: find_deadlock_def scan_answer_def)
next
  case (Holder_Count r)
  note R = shows_tableD [OF rel]
  have "holder_count mg r = Some (length (points mg r))"
    by (simp add: holder_count_def read_shard_Some [OF R(1)] points_def holders_of_def get_map_or_def split: option.split)
  with Holder_Count R rel show ?thesis by simp
qed (use rel shows_tableD [OF rel] in \<open>auto simp: waiting_count_def mode_held_eq find_holder range_count_eq\<close>)


lemma new_shows_table:
  "with_shards oc alloc n = Some mg \<Longrightarrow> shard_count mg \<noteq> 0 \<Longrightarrow> shows_table mode_of mg empty_table"
proof -
  assume mg: "with_shards oc alloc n = Some mg" "shard_count mg \<noteq> 0"
  then have ne: "shards mg \<noteq> []" by (auto simp: shard_count_def)
  note W = with_shards_inv [OF mg(1) ne]
  have "points mg r = []" for r
    using W(3) [of _ r] by (metis is_holder_iff is_holder_points list.set_intros(1) neq_Nil_conv)
  then show ?thesis using W(1,2,4) by (simp add: shows_table_def empty_table_def fun_eq_iff)
qed

section \<open>Runs\<close>

text \<open>For every order of iteration and every choice of the modes of ranges the table simulates the manager.\<close>

definition shows_table_at ::
  "(TxnId set \<Rightarrow> TxnId list) \<Rightarrow> range_modes \<Rightarrow> LockManager \<Rightarrow> Table \<Rightarrow> bool"
where
  "shows_table_at ord mode_of mg tb \<longleftrightarrow> key_order ord \<and> shows_table mode_of mg tb"

interpretation tables: guarded_simulation "perform ord" "table_step ord mode_of" "shows_table_at ord mode_of"
  "keeps_modes mode_of" for ord mode_of
  by unfold_locales (use table_step_simulated in \<open>auto simp: shows_table_at_def\<close>)

lemma new_run:
  assumes "with_shards oc alloc n = Some mg" and "shard_count mg \<noteq> 0" and "key_order ord"
    and "list_all (keeps_modes mode_of) js"
  shows "\<exists>mg'. run_program (perform ord) mg js = Some (fst (run_model (table_step ord mode_of) empty_table js), mg')
    \<and> shows_table mode_of mg' (snd (run_model (table_step ord mode_of) empty_table js))"
  using tables.allowed_run_simulates [of ord mode_of mg empty_table js] new_shows_table [OF assms(1,2)] assms(3,4)
  by (auto simp: shows_table_at_def)

text \<open>A run with a deadlock, broken by aborting the youngest, and a refused range.\<close>

definition sample_jobs :: "Job list" where
  "sample_jobs =
     [Change (Request (TxnId 1) (ResourceId 1) Shared), Change (Request (TxnId 2) (ResourceId 2) Exclusive),
      Change (Request (TxnId 1) (ResourceId 2) Shared), Change (Request (TxnId 2) (ResourceId 1) Exclusive),
      Find_Deadlock, Change (Try_Acquire_Range (TxnId 1) (ResourceId 3) (KeyRange_point 5) Shared),
      Change (Try_Acquire_Range (TxnId 2) (ResourceId 3) (KeyRange_point 5) Exclusive),
      Change (Release_All (TxnId 2)), Change (Request (TxnId 1) (ResourceId 2) Shared)]"

definition sample_answers :: "Reply list" where
  "sample_answers =
     (let d = \<lparr>dl_victim = TxnId 2, dl_cycle = [TxnId 2, TxnId 1]\<rparr>; d' = \<lparr>dl_victim = TxnId 2, dl_cycle = [TxnId 1, TxnId 2]\<rparr>
      in [Answer (Acq Granted), Answer (Acq Granted), Answer (Acq Waiting), Answer (Acq (Deadlock d)),
          Found (Some d'), Answer (Res (Ok ())), Answer (Res (Err Conflict)), Answer (Count 1), Answer (Acq Granted)])"

definition sample_modes :: range_modes where
  "sample_modes t s rg = (if t = TxnId 1 then Shared else Exclusive)"

lemma sample_keeps: "list_all (keeps_modes sample_modes) sample_jobs"
  by (simp add: sample_jobs_def keeps_modes_def sample_modes_def)

lemma sample_run:
  "map_option fst (Option.bind (with_shards True (\<lambda>_. True) 4)
     (\<lambda>mg. run_program (perform sorted_list_of_set) mg sample_jobs)) = Some sample_answers"
  by code_simp

lemma sample_manager:
  obtains mg mg' where "with_shards True (\<lambda>_. True) 4 = Some mg" "shard_count mg \<noteq> 0"
    "run_program (perform sorted_list_of_set) mg sample_jobs = Some (sample_answers, mg')"
proof -
  have "map_option shard_count (with_shards True (\<lambda>_. True) 4) = Some 4" by code_simp
  with sample_run that show thesis by (auto simp: bind_eq_Some_conv)
qed

text \<open>
  C5: The lock manager refines one unsharded table.  For every shard count and every sequence of
  operations in which a transaction takes a given range in one mode, the answers are those of the
  specification \<open>table_step\<close>, the cycles of deadlocks included, and in the end the table that the shards
  hold together, the ranges and the registered waits are those of the specification.
\<close>

theorem manager_refines_table:
  assumes "with_shards oc alloc n = Some mg" and "shard_count mg \<noteq> 0" and "key_order ord"
    and "list_all (keeps_modes mode_of) js"
  shows "\<exists>answers tb mg'. run_model (table_step ord mode_of) empty_table js = (answers, tb)
    \<and> run_program (perform ord) mg js = Some (answers, mg')
    \<and> holders tb = points mg' \<and> registered tb = waits mg'
    \<and> (\<forall>s. ranges_held tb s = mset (range_holders mg' s))"
proof -
  obtain answers tb where run: "run_model (table_step ord mode_of) empty_table js = (answers, tb)" by fastforce
  from new_run [OF assms] obtain mg' where
    mg': "run_program (perform ord) mg js = Some (answers, mg')" "shows_table mode_of mg' tb"
    by (auto simp: run)
  from run mg'(1) shows_tableD(2-4) [OF mg'(2)] show ?thesis by blast
qed

theorem manager_refines_table_witness:
  "\<exists>mg mg'. with_shards True (\<lambda>_. True) 4 = Some mg
    \<and> run_program (perform sorted_list_of_set) mg sample_jobs = Some (sample_answers, mg')
    \<and> fst (run_model (table_step sorted_list_of_set sample_modes) empty_table sample_jobs) = sample_answers"
proof -
  obtain mg mg' where mg: "with_shards True (\<lambda>_. True) 4 = Some mg" "shard_count mg \<noteq> 0"
      "run_program (perform sorted_list_of_set) mg sample_jobs = Some (sample_answers, mg')"
    by (rule sample_manager)
  from manager_refines_table [OF mg(1,2) key_order_sorted sample_keeps] mg show ?thesis by auto
qed



text \<open>
  The condition on the modes of ranges is needed.  A transaction that takes one range in two modes can
  see the shard count: \<open>release_range\<close> takes the lock stored first, and how the locks of others are
  removed around them depends on what else shares the shard.
\<close>

definition two_modes :: "Job list" where
  "two_modes =
     (let range = (\<lambda>t s k m. Change (Try_Acquire_Range (TxnId t) (ResourceId s) (KeyRange_point k) m))
      in [range 1 2 0 IntentionShared, range 1 1 1 IntentionShared, range 1 1 2 IntentionShared,
          range 2 1 3 Shared, range 2 1 3 IntentionExclusive,
          Change (Release_Range (TxnId 1) (ResourceId 2) (KeyRange_point 0)), Change (Release_All (TxnId 1)),
          Change (Release_Range (TxnId 2) (ResourceId 1) (KeyRange_point 3)), range 3 1 3 Shared])"

lemma two_modes_see_shards:
  "map_option (last \<circ> fst) (Option.bind (with_shards True (\<lambda>_. True) 1)
     (\<lambda>mg. run_program (perform sorted_list_of_set) mg two_modes)) = Some (Answer (Res (Err Conflict)))"
  "map_option (last \<circ> fst) (Option.bind (with_shards True (\<lambda>_. True) 16)
     (\<lambda>mg. run_program (perform sorted_list_of_set) mg two_modes)) = Some (Answer (Res (Ok ())))"
  by code_simp+

end
