(* ===== verification/Kahn.thy ===== *)
theory Kahn
  imports Wait_Graph_Props
begin

text \<open>
  The independent reference for acyclicity in \<open>src/tests/properties.rs\<close>: Kahn's algorithm over a list of
  edges (\<open>has_cycle\<close>).  It removes nodes that no remaining edge enters, until none is left to remove; the
  loop is not structural, so not returning is \<open>None\<close>.  \<open>has_cycle_acyclic\<close> shows that it returns, and what;
  \<open>detection_matches_kahn\<close> is the property test for all graphs.
\<close>

section \<open>The algorithm\<close>

text \<open>
  The successors of every node, the number of edges that enter it, and the nodes.  A counter is at most
  the length of a vector of edges, so its machine width does not matter.
\<close>

record Kahn_Graph =
  adj :: "(u64, u64 list) hash_map"
  indeg :: "(u64, nat) hash_map"
  nodes :: "u64 set"

definition kahn_edge :: "u64 \<times> u64 \<Rightarrow> Kahn_Graph \<Rightarrow> Kahn_Graph" where
  "kahn_edge = (\<lambda>(a, b) g.
     if a = b then g
     else
       (let (d, deg1) = entry_or_insert b 0 (indeg g);
            deg2 = fmupd b (d + 1) deg1;
            (_, deg3) = entry_or_insert a 0 deg2
        in \<lparr>adj = entry_push a b (adj g), indeg = deg3, nodes = insert b (insert a (nodes g))\<rparr>))"

definition kahn_graph :: "(u64 \<times> u64) list \<Rightarrow> Kahn_Graph" where
  "kahn_graph es = fold kahn_edge es \<lparr>adj = fmempty, indeg = fmempty, nodes = {}\<rparr>"

text \<open>One successor: its counter goes down, saturating, and at 0 the node goes to the back of the queue.\<close>

definition kahn_successor ::
  "u64 \<Rightarrow> (u64, nat) hash_map \<times> u64 list \<Rightarrow> (u64, nat) hash_map \<times> u64 list"
where
  "kahn_successor m = (\<lambda>(deg, queue).
     let (d, deg1) = entry_or_insert m 0 deg; d1 = d - 1
     in (fmupd m d1 deg1, if d1 = 0 then queue @ [m] else queue))"

partial_function (option) kahn_loop ::
  "(u64, u64 list) hash_map \<Rightarrow> (u64, nat) hash_map \<Rightarrow> u64 list \<Rightarrow> nat \<Rightarrow> nat option"
where
  [code]: "kahn_loop adjs deg queue removed =
     (case queue of
        [] \<Rightarrow> Some removed
      | n # rest \<Rightarrow>
          (case fmlookup adjs n of
             None \<Rightarrow> kahn_loop adjs deg rest (removed + 1)
           | Some succs \<Rightarrow>
               (let (deg1, queue1) = fold kahn_successor succs (deg, rest)
                in kahn_loop adjs deg1 queue1 (removed + 1))))"

definition has_cycle :: "(u64 set \<Rightarrow> u64 list) \<Rightarrow> (u64 \<times> u64) list \<Rightarrow> bool option" where
  "has_cycle ord es =
     (let g = kahn_graph es;
          queue = filter (\<lambda>n. get_map_or 0 (\<lambda>d. d) (indeg g) n = 0) (ord (nodes g))
      in map_option (\<lambda>removed. removed \<noteq> card (nodes g)) (kahn_loop (adj g) (indeg g) queue 0))"

section \<open>What the graph holds\<close>

abbreviation degree :: "(u64, nat) hash_map \<Rightarrow> u64 \<Rightarrow> nat" where
  "degree deg n \<equiv> get_map_or 0 (\<lambda>d. d) deg n"

definition proper :: "(u64 \<times> u64) list \<Rightarrow> (u64 \<times> u64) list" where
  "proper es = filter (\<lambda>(a, b). a \<noteq> b) es"

text \<open>The edges into a node that start outside a set of removed nodes.\<close>

definition entering :: "(u64 \<times> u64) list \<Rightarrow> u64 set \<Rightarrow> u64 \<Rightarrow> nat" where
  "entering es R n = length (filter (\<lambda>(a, b). b = n \<and> a \<notin> R) es)"

definition successors :: "(u64 \<times> u64) list \<Rightarrow> u64 \<Rightarrow> u64 list" where
  "successors es n = map snd (filter (\<lambda>(a, b). a = n) es)"

definition node_set :: "(u64 \<times> u64) list \<Rightarrow> u64 set" where
  "node_set es = fst ` set es \<union> snd ` set es"

lemma degree_entry [map_simps]:
  "degree (snd (entry_or_insert k 0 deg)) n = degree deg n" "fst (entry_or_insert k 0 deg) = degree deg k"
  by (auto simp: entry_or_insert_def get_map_or_def split: option.split)

lemma kahn_edge_views:
  "a \<noteq> b \<Longrightarrow> degree (indeg (kahn_edge (a, b) g)) n = degree (indeg g) n + (if n = b then 1 else 0)"
  "a \<noteq> b \<Longrightarrow> vec_at (adj (kahn_edge (a, b) g)) n = vec_at (adj g) n @ (if n = a then [b] else [])"
  "a \<noteq> b \<Longrightarrow> nodes (kahn_edge (a, b) g) = insert b (insert a (nodes g))"
  "kahn_edge (a, a) g = g"
  by (auto simp: kahn_edge_def map_simps Let_def split: prod.split)
    (auto simp: entry_or_insert_def map_simps get_map_or_def split: option.splits if_splits)

lemma kahn_fold_views:
  "degree (indeg (fold kahn_edge es g)) n = degree (indeg g) n + entering (proper es) {} n
   \<and> vec_at (adj (fold kahn_edge es g)) n = vec_at (adj g) n @ successors (proper es) n
   \<and> nodes (fold kahn_edge es g) = nodes g \<union> node_set (proper es)"
proof (induction es arbitrary: g)
  case Nil
  show ?case by (simp add: entering_def successors_def node_set_def proper_def)
next
  case (Cons e es)
  obtain a b where e: "e = (a, b)" by fastforce
  show ?case
  proof (cases "a = b")
    case True
    with Cons.IH [of g] show ?thesis by (simp add: e kahn_edge_views proper_def)
  next
    case False
    with Cons.IH [of "kahn_edge (a, b) g"] show ?thesis
      by (auto simp: e kahn_edge_views proper_def entering_def successors_def node_set_def)
  qed
qed

lemma kahn_graph_views:
  "degree (indeg (kahn_graph es)) n = entering (proper es) {} n"
  "vec_at (adj (kahn_graph es)) n = successors (proper es) n"
  "nodes (kahn_graph es) = node_set (proper es)"
  using kahn_fold_views [of es "\<lparr>adj = fmempty, indeg = fmempty, nodes = {}\<rparr>" n]
  by (simp_all add: kahn_graph_def map_simps)

section \<open>The loop\<close>

lemma kahn_loop_Nil [simp]: "kahn_loop adjs deg [] removed = Some removed"
  by (simp add: kahn_loop.simps)

lemma kahn_loop_Cons:
  "kahn_loop adjs deg (n # rest) removed =
     (let (deg1, queue1) = fold kahn_successor (vec_at adjs n) (deg, rest)
      in kahn_loop adjs deg1 queue1 (removed + 1))"
  by (subst kahn_loop.simps) (simp add: get_map_or_def split: option.split)

lemma kahn_successors:
  assumes "\<And>m. count (mset xs) m \<le> degree deg m"
  shows "\<exists>deg' zs. fold kahn_successor xs (deg, q) = (deg', q @ zs)
    \<and> (\<forall>m. degree deg' m = degree deg m - count (mset xs) m)
    \<and> distinct zs \<and> set zs = {m \<in> set xs. degree deg m = count (mset xs) m}"
  using assms
proof (induction xs arbitrary: deg q)
  case (Cons x xs)
  let ?d1 = "degree deg x - 1"
  define deg1 where "deg1 = fmupd x ?d1 (snd (entry_or_insert x 0 deg))"
  have step: "kahn_successor x (deg, q) = (deg1, if ?d1 = 0 then q @ [x] else q)"
    by (simp add: kahn_successor_def deg1_def degree_entry Let_def split: prod.split)
      (metis degree_entry(2) fst_conv)
  have deg1: "degree deg1 m = (if m = x then ?d1 else degree deg m)" for m
    by (simp add: deg1_def map_simps)
  have "count (mset xs) m \<le> degree deg1 m" for m
    using Cons.prems [of m] by (auto simp: deg1)
  from Cons.IH [OF this, of "if ?d1 = 0 then q @ [x] else q"] obtain deg' zs where
    rest: "fold kahn_successor xs (deg1, if ?d1 = 0 then q @ [x] else q) = (deg', (if ?d1 = 0 then q @ [x] else q) @ zs)"
      "\<forall>m. degree deg' m = degree deg1 m - count (mset xs) m" "distinct zs"
      "set zs = {m \<in> set xs. degree deg1 m = count (mset xs) m}"
    by blast
  have x: "Suc (count (mset xs) x) \<le> degree deg x" using Cons.prems [of x] by simp
  let ?zs = "if ?d1 = 0 then x # zs else zs"
  have gone: "x \<notin> set xs" if "?d1 = 0"
  proof -
    have "count (mset xs) x = 0" using x that by linarith
    then show ?thesis by simp
  qed
  have "fold kahn_successor (x # xs) (deg, q) = (deg', q @ ?zs)"
    using step rest(1) by (cases "?d1 = 0") simp_all
  moreover have "degree deg' m = degree deg m - count (mset (x # xs)) m" for m
    using rest(2) by (simp add: deg1)
  moreover have "distinct ?zs" using rest(3,4) gone by auto
  moreover have "set ?zs = {m \<in> set (x # xs). degree deg m = count (mset (x # xs)) m}"
  proof -
    have "m \<in> set ?zs \<longleftrightarrow> m \<in> set (x # xs) \<and> degree deg m = count (mset (x # xs)) m" for m
    proof (cases "m = x")
      case True
      have "x \<in> set xs \<or> count (mset xs) x = 0" by simp
      with True x gone show ?thesis by (auto simp: rest(4) deg1)
    qed (auto simp: rest(4) deg1)
    then show ?thesis by blast
  qed
  ultimately show ?case by blast
qed simp

lemma entering_insert:
  "n \<notin> R \<Longrightarrow> entering es R v = entering es (insert n R) v + count (mset (successors es n)) v"
  by (induction es) (auto simp: entering_def successors_def)

lemma entering_0: "entering es R v = 0 \<longleftrightarrow> (\<forall>a. (a, v) \<in> set es \<longrightarrow> a \<in> R)"
  by (auto simp: entering_def filter_empty_conv)

lemma successors_iff: "v \<in> set (successors es n) \<longleftrightarrow> (n, v) \<in> set es"
  by (force simp: successors_def)

text \<open>
  The nodes \<open>R\<close> removed so far: their predecessors are removed too and none is on a cycle; the queue has
  the other nodes that no edge from outside \<open>R\<close> enters.
\<close>

definition kahn_inv :: "(u64 \<times> u64) list \<Rightarrow> (u64, nat) hash_map \<Rightarrow> u64 list \<Rightarrow> u64 set \<Rightarrow> bool" where
  "kahn_inv es deg queue R \<longleftrightarrow> R \<subseteq> node_set es \<and> distinct queue
     \<and> set queue = {v \<in> node_set es - R. entering es R v = 0}
     \<and> (\<forall>v. degree deg v = entering es R v)
     \<and> (\<forall>v \<in> R. \<forall>a. (a, v) \<in> set es \<longrightarrow> a \<in> R)
     \<and> (\<forall>v \<in> R. (v, v) \<notin> (set es)\<^sup>+)"

lemma kahn_invD:
  assumes "kahn_inv es deg queue R"
  shows "R \<subseteq> node_set es" and "distinct queue" and "set queue = {v \<in> node_set es - R. entering es R v = 0}"
    and "degree deg v = entering es R v" and "v \<in> R \<Longrightarrow> (a, v) \<in> set es \<Longrightarrow> a \<in> R"
    and "v \<in> R \<Longrightarrow> (v, v) \<notin> (set es)\<^sup>+"
  using assms by (auto simp: kahn_inv_def)

lemma kahn_pop:
  assumes inv: "kahn_inv es deg (n # rest) R" and noloop: "\<And>a. (a, a) \<notin> set es"
  shows "n \<in> node_set es - R"
    and "\<exists>deg1 queue1. fold kahn_successor (successors es n) (deg, rest) = (deg1, queue1)
      \<and> kahn_inv es deg1 queue1 (insert n R)"
proof -
  note I = kahn_invD [OF inv]
  have n: "n \<in> node_set es" "n \<notin> R" "entering es R n = 0" "n \<notin> set rest" using I(2,3) by auto
  then show "n \<in> node_set es - R" by blast
  note ins = entering_insert [OF n(2), of es]
  have "count (mset (successors es n)) m \<le> degree deg m" for m using I(4) [of m] ins [of m] by simp
  from kahn_successors [OF this, of rest] obtain deg1 zs where
    run: "fold kahn_successor (successors es n) (deg, rest) = (deg1, rest @ zs)"
    and deg1: "\<forall>m. degree deg1 m = degree deg m - count (mset (successors es n)) m" and zs: "distinct zs"
      "set zs = {m \<in> set (successors es n). degree deg m = count (mset (successors es n)) m}"
    by blast
  have zs_iff: "m \<in> set zs \<longleftrightarrow> (n, m) \<in> set es \<and> entering es (insert n R) m = 0" for m
    using I(4) [of m] ins [of m] by (simp add: zs(2) successors_iff)
  have fresh: "entering es R m \<noteq> 0" if "(n, m) \<in> set es" for m
    using that n(2) by (auto simp: entering_0)
  have "(n, n) \<notin> (set es)\<^sup>+"
  proof
    assume "(n, n) \<in> (set es)\<^sup>+"
    then obtain p where p: "(n, p) \<in> (set es)\<^sup>*" "(p, n) \<in> set es" by (auto dest: tranclD2)
    then have "p \<in> R" using n(3) by (simp add: entering_0)
    moreover have "(p, p) \<in> (set es)\<^sup>+" using p by (rule rtrancl_into_trancl2 [rotated])
    ultimately show False using I(6) by blast
  qed
  moreover have "set (rest @ zs) = {v \<in> node_set es - insert n R. entering es (insert n R) v = 0}"
  proof -
    have q: "v \<in> set rest \<longleftrightarrow> v \<noteq> n \<and> v \<in> node_set es - R \<and> entering es R v = 0" for v
      using I(2,3) by auto
    have "v \<in> set (rest @ zs) \<longleftrightarrow> v \<in> node_set es - insert n R \<and> entering es (insert n R) v = 0" for v
    proof (cases "(n, v) \<in> set es")
      case True
      then have "v \<noteq> n" "v \<notin> R" "v \<in> node_set es"
        using noloop I(5) n(2) by (auto simp: node_set_def intro: rev_image_eqI)
      with True fresh [OF True] show ?thesis by (auto simp: q zs_iff)
    next
      case False
      then have "count (mset (successors es n)) v = 0" by (simp add: successors_iff)
      then have "entering es (insert n R) v = entering es R v" using ins [of v] by linarith
      with False show ?thesis by (auto simp: q zs_iff)
    qed
    then show ?thesis by blast
  qed
  moreover have "distinct (rest @ zs)"
  proof -
    have "v \<notin> set zs" if "v \<in> set rest" for v
    proof -
      have "v \<in> set (n # rest)" using that by simp
      then have "entering es R v = 0" using I(3) by blast
      then show ?thesis using fresh [of v] by (auto simp: zs_iff)
    qed
    with I(2) zs(1) show ?thesis by auto
  qed
  moreover have "degree deg1 v = entering es (insert n R) v" for v using deg1 I(4) ins [of v] by simp
  moreover have "a \<in> insert n R" if "v \<in> insert n R" "(a, v) \<in> set es" for v a
    using that n(3) I(5) by (auto simp: entering_0)
  ultimately have "kahn_inv es deg1 (rest @ zs) (insert n R)"
    using I(1,6) n(1) unfolding kahn_inv_def by blast
  with run show "\<exists>deg1 queue1. fold kahn_successor (successors es n) (deg, rest) = (deg1, queue1)
      \<and> kahn_inv es deg1 queue1 (insert n R)" by blast
qed

lemma finite_node_set [simp]: "finite (node_set es)"
  by (simp add: node_set_def)

lemma kahn_loop_returns:
  assumes "kahn_inv es deg queue R" and "\<And>a. (a, a) \<notin> set es" and "\<And>n. vec_at adjs n = successors es n"
  shows "\<exists>deg' R'. kahn_loop adjs deg queue (card R) = Some (card R') \<and> kahn_inv es deg' [] R'"
  using assms(1)
proof (induction "card (node_set es - R)" arbitrary: deg queue R rule: less_induct)
  case less
  show ?case
  proof (cases queue)
    case Nil
    with less.prems show ?thesis by auto
  next
    case (Cons n rest)
    note pop = kahn_pop [OF less.prems [unfolded Cons] assms(2)]
    from pop(2) obtain deg1 queue1 where
      step: "fold kahn_successor (successors es n) (deg, rest) = (deg1, queue1)" "kahn_inv es deg1 queue1 (insert n R)"
      by blast
    have "card (node_set es - insert n R) < card (node_set es - R)"
      using pop(1) by (intro psubset_card_mono) auto
    from less.hyps [OF this step(2)] obtain deg' R' where
      R': "kahn_loop adjs deg1 queue1 (card (insert n R)) = Some (card R')" "kahn_inv es deg' [] R'"
      by blast
    have "finite R" using kahn_invD(1) [OF less.prems] by (rule finite_subset) simp
    then have "card (insert n R) = card R + 1" using pop(1) by simp
    then have "kahn_loop adjs deg queue (card R) = Some (card R')"
      using R'(1) by (simp add: Cons kahn_loop_Cons assms(3) step(1))
    with R'(2) show ?thesis by blast
  qed
qed

text \<open>When the queue is empty, everything is removed exactly if there is no cycle.\<close>

lemma kahn_end:
  assumes inv: "kahn_inv es deg [] R"
  shows "card R = card (node_set es) \<longleftrightarrow> acyclic (set es)"
proof -
  note I = kahn_invD [OF inv]
  have "R = node_set es" if acy: "acyclic (set es)"
  proof (rule ccontr)
    assume "R \<noteq> node_set es"
    then obtain x where "x \<in> node_set es - R" using I(1) by blast
    moreover have "wf (set es)" using acy by (simp add: finite_acyclic_wf)
    ultimately obtain z where z: "z \<in> node_set es - R" "\<And>y. (y, z) \<in> set es \<Longrightarrow> y \<notin> node_set es - R"
      by (meson wfE_min)
    then have "entering es R z \<noteq> 0" using I(3) by auto
    then obtain a where "(a, z) \<in> set es" "a \<notin> R" by (auto simp: entering_0)
    then show False using z(2) by (force simp: node_set_def)
  qed
  moreover have "acyclic (set es)" if all: "R = node_set es"
    unfolding acyclic_def
  proof (intro allI notI)
    fix x assume x: "(x, x) \<in> (set es)\<^sup>+"
    then obtain y where "(x, y) \<in> set es" by (blast dest: tranclD)
    then have "x \<in> R" by (force simp: all node_set_def)
    with x I(6) show False by blast
  qed
  moreover have "card R = card (node_set es) \<Longrightarrow> R = node_set es"
    using I(1) by (simp add: card_subset_eq)
  ultimately show ?thesis by blast
qed

section \<open>The property test\<close>

lemma proper_irrefl: "(a, a) \<notin> set (proper es)"
  by (simp add: proper_def)

lemma has_cycle_acyclic:
  assumes ord: "key_order ord"
  shows "has_cycle ord es = Some (\<not> acyclic (set (proper es)))"
proof -
  let ?g = "kahn_graph es" and ?es = "proper es"
  let ?queue = "filter (\<lambda>n. degree (indeg ?g) n = 0) (ord (nodes ?g))"
  have "kahn_inv ?es (indeg ?g) ?queue {}"
    using key_orderD [OF ord, of "node_set ?es"] by (auto simp: kahn_inv_def kahn_graph_views)
  then obtain deg' R' where "kahn_loop (adj ?g) (indeg ?g) ?queue (card ({} :: u64 set)) = Some (card R')"
      "kahn_inv ?es deg' [] R'"
    using kahn_loop_returns [where adjs = "adj ?g"] proper_irrefl kahn_graph_views(2) by metis
  with kahn_end show ?thesis by (simp add: has_cycle_def Let_def kahn_graph_views)
qed

text \<open>The graph that the test builds with \<open>add_wait\<close>.\<close>

definition graph_of_edges :: "(u64 \<times> u64) list \<Rightarrow> WaitForGraph" where
  "graph_of_edges es = foldl (\<lambda>g (a, b). add_wait g (TxnId_new a) (TxnId_new b)) WaitForGraph_new es"

lemma graph_of_edges_neighbors:
  "b \<in> set (neighbors (graph_of_edges es) a) \<longleftrightarrow> (TxnId_get a, TxnId_get b) \<in> set (proper es)"
proof -
  have "b \<in> set (neighbors (foldl (\<lambda>g (a, b). add_wait g (TxnId_new a) (TxnId_new b)) g es) a) \<longleftrightarrow>
      b \<in> set (neighbors g a) \<or> (TxnId_get a, TxnId_get b) \<in> set (proper es)" for g
  proof (induction es arbitrary: g)
    case (Cons e es)
    obtain x y where e: "e = (x, y)" by fastforce
    have "b \<in> set (neighbors (add_wait g (TxnId_new x) (TxnId_new y)) a) \<longleftrightarrow>
        b \<in> set (neighbors g a) \<or> x \<noteq> y \<and> TxnId_get a = x \<and> TxnId_get b = y"
      by (cases a; cases b) (auto simp: neighbors_add_wait TxnId_new_def TxnId_get_def)
    with Cons.IH [of "add_wait g (TxnId_new x) (TxnId_new y)"] show ?case
      by (auto simp: e proper_def)
  qed (simp add: proper_def)
  then show ?thesis by (simp add: graph_of_edges_def)
qed

lemma graph_of_edges_acyclic:
  "acyclic (edge_rel (neighbors (graph_of_edges es))) \<longleftrightarrow> acyclic (set (proper es))"
proof -
  let ?r = "edge_rel (neighbors (graph_of_edges es))"
  have edge: "(a, b) \<in> ?r \<longleftrightarrow> (TxnId_get a, TxnId_get b) \<in> set (proper es)" for a b
    by (simp add: edge_rel_def graph_of_edges_neighbors)
  have lifted: "(x, y) \<in> set (proper es) \<longleftrightarrow> (TxnId x, TxnId y) \<in> ?r" for x y
    unfolding edge by (simp add: TxnId_get_def)
  have "(a, b) \<in> ?r\<^sup>+ \<Longrightarrow> (TxnId_get a, TxnId_get b) \<in> (set (proper es))\<^sup>+" for a b
    by (induction rule: trancl_induct) (metis edge r_into_trancl, metis edge trancl_into_trancl)
  moreover have "(x, y) \<in> (set (proper es))\<^sup>+ \<Longrightarrow> (TxnId x, TxnId y) \<in> ?r\<^sup>+" for x y
    by (induction rule: trancl_induct) (metis lifted r_into_trancl, metis lifted trancl_into_trancl)
  ultimately show ?thesis unfolding acyclic_def by blast
qed

text \<open>
  C32: The property test \<open>wait_for_graph_detects_cycles_exactly\<close> holds for every list of edges, self-edges
  and repeated edges included, and for every order in which the maps yield their keys: Kahn's algorithm
  returns, \<open>detect_cycle\<close> on the graph of the edges finds a cycle exactly when Kahn's algorithm leaves
  nodes over, and every step of the cycle is one of the edges.
\<close>

theorem detection_matches_kahn:
  assumes "key_order ord" and "key_order ord'"
  shows "has_cycle ord es = Some (detect_cycle ord' (graph_of_edges es) \<noteq> None)
    \<and> (\<forall>c. detect_cycle ord' (graph_of_edges es) = Some c \<longrightarrow> c \<noteq> []
        \<and> (\<forall>i < length c. (TxnId_get (c ! i), TxnId_get (c ! (Suc i mod length c))) \<in> set (proper es)))"
proof -
  have "detect_cycle ord' (graph_of_edges es) = None \<longleftrightarrow> acyclic (set (proper es))"
    using detect_cycle_None_iff [OF assms(2)] graph_of_edges_acyclic by blast
  moreover have "cycle_in (neighbors (graph_of_edges es)) c" if "detect_cycle ord' (graph_of_edges es) = Some c" for c
    using detect_cycle_Some that by blast
  ultimately show ?thesis
    using has_cycle_acyclic [OF assms(1)] by (auto simp: cycle_in_def graph_of_edges_neighbors)
qed

theorem detection_matches_kahn_witness:
  "has_cycle (sorted_list_of_set :: u64 set \<Rightarrow> u64 list) [(0, 1), (1, 1), (1, 2), (1, 2), (2, 3), (3, 1)] = Some True
    \<and> detect_cycle sorted_list_of_set (graph_of_edges [(0, 1), (1, 1), (1, 2), (1, 2), (2, 3), (3, 1)]) \<noteq> None"
proof -
  let ?es = "[(0, 1), (1, 1), (1, 2), (1, 2), (2, 3), (3, 1)]"
  have "detect_cycle sorted_list_of_set (graph_of_edges ?es) \<noteq> None" by code_simp
  with detection_matches_kahn [OF key_order_sorted key_order_sorted, of ?es] show ?thesis by simp
qed

end
