(* ===== verification/Ref_Checks.thy ===== *)
theory Ref_Checks
  imports Ref_Model
begin

text \<open>
  The other checks of the property tests: the property \<open>release_all_matches_model\<close>, and the two
  assertions on the reference models that every test makes after every operation, which hold after
  every sequence of operations because the manager the models agree with is free of conflicts.
\<close>

section \<open>Releasing everything, against the model\<close>

text \<open>The loop of the test: an operation runs on the manager when the model says that it succeeds.\<close>

definition mirrored_step ::
  "((u64 \<times> u64) set \<Rightarrow> (u64 \<times> u64) list) \<Rightarrow> LockManager \<times> Model \<Rightarrow> Op \<Rightarrow> (LockManager \<times> Model) option"
where
  "mirrored_step ord = (\<lambda>(mg, m) op.
     case model_step ord m op of
       (Inr _, m1) \<Rightarrow> map_option (\<lambda>(_, mg1). (mg1, m1)) (manager_step mg op)
     | (Inl _, m1) \<Rightarrow> Some (mg, m1))"

primrec mirrored_run ::
  "((u64 \<times> u64) set \<Rightarrow> (u64 \<times> u64) list) \<Rightarrow> LockManager \<times> Model \<Rightarrow> Op list \<Rightarrow> (LockManager \<times> Model) option"
where
  "mirrored_run ord st [] = Some st"
| "mirrored_run ord st (op # ops) = Option.bind (mirrored_step ord st op) (\<lambda>st1. mirrored_run ord st1 ops)"

definition mirrored :: "((u64 \<times> u64) set \<Rightarrow> (u64 \<times> u64) list) \<Rightarrow> LockManager \<Rightarrow> Model \<Rightarrow> bool" where
  "mirrored ord mg m \<longleftrightarrow> point_rel ord mg m \<and> (\<forall>s. range_holders mg s = [])"

lemma model_step_refused: "model_step ord m op = (Err e, m1) \<Longrightarrow> m1 = m"
  by (cases op) (auto simp: apply_acquire_def apply_release_def Let_def split: option.splits if_splits)

lemma manager_step_ranges:
  assumes "manager_inv mg" and "manager_step mg op = Some (x, mg')"
  shows "range_holders mg' = range_holders mg"
proof (cases op)
  case (Acquire t r m)
  with assms try_acquire_effect [OF assms(1), of "TxnId_new t" "ResourceId_new r" m] show ?thesis by auto
next
  case (Release t r)
  with assms release_effect [OF assms(1), of "TxnId_new t" "ResourceId_new r"] show ?thesis by auto
qed

lemma mirrored_step_keeps:
  assumes "mirrored ord mg m"
  shows "\<exists>mg' m'. mirrored_step ord (mg, m) op = Some (mg', m') \<and> mirrored ord mg' m'"
proof -
  obtain x m1 where model: "model_step ord m op = (x, m1)" by fastforce
  have rel: "point_rel ord mg m" and inv: "manager_inv mg" using assms by (auto simp: mirrored_def point_rel_def)
  show ?thesis
  proof (cases x)
    case (Inl e)
    with model have "m1 = m" using model_step_refused by blast
    with model Inl assms show ?thesis by (simp add: mirrored_step_def)
  next
    case (Inr u)
    from point.step_simulates [OF rel, of op] obtain mg' where
      mg': "manager_step mg op = Some (x, mg')" "point_rel ord mg' m1" by (auto simp: model)
    with manager_step_ranges [OF inv mg'(1)] assms Inr model show ?thesis
      by (auto simp: mirrored_step_def mirrored_def)
  qed
qed

lemma mirrored_run_keeps:
  "mirrored ord mg m \<Longrightarrow> \<exists>mg' m'. mirrored_run ord (mg, m) ops = Some (mg', m') \<and> mirrored ord mg' m'"
proof (induction ops arbitrary: mg m)
  case (Cons op ops)
  from mirrored_step_keeps [OF Cons.prems, of op] obtain mg1 m1
    where step: "mirrored_step ord (mg, m) op = Some (mg1, m1)" "mirrored ord mg1 m1" by blast
  from Cons.IH [OF step(2)] step(1) show ?case by auto
qed simp

lemma model_locks_of:
  assumes ord: "key_order ord"
  shows "length (filter (\<lambda>(t, r). t = victim) (ord (fmdom' (held m)))) = card {r. fmlookup (held m) (victim, r) \<noteq> None}"
proof -
  let ?ks = "filter (\<lambda>(t, r). t = victim) (ord (fmdom' (held m)))"
  have "distinct ?ks" using key_orderD [OF ord finite_fmdom'] by (blast intro: distinct_filter)
  then have "length ?ks = card (set ?ks)" by (rule distinct_card [symmetric])
  also have "set ?ks = (\<lambda>r. (victim, r)) ` {r. fmlookup (held m) (victim, r) \<noteq> None}"
    using ord by (force simp: fmlookup_dom'_iff)
  also have "card \<dots> = card {r. fmlookup (held m) (victim, r) \<noteq> None}"
    by (intro card_image inj_onI) simp
  finally show ?thesis .
qed

text \<open>
  The property test \<open>release_all_matches_model\<close> holds for every sequence of operations, every victim
  and every shard count: \<open>release_all\<close> answers the number of locks that the model has for the victim,
  afterwards the victim holds nothing, and every other transaction holds what the model says.
\<close>

theorem release_all_matches_model:
  assumes "with_shards oc alloc n = Some mg" and "shard_count mg \<noteq> 0" and "key_order ord"
  shows "\<exists>mg1 m released mg2. mirrored_run ord (mg, Model_default) ops = Some (mg1, m)
    \<and> release_all mg1 (TxnId_new victim) = (released, mg2)
    \<and> released = length (filter (\<lambda>(t, r). t = victim) (ord (fmdom' (held m))))
    \<and> (\<forall>r. mode_held mg2 (TxnId_new victim) (ResourceId_new r) = Some None)
    \<and> (\<forall>t r. t \<noteq> victim \<longrightarrow>
         mode_held mg2 (TxnId_new t) (ResourceId_new r) = Some (fmlookup (held m) (t, r)))"
proof -
  have "mirrored ord mg Model_default"
    using point_rel_start [OF assms] with_shards_inv(4) [OF assms(1)] assms(2)
    by (auto simp: mirrored_def shard_count_def)
  from mirrored_run_keeps [OF this, of ops] obtain mg1 m
    where run: "mirrored_run ord (mg, Model_default) ops = Some (mg1, m)" and mir: "mirrored ord mg1 m" by blast
  have inv: "manager_inv mg1" and look: "fmlookup (held m) (t, r) = holds mg1 (TxnId t) (ResourceId r)"
    and none: "range_holders mg1 s = []" for t r s
    using mir by (auto simp: mirrored_def point_rel_def)
  obtain mg2 where mg2: "release_all mg1 (TxnId victim) = (lock_total mg1 (TxnId victim), mg2)" "manager_inv mg2"
      "holds mg2 = (holds mg1)(TxnId victim := (\<lambda>r. None))"
    using release_all_effect [OF inv] by blast
  have "{r. holds mg1 (TxnId victim) r \<noteq> None} = ResourceId ` {r. fmlookup (held m) (victim, r) \<noteq> None}"
    by (auto simp: look image_iff) (metis ResourceId.exhaust)
  then have "lock_total mg1 (TxnId victim) = card {r. fmlookup (held m) (victim, r) \<noteq> None}"
    by (simp add: lock_total_def none card_image inj_on_def)
  with run mg2 look model_locks_of [OF assms(3), of victim m] show ?thesis
    by (simp add: mode_held_eq TxnId_new_def ResourceId_new_def)
qed

theorem release_all_matches_model_witness:
  "\<exists>mg mg1 m mg2. with_shards True (\<lambda>_. True) 3 = Some mg
    \<and> mirrored_run sorted_list_of_set (mg, Model_default)
        [Acquire 1 7 Shared, Acquire 2 7 Shared, Acquire 1 7 Exclusive, Acquire 1 8 Exclusive, Release 3 7]
      = Some (mg1, m)
    \<and> release_all mg1 (TxnId_new 1) = (2, mg2)
    \<and> mode_held mg2 (TxnId_new 2) (ResourceId_new 7) = Some (Some Shared)"
proof -
  let ?ops = "[Acquire 1 7 Shared, Acquire 2 7 Shared, Acquire 1 7 Exclusive, Acquire 1 8 Exclusive, Release 3 7]"
  define view where "view = (\<lambda>(mg1 :: LockManager, m :: Model).
    (length (filter (\<lambda>(t :: u64, r :: u64). t = 1) (sorted_list_of_set (fmdom' (held m)))), fmlookup (held m) (2, 7)))"
  have "map_option view (Option.bind (with_shards True (\<lambda>_. True) 3)
      (\<lambda>mg. mirrored_run sorted_list_of_set (mg, Model_default) ?ops)) = Some (2, Some Shared)"
    unfolding view_def by code_simp
  moreover obtain mg where mg: "with_shards True (\<lambda>_. True) 3 = Some mg" "shard_count mg = 4" using four_shards by blast
  ultimately obtain mg1 m where run: "mirrored_run sorted_list_of_set (mg, Model_default) ?ops = Some (mg1, m)"
      and view: "view (mg1, m) = (2, Some Shared)" by auto
  have "shard_count mg \<noteq> 0" using mg(2) by simp
  from release_all_matches_model [OF mg(1) this key_order_sorted, of ?ops 1] obtain mg2 where
    "release_all mg1 (TxnId_new 1) = (length (filter (\<lambda>(t, r). t = 1) (sorted_list_of_set (fmdom' (held m)))), mg2)"
    "\<forall>t r. t \<noteq> 1 \<longrightarrow> mode_held mg2 (TxnId_new t) (ResourceId_new r) = Some (fmlookup (held m) (t, r))"
    unfolding run by blast
  with view mg(1) run show ?thesis unfolding view_def by (intro exI conjI) (assumption | simp)+
qed

section \<open>The assertions on the models\<close>

text \<open>The modes of every resource are collected, and every pair of them must be compatible.\<close>

definition pairwise_list :: "('a \<Rightarrow> 'a \<Rightarrow> bool) \<Rightarrow> 'a list \<Rightarrow> bool" where
  "pairwise_list P xs \<longleftrightarrow> list_all (\<lambda>i. list_all (\<lambda>j. P (xs ! i) (xs ! j)) [i + 1..<length xs]) [0..<length xs]"

definition modes_by_res ::
  "((u64 \<times> u64) set \<Rightarrow> (u64 \<times> u64) list) \<Rightarrow> Model \<Rightarrow> (u64, LockMode list) hash_map"
where
  "modes_by_res ord m =
     fold (\<lambda>(t, res). entry_push res (the (fmlookup (held m) (t, res)))) (ord (fmdom' (held m))) fmempty"

definition assert_internally_consistent ::
  "((u64 \<times> u64) set \<Rightarrow> (u64 \<times> u64) list) \<Rightarrow> Model \<Rightarrow> bool"
where
  "assert_internally_consistent ord m \<longleftrightarrow>
     fBall (fmran (modes_by_res ord m)) (pairwise_list compatible_with)"

definition assert_no_incompatible_overlap :: "RangeModel \<Rightarrow> bool" where
  "assert_no_incompatible_overlap m \<longleftrightarrow>
     fBall (fmran (spaces m)) (pairwise_list (\<lambda>(ti, ri, mi) (tj, rj, mj).
       ti \<noteq> tj \<and> overlaps ri rj \<longrightarrow> compatible_with mi mj))"

lemma pairwise_list_iff: "pairwise_list P xs \<longleftrightarrow> (\<forall>j < length xs. \<forall>i < j. P (xs ! i) (xs ! j))"
  by (auto simp: pairwise_list_def list_all_iff Suc_le_eq)

lemma modes_by_res_lookup:
  "vec_at (modes_by_res ord m) res =
     map (\<lambda>k. the (fmlookup (held m) k)) (filter (\<lambda>(t, r). r = res) (ord (fmdom' (held m))))"
proof -
  have "vec_at (fold (\<lambda>(t, res). entry_push res (the (fmlookup (held m) (t, res)))) ks mp) res =
      vec_at mp res @ map (\<lambda>k. the (fmlookup (held m) k)) (filter (\<lambda>(t, r). r = res) ks)" for ks mp
    by (induction ks arbitrary: mp) (auto simp: map_simps)
  then show ?thesis by (simp add: modes_by_res_def map_simps)
qed

lemma point_rel_consistent:
  assumes rel: "point_rel ord mg m"
  shows "assert_internally_consistent ord m"
proof -
  have ord: "key_order ord" and inv: "manager_inv mg"
    and look: "fmlookup (held m) (t, r) = holds mg (TxnId t) (ResourceId r)" for t r
    using rel by (auto simp: point_rel_def)
  note keys = key_orderD [OF ord, of "fmdom' (held m)"]
  have "pairwise_list compatible_with v" if v: "fmlookup (modes_by_res ord m) res = Some v" for res v
  proof -
    let ?ks = "filter (\<lambda>(t, r). r = res) (ord (fmdom' (held m)))"
    have vec: "v = map (\<lambda>k. the (fmlookup (held m) k)) ?ks"
      using v modes_by_res_lookup [of ord m res] by (simp add: get_map_or_def)
    have dist: "distinct ?ks" using keys by simp
    have "compatible_with (v ! i) (v ! j)" if ij: "i < j" "j < length v" for i j
    proof -
      have len: "i < length ?ks" "j < length ?ks" using ij vec by auto
      obtain t u where tu: "?ks ! i = (t, res)" "?ks ! j = (u, res)"
        using nth_mem [OF len(1)] nth_mem [OF len(2)] by auto
      have "t \<noteq> u" using dist len ij tu by (metis nat_neq_iff nth_eq_iff_index_eq)
      moreover have "(t, res) \<in> fmdom' (held m)" "(u, res) \<in> fmdom' (held m)"
        using nth_mem [OF len(1)] nth_mem [OF len(2)] keys tu by auto
      then obtain a b where "fmlookup (held m) (t, res) = Some a" "fmlookup (held m) (u, res) = Some b"
        by (auto simp: fmlookup_dom'_iff)
      moreover from this have "v ! i = a" "v ! j = b" using len tu by (simp_all add: vec)
      ultimately show ?thesis using holds_compatible [OF inv] by (auto simp: look)
    qed
    then show ?thesis by (simp add: pairwise_list_iff)
  qed
  then show ?thesis by (auto simp: assert_internally_consistent_def elim!: fmranE)
qed

lemma TxnId_TxnId_get [simp]: "TxnId (TxnId_get t) = t"
  by (cases t) (simp add: TxnId_get_def)

lemma range_rel_consistent:
  assumes rel: "range_rel mg m"
  shows "assert_no_incompatible_overlap m"
proof -
  have inv: "manager_inv mg" and vec: "vec_at (spaces m) s = map span_triple (range_holders mg (ResourceId s))" for s
    using rel by (auto simp: range_rel_def)
  have "pairwise_list (\<lambda>(ti, ri, mi) (tj, rj, mj). ti \<noteq> tj \<and> overlaps ri rj \<longrightarrow> compatible_with mi mj) v"
    if "fmlookup (spaces m) s = Some v" for s v
  proof -
    have v: "v = map span_triple (range_holders mg (ResourceId s))"
      using that vec [of s] by (simp add: get_map_or_def)
    show ?thesis
      using range_holders_compatible [OF inv nth_mem nth_mem, of _ "ResourceId s"]
      by (auto simp: pairwise_list_iff v span_triple_def)
  qed
  then show ?thesis by (auto simp: assert_no_incompatible_overlap_def elim!: fmranE)
qed

text \<open>The assertions hold after every sequence of operations.\<close>

theorem models_stay_consistent:
  assumes "key_order ord"
  shows "assert_internally_consistent ord (snd (run_model (model_step ord) Model_default ops))"
    and "assert_no_incompatible_overlap (snd (run_model range_model_step RangeModel_default rops))"
proof -
  obtain mg where mg: "with_shards True (\<lambda>_. True) 3 = Some mg" "shard_count mg \<noteq> 0"
    using four_shards by force
  show "assert_internally_consistent ord (snd (run_model (model_step ord) Model_default ops))"
    using point.run_simulates [OF point_rel_start [OF mg assms], of ops] point_rel_consistent by blast
  show "assert_no_incompatible_overlap (snd (run_model range_model_step RangeModel_default rops))"
    using range.run_simulates [OF range_rel_start [OF mg], of rops] range_rel_consistent by blast
qed

end
