(* ===== verification/Client_Programs.thy ===== *)
theory Client_Programs
  imports One_Table Hierarchy
begin

text \<open>
  Programs that use the lock manager: the examples of the repository (\<open>src/examples\<close>) as scripts.  A
  script calls an operation and goes on with its answer; a failed assertion, \<open>expect\<close>, \<open>unwrap\<close> or an
  explicit \<open>panic!\<close> is \<open>Panics\<close>.  What the examples print is left out.  A script runs alone
  (\<open>run_script\<close>) or as one of several threads (\<open>prog_step\<close>), which share the manager and one atomic
  counter that wraps around, as \<open>AtomicUsize\<close> does.
\<close>

section \<open>Scripts\<close>

datatype Script =
    End
  | Panics
  | Do Job "Reply \<Rightarrow> Script"
  | Fetch_Add "usize \<Rightarrow> Script"
  | Fetch_Sub Script

text \<open>An \<open>assert_eq!\<close>, or an \<open>expect\<close> or a \<open>match\<close> that panics on every other answer; and a call whose answer is not used.\<close>

definition expect :: "Job \<Rightarrow> Reply \<Rightarrow> Script \<Rightarrow> Script" where
  "expect j r k = Do j (\<lambda>x. if x = r then k else Panics)"

definition ignore :: "Call \<Rightarrow> Script \<Rightarrow> Script" where
  "ignore c k = Do (Change c) (\<lambda>x. k)"

abbreviation ok :: Reply where
  "ok \<equiv> Answer (Res (Ok ()))"

abbreviation refused :: Reply where
  "refused \<equiv> Answer (Res (Err Conflict))"

abbreviation unwrap :: "Call \<Rightarrow> Script \<Rightarrow> Script" where
  "unwrap c \<equiv> expect (Change c) ok"

text \<open>Alone.  The first component says whether the script came to its end without a panic.\<close>

primrec run_script ::
  "(TxnId set \<Rightarrow> TxnId list) \<Rightarrow> Script \<Rightarrow> LockManager \<times> usize \<Rightarrow> (LockManager \<times> usize) option"
where
  "run_script ord End st = Some st"
| "run_script ord Panics st = None"
| "run_script ord (Do j k) st =
     Option.bind (perform ord (fst st) j) (\<lambda>(r, mg). run_script ord (k r) (mg, snd st))"
| "run_script ord (Fetch_Add k) st = run_script ord (k (snd st)) (fst st, snd st + 1)"
| "run_script ord (Fetch_Sub k) st = run_script ord k (fst st, snd st - 1)"

section \<open>The examples that run alone\<close>

definition quick_start_main :: Script where
  "quick_start_main =
     (let row = ResourceId 1; writer = TxnId 1; reader = TxnId 2 in
      unwrap (Try_Acquire writer row Exclusive)
     (expect (Change (Try_Acquire reader row Shared)) refused
     (unwrap (Release_One writer row)
     (unwrap (Try_Acquire reader row Shared)
     (unwrap (Release_One reader row)
     (expect (Holder_Count row) (Number 0) End))))))"

definition deadlock_main :: Script where
  "deadlock_main =
     (let account_a = ResourceId 1; account_b = ResourceId 2; t1 = TxnId 1; t2 = TxnId 2 in
      expect (Change (Request t1 account_a Exclusive)) (Answer (Acq Granted))
     (expect (Change (Request t2 account_b Exclusive)) (Answer (Acq Granted))
     (expect (Change (Request t1 account_b Exclusive)) (Answer (Acq Waiting))
     (Do (Change (Request t2 account_a Exclusive)) (\<lambda>x.
        case x of
          Answer (Acq (Deadlock d)) \<Rightarrow>
            ignore (Release_All (dl_victim d))
           (let survivor = (if dl_victim d = t1 then t2 else t1);
                wanted = (if survivor = t1 then account_b else account_a)
            in expect (Change (Request survivor wanted Exclusive)) (Answer (Acq Granted))
              (expect Find_Deadlock (Found None) End))
        | _ \<Rightarrow> Panics)))))"

definition run_transaction :: "TxnId \<Rightarrow> (Reply \<Rightarrow> Script) \<Rightarrow> Script" where
  "run_transaction txn k =
     unwrap (Try_Acquire txn (ResourceId 10) Shared)
    (unwrap (Try_Acquire txn (ResourceId 11) Shared)
    (unwrap (Try_Acquire txn (ResourceId 12) Exclusive)
    (Do (Change (Release_All txn)) k)))"

definition two_phase_locking_main :: Script where
  "two_phase_locking_main =
     run_transaction (TxnId 1) (\<lambda>released.
       if released = Answer (Count 3)
       then foldr (\<lambda>i k. expect (Holder_Count (ResourceId i)) (Number 0)
                          (unwrap (Try_Acquire (TxnId 2) (ResourceId i) Exclusive) k))
              [10, 11, 12] End
       else Panics)"

definition range_locks_main :: Script where
  "range_locks_main =
     (let index = ResourceId 1; reader = TxnId 1; reader2 = TxnId 2; writer = TxnId 3 in
      case KeyRange_new 100 200 of
        None \<Rightarrow> Panics
      | Some scanned \<Rightarrow>
          unwrap (Try_Acquire_Range reader index scanned Shared)
         (case KeyRange_new 150 250 of
            None \<Rightarrow> Panics
          | Some second \<Rightarrow>
              unwrap (Try_Acquire_Range reader2 index second Shared)
             (expect (Change (Try_Acquire_Range writer index (KeyRange_point 150) Exclusive)) refused
             (unwrap (Try_Acquire_Range writer index (KeyRange_point 500) Exclusive)
             (ignore (Release_All reader)
             (ignore (Release_All reader2)
             (unwrap (Try_Acquire_Range writer index (KeyRange_point 150) Exclusive)
             (ignore (Release_All writer) End))))))))"

definition shared_upgrade_main :: Script where
  "shared_upgrade_main =
     (let row = ResourceId 1; me = TxnId 1; other = TxnId 2 in
      unwrap (Try_Acquire me row Shared)
     (unwrap (Try_Acquire me row Exclusive)
     (expect (Mode_Held me row) (Mode_Is (Some Exclusive))
     (unwrap (Release_One me row)
     (unwrap (Try_Acquire me row Shared)
     (unwrap (Try_Acquire other row Shared)
     (expect (Change (Try_Acquire me row Exclusive)) refused
     (expect (Mode_Held me row) (Mode_Is (Some Shared))
     (ignore (Release_All me)
     (ignore (Release_All other) End))))))))))"

definition hierarchy_main :: Script where
  "hierarchy_main =
     (let writer = TxnId 1; reader = TxnId 2 in
      foldr (\<lambda>node. unwrap (Try_Acquire writer node IntentionExclusive)) [DB, TABLE, PAGE]
     (unwrap (Try_Acquire writer ROW Exclusive)
     (foldr (\<lambda>node. unwrap (Try_Acquire reader node IntentionShared)) [DB, TABLE, PAGE]
     (expect (Change (Try_Acquire reader ROW Shared)) refused
     (ignore (Release_All writer)
     (ignore (Release_All reader)
     (unwrap (Try_Acquire reader ROW Shared)
     (ignore (Release_All reader) End))))))))"

text \<open>
  A script sees the manager through its answers only, so it runs alike on all shard counts.  Ranges
  are to be taken in one mode each, as in \<open>One_Table\<close>.
\<close>

primrec script_keeps :: "range_modes \<Rightarrow> Script \<Rightarrow> bool" where
  "script_keeps mode_of End \<longleftrightarrow> True"
| "script_keeps mode_of Panics \<longleftrightarrow> True"
| "script_keeps mode_of (Do j k) \<longleftrightarrow> keeps_modes mode_of j \<and> (\<forall>x. script_keeps mode_of (k x))"
| "script_keeps mode_of (Fetch_Add k) \<longleftrightarrow> (\<forall>x. script_keeps mode_of (k x))"
| "script_keeps mode_of (Fetch_Sub k) \<longleftrightarrow> script_keeps mode_of k"

lemma script_keeps_expect [simp]:
  "script_keeps mode_of (expect j r k) \<longleftrightarrow> keeps_modes mode_of j \<and> script_keeps mode_of k"
  "script_keeps mode_of (ignore c k) \<longleftrightarrow> keeps_modes mode_of (Change c) \<and> script_keeps mode_of k"
  by (auto simp: expect_def ignore_def)

definition succeeds :: "(TxnId set \<Rightarrow> TxnId list) \<Rightarrow> Script \<Rightarrow> LockManager \<Rightarrow> bool" where
  "succeeds ord c mg \<longleftrightarrow> (case run_script ord c (mg, 0) of Some _ \<Rightarrow> True | None \<Rightarrow> False)"

lemma run_script_alike:
  assumes "shows_table mode_of a tb" and "shows_table mode_of b tb" and "key_order ord" and "script_keeps mode_of c"
  shows "run_script ord c (a, n) = None \<longleftrightarrow> run_script ord c (b, n) = None"
  using assms(1,2,4)
proof (induction c arbitrary: a b tb n)
  case (Do j k)
  obtain r tb' where step: "table_step ord mode_of tb j = (r, tb')" by fastforce
  from table_step_simulated [OF Do.prems(1) assms(3), of j] Do.prems(3) step obtain a'
    where a': "perform ord a j = Some (r, a')" "shows_table mode_of a' tb'" by auto
  from table_step_simulated [OF Do.prems(2) assms(3), of j] Do.prems(3) step obtain b'
    where b': "perform ord b j = Some (r, b')" "shows_table mode_of b' tb'" by auto
  from Do.IH [OF rangeI a'(2) b'(2), of r n] Do.prems(3) a'(1) b'(1) show ?case by simp
next
  case (Fetch_Add k)
  from Fetch_Add.IH [OF rangeI Fetch_Add.prems(1,2), of n "n + 1"] Fetch_Add.prems(3) show ?case by simp
next
  case (Fetch_Sub k)
  from Fetch_Sub.IH [OF Fetch_Sub.prems(1,2)] Fetch_Sub.prems(3) show ?case by simp
qed simp_all

text \<open>
  Nor does it see the iteration order of the map of waits, if it does not look at which deadlock
  \<open>find_deadlock\<close> reports, only at whether it reports one.
\<close>

primrec order_blind :: "Script \<Rightarrow> bool" where
  "order_blind End \<longleftrightarrow> True"
| "order_blind Panics \<longleftrightarrow> True"
| "order_blind (Do j k) \<longleftrightarrow>
     (j = Find_Deadlock \<longrightarrow> (\<forall>d d'. k (Found (Some d)) = k (Found (Some d')))) \<and> (\<forall>x. order_blind (k x))"
| "order_blind (Fetch_Add k) \<longleftrightarrow> (\<forall>x. order_blind (k x))"
| "order_blind (Fetch_Sub k) \<longleftrightarrow> order_blind k"

lemma order_blind_expect [simp]:
  "order_blind (expect (Change c) r k) \<longleftrightarrow> order_blind k" "order_blind (ignore c k) \<longleftrightarrow> order_blind k"
  "order_blind (expect (Holder_Count s) r k) \<longleftrightarrow> order_blind k" "order_blind (expect (Mode_Held t s) r k) \<longleftrightarrow> order_blind k"
  "order_blind (expect (Range_Count s) r k) \<longleftrightarrow> order_blind k" "order_blind (expect Waiting_Count r k) \<longleftrightarrow> order_blind k"
  "order_blind (expect Find_Deadlock (Found None) k) \<longleftrightarrow> order_blind k"
  by (auto simp: expect_def ignore_def)

lemma perform_keeps_inv:
  assumes "manager_inv mg" and "key_order ord" and "perform ord mg j = Some (r, mg')"
  shows "manager_inv mg'"
proof (cases j)
  case (Change c)
  with assms(3) have "after ord mg c = mg'" by (auto simp: after_def)
  with after_inv [OF assms(1,2)] show ?thesis by metis
qed (use assms in auto)

lemma perform_order:
  assumes "manager_inv mg" and "key_order ord1" and "key_order ord2"
  shows "perform ord1 mg j = perform ord2 mg j
    \<or> j = Find_Deadlock \<and> (\<exists>d1 d2. perform ord1 mg j = Some (Found (Some d1), mg) \<and> perform ord2 mg j = Some (Found (Some d2), mg))"
proof (cases j)
  case (Change c)
  then show ?thesis using request_order [OF assms] by (cases c) simp_all
next
  case Find_Deadlock
  with find_deadlock_eq [OF assms(1,2)] find_deadlock_eq [OF assms(1,3)] deadlock_cycle_not_acyclic [OF assms(1)]
  show ?thesis by auto
qed simp_all

lemma run_script_orders:
  assumes "manager_inv mg" and ord: "key_order ord1" "key_order ord2" and "order_blind c"
  shows "run_script ord1 c (mg, n) = None \<longleftrightarrow> run_script ord2 c (mg, n) = None"
  using assms(1,4)
proof (induction c arbitrary: mg n)
  case (Do j k)
  from perform_order [OF Do.prems(1) ord, of j] show ?case
  proof (elim disjE conjE exE)
    assume same: "perform ord1 mg j = perform ord2 mg j"
    show ?thesis
    proof (cases "perform ord2 mg j")
      case (Some x)
      obtain r mg' where x: "x = (r, mg')" by fastforce
      have "manager_inv mg'" using perform_keeps_inv [OF Do.prems(1) ord(2)] Some x by blast
      from Do.IH [OF rangeI this] Do.prems(2) show ?thesis by (simp add: same Some x)
    qed (simp add: same)
  next
    fix d1 d2
    assume j: "j = Find_Deadlock"
      and d: "perform ord1 mg j = Some (Found (Some d1), mg)" "perform ord2 mg j = Some (Found (Some d2), mg)"
    with Do.prems(2) have "k (Found (Some d1)) = k (Found (Some d2))" by simp
    with Do.IH [OF rangeI Do.prems(1), of "Found (Some d2)"] Do.prems(2) d show ?thesis by simp
  qed
next
  case (Fetch_Add k)
  from Fetch_Add.IH [OF rangeI Fetch_Add.prems(1)] Fetch_Add.prems(2) show ?case by simp
qed simp_all

lemma succeeds_alike:
  assumes "with_shards oc alloc n = Some a" and "shard_count a \<noteq> 0"
    and "with_shards oc' alloc' k = Some b" and "shard_count b \<noteq> 0"
    and "key_order ord1" and "key_order ord2" and "script_keeps mode_of c" and "order_blind c"
  shows "succeeds ord1 c a \<longleftrightarrow> succeeds ord2 c b"
proof -
  have "manager_inv b" using with_shards_inv(1) [OF assms(3)] assms(4) by (auto simp: shard_count_def)
  from run_script_alike [OF new_shows_table [OF assms(1,2)] new_shows_table [OF assms(3,4)] assms(5,7), of 0]
    run_script_orders [OF this assms(5,6,8), of 0]
  show ?thesis by (auto simp: succeeds_def split: option.split)
qed

text \<open>
  C25: A client program cannot tell how many shards the manager has, nor in which order its maps iterate.
  Every program that goes on by the answers it gets, takes each range in one mode and asks
  \<open>find_deadlock\<close> only whether there is a deadlock comes to its end without a panic on one manager
  exactly if it does on any other.
\<close>

theorem clients_see_no_internals:
  assumes "with_shards oc alloc n = Some a" and "shard_count a \<noteq> 0"
    and "with_shards oc' alloc' k = Some b" and "shard_count b \<noteq> 0"
    and "key_order ord1" and "key_order ord2" and "script_keeps mode_of c" and "order_blind c"
  shows "succeeds ord1 c a \<longleftrightarrow> succeeds ord2 c b"
  by (rule succeeds_alike [OF assms])

theorem clients_see_no_internals_witness:
  "\<exists>mg. with_shards True (\<lambda>_. True) 4 = Some mg \<and> succeeds (rev \<circ> sorted_list_of_set) deadlock_main mg"
proof -
  let ?modes = "\<lambda>t s rg. Exclusive"
  have "map_option (\<lambda>b. (shard_count b, succeeds sorted_list_of_set deadlock_main b)) (with_shards True (\<lambda>_. True) 1) = Some (1, True)"
    and "map_option shard_count (with_shards True (\<lambda>_. True) 4) = Some 4" by code_simp+
  then obtain a b where a: "with_shards True (\<lambda>_. True) 1 = Some a" "shard_count a \<noteq> 0" "succeeds sorted_list_of_set deadlock_main a"
    and b: "with_shards True (\<lambda>_. True) 4 = Some b" "shard_count b \<noteq> 0" by auto
  have rev: "key_order (rev \<circ> sorted_list_of_set :: TxnId set \<Rightarrow> TxnId list)" by (simp add: key_order_def)
  have "script_keeps ?modes deadlock_main" "order_blind deadlock_main"
    by (simp_all add: deadlock_main_def Let_def keeps_modes_def split: Reply.split Outcome.split Acquisition.split)
  from clients_see_no_internals [OF a(1,2) b key_order_sorted rev this] a(3) b(1) show ?thesis by blast
qed

text \<open>So it is enough to run a script on one number of shards, in one order.\<close>

lemma succeeds_on_every_manager:
  assumes "with_shards oc alloc n = Some mg" and "shard_count mg \<noteq> 0" and ord: "key_order ord"
    and keeps: "script_keeps mode_of c" and blind: "order_blind c"
    and one: "(case with_shards True (\<lambda>_. True) k of
       Some b \<Rightarrow> shard_count b \<noteq> 0 \<and> succeeds sorted_list_of_set c b | None \<Rightarrow> False)"
  shows "succeeds ord c mg"
proof -
  from one obtain b where "with_shards True (\<lambda>_. True) k = Some b" "shard_count b \<noteq> 0" "succeeds sorted_list_of_set c b"
    by (auto split: option.splits)
  with succeeds_alike [OF assms(1,2) _ _ ord key_order_sorted keeps blind] show ?thesis by blast
qed

text \<open>
  The examples \<open>quick_start\<close>, \<open>deadlock\<close>, \<open>two_phase_locking\<close>, \<open>range_locks\<close>, \<open>shared_upgrade\<close> and
  \<open>hierarchy\<close> run to their end on a manager with any number of shards and for any iteration order: every
  assertion and every \<open>expect\<close> in them holds, and no panic is reached.
\<close>

theorem examples_succeed:
  assumes "with_shards oc alloc n = Some mg" and "shard_count mg \<noteq> 0" and "key_order ord"
  shows "succeeds ord quick_start_main mg \<and> succeeds ord deadlock_main mg
    \<and> succeeds ord two_phase_locking_main mg \<and> succeeds ord range_locks_main mg
    \<and> succeeds ord shared_upgrade_main mg \<and> succeeds ord hierarchy_main mg"
proof (intro conjI)
  let ?modes = "\<lambda>t s rg. if t = TxnId 3 then Exclusive else Shared"
  note every = succeeds_on_every_manager [OF assms, of ?modes, where k = 1]
  show "succeeds ord quick_start_main mg"
    by (rule every)
      (simp add: quick_start_main_def Let_def keeps_modes_def, simp add: quick_start_main_def Let_def keeps_modes_def, code_simp)
  show "succeeds ord deadlock_main mg"
    by (rule every)
      (simp add: deadlock_main_def Let_def keeps_modes_def split: Reply.split Outcome.split Acquisition.split, simp add: deadlock_main_def Let_def keeps_modes_def split: Reply.split Outcome.split Acquisition.split, code_simp)
  show "succeeds ord two_phase_locking_main mg"
    by (rule every)
      (simp add: two_phase_locking_main_def run_transaction_def Let_def keeps_modes_def, simp add: two_phase_locking_main_def run_transaction_def Let_def keeps_modes_def, code_simp)
  show "succeeds ord range_locks_main mg"
    by (rule every)
      (simp add: range_locks_main_def Let_def keeps_modes_def split: option.split, simp add: range_locks_main_def Let_def keeps_modes_def split: option.split, code_simp)
  show "succeeds ord shared_upgrade_main mg"
    by (rule every)
      (simp add: shared_upgrade_main_def Let_def keeps_modes_def, simp add: shared_upgrade_main_def Let_def keeps_modes_def, code_simp)
  show "succeeds ord hierarchy_main mg"
    by (rule every)
      (simp add: hierarchy_main_def Let_def keeps_modes_def, simp add: hierarchy_main_def Let_def keeps_modes_def, code_simp)
qed

text \<open>The calls of a script that runs alone; those of \<open>hierarchy\<close> are the calls that \<open>Hierarchy\<close> speaks about.\<close>

primrec script_calls :: "(TxnId set \<Rightarrow> TxnId list) \<Rightarrow> Script \<Rightarrow> LockManager \<times> usize \<Rightarrow> Job list" where
  "script_calls ord End st = []"
| "script_calls ord Panics st = []"
| "script_calls ord (Do j k) st =
     j # (case perform ord (fst st) j of None \<Rightarrow> [] | Some (r, mg) \<Rightarrow> script_calls ord (k r) (mg, snd st))"
| "script_calls ord (Fetch_Add k) st = script_calls ord (k (snd st)) (fst st, snd st + 1)"
| "script_calls ord (Fetch_Sub k) st = script_calls ord k (fst st, snd st - 1)"

lemma hierarchy_main_calls:
  "map_option (\<lambda>mg. script_calls sorted_list_of_set hierarchy_main (mg, 0)) (with_shards True (\<lambda>_. True) 3) =
     Some (map Change hierarchy_calls)"
  by code_simp

section \<open>Scripts on several threads\<close>

record Program =
  sys :: System
  script :: "nat \<Rightarrow> Script"
  counter :: usize

text \<open>
  The next step of a thread: start the operation that its script calls, go on with it, take its
  answer, or work on the counter.  \<open>None\<close>: the thread is blocked, at its end, or has panicked.
\<close>

definition prog_step :: "(TxnId set \<Rightarrow> TxnId list) \<Rightarrow> Program \<Rightarrow> nat \<Rightarrow> Program option" where
  "prog_step ord p tid =
     (case threads (sys p) tid of
        Idle \<Rightarrow>
          (case script p tid of
             Do j k \<Rightarrow> map_option (\<lambda>s. p\<lparr>sys := s\<rparr>) (sys_step ord (sys p) (tid, Start j))
           | Fetch_Add k \<Rightarrow>
               Some (p\<lparr>script := (script p)(tid := k (counter p)), counter := counter p + 1\<rparr>)
           | Fetch_Sub k \<Rightarrow> Some (p\<lparr>script := (script p)(tid := k), counter := counter p - 1\<rparr>)
           | End \<Rightarrow> None
           | Panics \<Rightarrow> None)
      | Running j c \<Rightarrow>
          (case reply (sys p) tid of
             None \<Rightarrow> map_option (\<lambda>s. p\<lparr>sys := s\<rparr>) (sys_step ord (sys p) (tid, Go))
           | Some r \<Rightarrow>
               (case script p tid of
                  Do j' k \<Rightarrow> map_option (\<lambda>s. p\<lparr>sys := s, script := (script p)(tid := k r)\<rparr>)
                              (sys_step ord (sys p) (tid, Finish))
                | _ \<Rightarrow> None)))"

inductive program_run ::
  "(TxnId set \<Rightarrow> TxnId list) \<Rightarrow> (nat \<Rightarrow> Script) \<Rightarrow> Program \<Rightarrow> bool"
  for ord :: "TxnId set \<Rightarrow> TxnId list" and init :: "nat \<Rightarrow> Script"
where
  start: "with_shards oc alloc n = Some mg \<Longrightarrow> shard_count mg \<noteq> 0 \<Longrightarrow>
    program_run ord init \<lparr>sys = fresh_system mg, script = init, counter = 0\<rparr>"
| step: "program_run ord init p \<Longrightarrow> prog_step ord p tid = Some p' \<Longrightarrow> program_run ord init p'"

section \<open>The concurrent example\<close>

text \<open>
  The loop of a worker thread of \<open>concurrent.rs\<close> (it also counts its grants, which main only prints),
  and the threads of its main program, for any row and any number of threads and of iterations.
\<close>

primrec worker :: "TxnId \<Rightarrow> ResourceId \<Rightarrow> nat \<Rightarrow> Script" where
  "worker txn row 0 = End"
| "worker txn row (Suc n) =
     Do (Change (Try_Acquire txn row Exclusive)) (\<lambda>x.
       if x = ok
       then Fetch_Add (\<lambda>concurrent.
              if concurrent = 0
              then Fetch_Sub (unwrap (Release_One txn row) (worker txn row n))
              else Panics)
       else worker txn row n)"

definition THREADS :: nat where "THREADS = 8"

definition ITERS :: nat where "ITERS = 50000"

definition concurrent_threads :: "ResourceId \<Rightarrow> nat \<Rightarrow> nat \<Rightarrow> nat \<Rightarrow> Script" where
  "concurrent_threads row ts iters tid =
     (if tid < ts then worker (TxnId_new (of_nat tid)) row iters else End)"

definition concurrent_main :: "nat \<Rightarrow> Script" where
  "concurrent_main = concurrent_threads (ResourceId_new 1) THREADS ITERS"

text \<open>
  The unit tests of \<open>src/src/manager.rs\<close> that spawn threads.  One is the example with other numbers; in
  the other the threads are readers, and every acquisition must be granted.
\<close>

definition test_concurrent_exclusive_is_mutually_exclusive :: "nat \<Rightarrow> Script" where
  "test_concurrent_exclusive_is_mutually_exclusive = concurrent_threads (ResourceId_new 11) 8 2000"

primrec reader :: "TxnId \<Rightarrow> ResourceId \<Rightarrow> nat \<Rightarrow> Script" where
  "reader txn r 0 = End"
| "reader txn r (Suc n) = unwrap (Try_Acquire txn r Shared) (unwrap (Release_One txn r) (reader txn r n))"

definition shared_threads :: "ResourceId \<Rightarrow> nat \<Rightarrow> nat \<Rightarrow> nat \<Rightarrow> Script" where
  "shared_threads r ts iters tid = (if tid < ts then reader (TxnId_new (of_nat tid)) r iters else End)"

definition test_concurrent_shared_acquire_release_is_consistent :: "nat \<Rightarrow> Script" where
  "test_concurrent_shared_acquire_release_is_consistent = shared_threads (ResourceId_new 7) 8 1000"

end
