(* ===== verification/Guarded_Scripts.thy ===== *)
theory Guarded_Scripts
  imports Client_Programs
begin

text \<open>
  Scripts on several threads that work on one resource.  The interface \<open>guarded_scripts\<close> asks of the
  scripts of a team of threads, each working for a transaction of its own, what they rely on and what
  they keep, script by script: which scripts a transaction may go on with while it holds the resource
  in a given mode (\<open>ready\<close>), and that the counter is touched under the exclusive lock only.  Proved once:
  in every interleaving no script panics, at most one thread is in its critical section, the resource
  is free in the end, some thread can always go on, and every run comes to its end.
\<close>

section \<open>Steps of a program\<close>

lemma prog_step_cases:
  assumes "prog_step ord p tid = Some p'"
  obtains (starts) j k s' where "threads (sys p) tid = Idle" "script p tid = Do j k"
      "sys_step ord (sys p) (tid, Start j) = Some s'" "p' = p\<lparr>sys := s'\<rparr>"
    | (add) k where "threads (sys p) tid = Idle" "script p tid = Fetch_Add k"
      "p' = p\<lparr>script := (script p)(tid := k (counter p)), counter := counter p + 1\<rparr>"
    | (sub) k where "threads (sys p) tid = Idle" "script p tid = Fetch_Sub k"
      "p' = p\<lparr>script := (script p)(tid := k), counter := counter p - 1\<rparr>"
    | (go) s' where "threads (sys p) tid \<noteq> Idle" "reply (sys p) tid = None"
      "sys_step ord (sys p) (tid, Go) = Some s'" "p' = p\<lparr>sys := s'\<rparr>"
    | (finish) r j k s' where "reply (sys p) tid = Some r" "script p tid = Do j k"
      "sys_step ord (sys p) (tid, Finish) = Some s'" "p' = p\<lparr>sys := s', script := (script p)(tid := k r)\<rparr>"
proof (cases "threads (sys p) tid")
  case Idle
  with assms that(1-3) show thesis
    by (cases "script p tid") (auto simp: prog_step_def simp del: sys_step.simps)
next
  case (Running j c)
  show thesis
  proof (cases "reply (sys p) tid")
    case None
    with Running assms that(4) show thesis by (auto simp: prog_step_def simp del: sys_step.simps)
  next
    case (Some r)
    with Running assms that(5) show thesis
      by (cases "script p tid") (auto simp: prog_step_def simp del: sys_step.simps)
  qed
qed

definition is_inside :: "Script \<Rightarrow> bool" where
  "is_inside c = (case c of Fetch_Sub k \<Rightarrow> True | _ \<Rightarrow> False)"

lemma is_inside_simps [simp]:
  "is_inside (Fetch_Sub k)" "\<not> is_inside End" "\<not> is_inside Panics" "\<not> is_inside (Do j f)" "\<not> is_inside (Fetch_Add g)"
  by (simp_all add: is_inside_def)

lemma is_inside_expect [simp]: "\<not> is_inside (expect j r k)"
  by (simp add: expect_def)

section \<open>The remaining work\<close>

text \<open>
  Every step of a thread makes what it has left smaller: its script, or else the instructions of the
  operation under way; an operation that is not started yet counts for more than any of its code.
\<close>

inductive goes_on :: "Script \<Rightarrow> Script \<Rightarrow> bool" where
  "goes_on (k x) (Do j k)"
| "goes_on (k n) (Fetch_Add k)"
| "goes_on k (Fetch_Sub k)"

inductive_cases goes_on_elims [elim!]:
  "goes_on c End" "goes_on c Panics" "goes_on c (Do j k)" "goes_on c (Fetch_Add f)" "goes_on c (Fetch_Sub k)"

lemma wf_goes_on: "wf {(c', c). goes_on c' c}"
proof (rule wfUNIVI)
  fix P :: "Script \<Rightarrow> bool" and c :: Script
  assume "\<forall>c. (\<forall>c'. (c', c) \<in> {(c', c). goes_on c' c} \<longrightarrow> P c') \<longrightarrow> P c"
  then have step: "P c" if "\<And>c'. goes_on c' c \<Longrightarrow> P c'" for c
    using that by blast
  show "P c" by (induction c) (rule step; blast)+
qed

primrec phase :: "Thread \<Rightarrow> nat" where
  "phase Idle = 1"
| "phase (Running j c) = 0"

definition less_left :: "((Script \<times> nat \<times> Reply Code) \<times> (Script \<times> nat \<times> Reply Code)) set" where
  "less_left = {(c', c). goes_on c' c} <*lex*> less_than <*lex*> {(c', c). continues c' c}"

lemma wf_less_left: "wf less_left"
  unfolding less_left_def by (intro wf_lex_prod wf_goes_on wf_less_than wf_continues)

definition left_of :: "Program \<Rightarrow> nat \<Rightarrow> Script \<times> nat \<times> Reply Code" where
  "left_of p tid = (script p tid, phase (threads (sys p) tid), rest_of (threads (sys p) tid))"

lemma prog_step_left:
  assumes "prog_step ord p tid = Some p'"
  shows "(left_of p' tid, left_of p tid) \<in> less_left" and "u \<noteq> tid \<Longrightarrow> left_of p' u = left_of p u"
  using assms
  by (cases rule: prog_step_cases;
      auto simp: left_of_def less_left_def goes_on.intros split: Thread.splits Code.splits dest: code_step_continues)+

text \<open>Steps that each make the value of one of finitely many threads smaller come to an end.\<close>

lemma one_smaller_mult1:
  assumes "finite A" and "i \<in> A" and "(f' i, f i) \<in> r" and "\<And>j. j \<in> A \<Longrightarrow> j \<noteq> i \<Longrightarrow> f' j = f j"
  shows "(image_mset f' (mset_set A), image_mset f (mset_set A)) \<in> mult1 r"
proof -
  have "image_mset f' (mset_set (A - {i})) = image_mset f (mset_set (A - {i}))"
    using assms(1,4) by (intro image_mset_cong) auto
  moreover have "mset_set A = add_mset i (mset_set (A - {i}))"
    using assms(1,2) by (simp add: mset_set.remove)
  ultimately show ?thesis using mult1_replace [OF assms(3)] by simp
qed

lemma prog_steps_end:
  assumes "finite A" and steps: "\<And>i. \<exists>tid \<in> A. prog_step ord (f i) tid = Some (f (Suc i))"
  shows False
proof -
  have "(image_mset (left_of (f (Suc i))) (mset_set A), image_mset (left_of (f i)) (mset_set A)) \<in> mult1 less_left" for i
  proof -
    obtain tid where "tid \<in> A" and step: "prog_step ord (f i) tid = Some (f (Suc i))" using steps by blast
    from one_smaller_mult1 [OF assms(1) this(1), where f = "left_of (f i)" and f' = "left_of (f (Suc i))",
        OF prog_step_left(1) [OF step]] prog_step_left(2) [OF step]
    show ?thesis by simp
  qed
  then have "\<exists>g. \<forall>i. (g (Suc i), g i) \<in> mult1 less_left"
    by (intro exI [of _ "\<lambda>i. image_mset (left_of (f i)) (mset_set A)"] allI)
  then show False
    using wf_mult1 [OF wf_less_left] by (simp add: wf_iff_no_infinite_down_chain)
qed

section \<open>The interface\<close>

locale guarded_scripts =
  fixes ord :: "TxnId set \<Rightarrow> TxnId list"
    and A :: "nat set"
    and txn :: "nat \<Rightarrow> TxnId"
    and row :: ResourceId
    and init :: "nat \<Rightarrow> Script"
    and ready :: "TxnId \<Rightarrow> LockMode option \<Rightarrow> Script \<Rightarrow> bool"
    and allowed :: "LockMode option \<Rightarrow> bool"
  assumes team: "finite A"
    and init_ready: "tid \<in> A \<Longrightarrow> ready (txn tid) None (init tid) \<and> \<not> is_inside (init tid)"
    and init_others: "tid \<notin> A \<Longrightarrow> init tid = End"
    and no_panic: "\<not> ready t h Panics"
    and ended: "ready t h End \<Longrightarrow> h = None"
    and empty_allowed: "allowed None"
    and ready_allowed: "ready t h c \<Longrightarrow> allowed h"
    and own_call: "ready t h (Do j k) \<Longrightarrow> one_section j \<and> job_txns j = {t}"
    and call_effect: "ready t (holds mg t row) (Do j k) \<Longrightarrow> manager_inv mg \<Longrightarrow> \<forall>u. allowed (holds mg u row) \<Longrightarrow>
      perform ord mg j = Some (r, mg') \<Longrightarrow> ready t (holds mg' t row) (k r)"
    and call_outside: "ready t h (Do j k) \<Longrightarrow> \<not> is_inside (k r)"
    and enters: "ready t h (Fetch_Add g) \<Longrightarrow> h = Some Exclusive \<and> ready t h (g 0) \<and> is_inside (g 0)"
    and leaves: "ready t h (Fetch_Sub c) \<Longrightarrow> h = Some Exclusive \<and> ready t h c \<and> \<not> is_inside c"
begin

text \<open>
  Where a thread is: between operations; with an operation that has not taken effect; or with its
  answer, which its script has not seen yet.
\<close>

definition at_work :: "System \<Rightarrow> nat \<Rightarrow> TxnId \<Rightarrow> Script \<Rightarrow> bool" where
  "at_work s tid t c \<longleftrightarrow>
     threads s tid = Idle \<and> ready t (holds (mgr s) t row) c
     \<or> (\<exists>j k. c = Do j k \<and> pending ord s tid j \<and> ready t (holds (mgr s) t row) c)
     \<or> (\<exists>j k r. c = Do j k \<and> answered s tid j r \<and> ready t (holds (mgr s) t row) (k r)
          \<and> job_txns j = {t} \<and> \<not> is_inside (k r))"

definition team_inv :: "Program \<Rightarrow> bool" where
  "team_inv p \<longleftrightarrow> system_inv (sys p)
     \<and> (\<forall>tid \<in> A. at_work (sys p) tid (txn tid) (script p tid))
     \<and> (\<forall>tid. tid \<notin> A \<longrightarrow> script p tid = End \<and> threads (sys p) tid = Idle)
     \<and> counter p = of_nat (card {tid \<in> A. is_inside (script p tid)})
     \<and> (\<forall>t. t \<notin> txn ` A \<longrightarrow> holds (mgr (sys p)) t row = None)"

lemma team_invD:
  assumes "team_inv p"
  shows "system_inv (sys p)" and "tid \<in> A \<Longrightarrow> at_work (sys p) tid (txn tid) (script p tid)"
    and "tid \<notin> A \<Longrightarrow> script p tid = End \<and> threads (sys p) tid = Idle"
    and "counter p = of_nat (card {tid \<in> A. is_inside (script p tid)})"
    and "t \<notin> txn ` A \<Longrightarrow> holds (mgr (sys p)) t row = None"
  using assms by (auto simp: team_inv_def)

section \<open>Steps of one thread\<close>

lemma at_work_allowed: "at_work s tid t c \<Longrightarrow> allowed (holds (mgr s) t row)"
  using ready_allowed by (auto simp: at_work_def)

lemma at_work_idle: "at_work s tid t c \<Longrightarrow> threads s tid = Idle \<Longrightarrow> ready t (holds (mgr s) t row) c"
  by (auto simp: at_work_def pending_def answered_def)

lemma at_work_inside: "at_work s tid t c \<Longrightarrow> is_inside c \<Longrightarrow> holds (mgr s) t row = Some Exclusive"
  using leaves by (auto simp: at_work_def is_inside_def split: Script.splits)

lemma at_work_busy: "at_work s tid t c \<Longrightarrow> threads s tid \<noteq> Idle \<Longrightarrow> \<exists>j k. c = Do j k"
  by (auto simp: at_work_def)

lemma at_work_job: "at_work s tid t c \<Longrightarrow> threads s tid = Running j d \<Longrightarrow> job_txns j = {t}"
  using own_call by (auto simp: at_work_def pending_def answered_def)

lemma at_work_end: "at_work s tid t End \<Longrightarrow> holds (mgr s) t row = None"
  using ended by (auto simp: at_work_def)

lemma at_work_no_panic: "\<not> at_work s tid t Panics"
  using no_panic by (auto simp: at_work_def)

lemma at_work_other:
  assumes at: "at_work s tid t c" and run: "sys_step ord s (u, a) = Some s'" and inv: "system_inv s"
    and u: "u \<noteq> tid" and same: "holds (mgr s') t = holds (mgr s) t"
  shows "at_work s' tid t c"
proof -
  have th: "threads s' tid = threads s tid" using sys_step_frame(4) [OF run inv] u by auto
  have pend: "pending ord s tid j \<Longrightarrow> pending ord s' tid j" for j
    using pending_step [OF run inv, of tid j] u by blast
  have answ: "answered s tid j r \<Longrightarrow> answered s' tid j r" for j r
    using answered_step [OF run inv, of tid j r] u by blast
  from at consider "threads s tid = Idle" "ready t (holds (mgr s) t row) c"
    | j k where "c = Do j k" "pending ord s tid j" "ready t (holds (mgr s) t row) c"
    | j k r where "c = Do j k" "answered s tid j r" "ready t (holds (mgr s) t row) (k r)" "job_txns j = {t}"
        "\<not> is_inside (k r)"
    unfolding at_work_def by blast
  then show ?thesis
    by cases (auto simp: at_work_def th same dest: pend answ)
qed

lemma at_work_go:
  assumes at: "at_work s tid t c" and run: "sys_step ord s (tid, Go) = Some s'" and inv: "system_inv s"
    and table: "\<forall>u. allowed (holds (mgr s) u row)"
  shows "at_work s' tid t c"
proof -
  have busy: "threads s tid \<noteq> Idle" using run by (auto split: Thread.splits)
  with at consider j k where "c = Do j k" "pending ord s tid j" "ready t (holds (mgr s) t row) c"
    | j k r where "c = Do j k" "answered s tid j r" "ready t (holds (mgr s) t row) (k r)" "job_txns j = {t}"
        "\<not> is_inside (k r)"
    unfolding at_work_def by blast
  then show ?thesis
  proof cases
    case (1 j k)
    from pending_step [OF run inv 1(2)] consider "pending ord s' tid j" "mgr s' = mgr s"
      | r where "perform ord (mgr s) j = Some (r, mgr s')" "answered s' tid j r" by auto
    then show ?thesis
    proof cases
      case 1
      with \<open>c = Do j k\<close> \<open>ready t (holds (mgr s) t row) c\<close> show ?thesis by (auto simp: at_work_def)
    next
      case (2 r)
      note c = \<open>ready t (holds (mgr s) t row) c\<close> [unfolded \<open>c = Do j k\<close>]
      from call_effect [OF c system_invD(2) [OF inv] table 2(1)] own_call [OF c] call_outside [OF c] 2(2) \<open>c = Do j k\<close>
      show ?thesis by (auto simp: at_work_def)
    qed
  next
    case (2 j k r)
    with answered_step_mgr [OF run 2(2)] answered_step [OF run inv 2(2)] show ?thesis
      by (auto simp: at_work_def)
  qed
qed

lemma at_work_start:
  assumes at: "at_work s tid t (Do j k)" and run: "sys_step ord s (tid, Start j) = Some s'" and inv: "system_inv s"
  shows "at_work s' tid t (Do j k)"
proof -
  note st = sys_step_Start [OF run]
  have c: "ready t (holds (mgr s) t row) (Do j k)" using at_work_idle [OF at st(1)] .
  then have "pending ord s' tid j" using started_pending [OF run inv] own_call by blast
  with c st(2) show ?thesis by (auto simp: at_work_def)
qed

lemma at_work_finish:
  assumes at: "at_work s tid t (Do j k)" and ans: "reply s tid = Some r"
    and run: "sys_step ord s (tid, Finish) = Some s'" and inv: "system_inv s"
  shows "at_work s' tid t (k r)" and "\<not> is_inside (k r)"
proof -
  from run have st: "s' = s\<lparr>threads := (threads s)(tid := Idle)\<rparr>" by (rule sys_step_Finish)
  have not_pending: "\<not> pending ord s tid j" using pending_reply [OF _ inv] ans by auto
  have "threads s tid \<noteq> Idle" using ans by (auto simp: reply_def)
  with at not_pending obtain r' where "answered s tid j r'" and r': "ready t (holds (mgr s) t row) (k r')"
      "\<not> is_inside (k r')"
    by (auto simp: at_work_def)
  then have "r' = r" using ans by (auto simp: answered_def reply_def)
  with r' st show "at_work s' tid t (k r)" "\<not> is_inside (k r)" by (auto simp: at_work_def)
qed

section \<open>Steps of the team\<close>

lemma team_allowed:
  assumes inv: "team_inv p"
  shows "allowed (holds (mgr (sys p)) t row)"
proof (cases "t \<in> txn ` A")
  case True
  then show ?thesis using at_work_allowed team_invD(2) [OF inv] by blast
next
  case False
  then show ?thesis using team_invD(5) [OF inv] empty_allowed by simp
qed

text \<open>At most one thread is in its critical section, and a thread about to enter finds nobody there.\<close>

lemma exclusive_alone:
  assumes inv: "team_inv p" and inj: "inj_on txn A" and "u \<in> A" "v \<in> A"
    and "holds (mgr (sys p)) (txn u) row = Some Exclusive" "holds (mgr (sys p)) (txn v) row = Some Exclusive"
  shows "u = v"
proof (rule ccontr)
  assume "u \<noteq> v"
  then have "txn u \<noteq> txn v" using inj assms(3,4) by (auto simp: inj_on_def)
  then have "compatible_with Exclusive Exclusive"
    using holds_compatible [OF system_invD(2) [OF team_invD(1) [OF inv]] assms(5,6)] by simp
  then show False by (simp add: mode_simps)
qed

lemma nobody_inside:
  assumes inv: "team_inv p" and inj: "inj_on txn A" and tid: "tid \<in> A"
    and held: "holds (mgr (sys p)) (txn tid) row = Some Exclusive" and out: "\<not> is_inside (script p tid)"
  shows "counter p = 0"
proof -
  have "\<not> is_inside (script p u)" if "u \<in> A" for u
    using exclusive_alone [OF inv inj that tid _ held] at_work_inside [OF team_invD(2) [OF inv that]] out by blast
  then have "{u \<in> A. is_inside (script p u)} = {}" by auto
  then have none: "card {u \<in> A. is_inside (script p u)} = 0" by (simp only: card.empty)
  have "counter p = of_nat 0" using team_invD(4) [OF inv] unfolding none .
  then show ?thesis by simp
qed

lemma counter_at_most_one:
  assumes inv: "team_inv p" and inj: "inj_on txn A"
  shows "counter p \<le> 1"
proof -
  have "u = v" if "u \<in> A" "is_inside (script p u)" "v \<in> A" "is_inside (script p v)" for u v
    using exclusive_alone [OF inv inj that(1,3)] at_work_inside team_invD(2) [OF inv] that by blast
  then have "card {u \<in> A. is_inside (script p u)} \<le> Suc 0"
    using team by (subst card_le_Suc0_iff_eq) auto
  then have "card {u \<in> A. is_inside (script p u)} = 0 \<or> card {u \<in> A. is_inside (script p u)} = 1" by linarith
  then show ?thesis using team_invD(4) [OF inv] by (elim disjE) (simp_all del: card_eq_0_iff)
qed

text \<open>A step of the manager, with the script as it was or gone on outside the critical section.\<close>

lemma team_sys_step:
  assumes inv: "team_inv p" and inj: "inj_on txn A" and tid: "tid \<in> A"
    and run: "sys_step ord (sys p) (tid, a) = Some s'"
    and at: "at_work s' tid (txn tid) c" and ins: "is_inside c = is_inside (script p tid)"
  shows "team_inv (p\<lparr>sys := s', script := (script p)(tid := c)\<rparr>)"
proof -
  note D = team_invD [OF inv] and fr = sys_step_frame [OF run team_invD(1) [OF inv]]
  have same: "holds (mgr s') t = holds (mgr (sys p)) t" if "t \<noteq> txn tid" for t
  proof -
    have "a = Go \<longrightarrow> (\<forall>j c. threads (sys p) tid = Running j c \<longrightarrow> t \<notin> job_txns j)"
      using at_work_job [OF D(2) [OF tid]] that by auto
    from locks_of_holds [OF conjunct1 [OF sys_step_effect(2) [OF run D(1) this]]] show ?thesis .
  qed
  have "at_work s' u (txn u) (script p u)" if "u \<in> A" "u \<noteq> tid" for u
  proof -
    have "txn u \<noteq> txn tid" using inj tid that by (auto simp: inj_on_def)
    from at_work_other [OF D(2) [OF that(1)] run D(1) that(2) [symmetric] same [OF this]] show ?thesis .
  qed
  moreover have "{u \<in> A. is_inside (((script p)(tid := c)) u)} = {u \<in> A. is_inside (script p u)}"
    using ins by auto
  moreover have "threads s' u = Idle" if "u \<notin> A" for u
    using D(3) [OF that] fr(4) [of u] that tid by (cases "u = tid") auto
  moreover have "holds (mgr s') t row = None" if "t \<notin> txn ` A" for t
    using same [of t] D(5) [OF that] that tid by (cases "t = txn tid") auto
  ultimately show ?thesis
    using fr(1) D(3,4) at tid by (auto simp: team_inv_def)
qed

text \<open>A step of a script on the counter.\<close>

lemma team_counter_step:
  assumes inv: "team_inv p" and tid: "tid \<in> A" and idle: "threads (sys p) tid = Idle"
    and c: "ready (txn tid) (holds (mgr (sys p)) (txn tid) row) c"
    and n: "n = of_nat (card {u \<in> A. is_inside (((script p)(tid := c)) u)})"
  shows "team_inv (p\<lparr>script := (script p)(tid := c), counter := n\<rparr>)"
  using team_invD [OF inv] tid idle c n by (auto simp: team_inv_def at_work_def)

lemma team_step:
  assumes step: "prog_step ord p tid = Some p'" and inv: "team_inv p" and inj: "inj_on txn A"
  shows "team_inv p'"
proof -
  note D = team_invD [OF inv]
  have tid: "tid \<in> A"
  proof (rule ccontr)
    assume "tid \<notin> A"
    from D(3) [OF this] step show False by (auto simp: prog_step_def)
  qed
  note at = D(2) [OF tid] and table = allI [OF team_allowed [OF inv]]
  from step show ?thesis
  proof (cases rule: prog_step_cases)
    case (starts j k s')
    from at_work_start [OF at [unfolded starts(2)] starts(3) D(1)]
    have "at_work s' tid (txn tid) (script p tid)" by (simp add: starts(2))
    from team_sys_step [OF inv inj tid starts(3) this] starts(4) show ?thesis by simp
  next
    case (go s')
    from team_sys_step [OF inv inj tid go(3) at_work_go [OF at go(3) D(1) table]] go(4) show ?thesis by simp
  next
    case (finish r j k s')
    from at_work_finish [OF at [unfolded finish(2)] finish(1,3) D(1)]
    have "at_work s' tid (txn tid) (k r)" "is_inside (k r) = is_inside (script p tid)"
      by (simp_all add: finish(2))
    from team_sys_step [OF inv inj tid finish(3) this] finish(4) show ?thesis by simp
  next
    case (add g)
    from at_work_idle [OF at add(1)] have "ready (txn tid) (holds (mgr (sys p)) (txn tid) row) (Fetch_Add g)"
      by (simp add: add(2))
    from enters [OF this] have held: "holds (mgr (sys p)) (txn tid) row = Some Exclusive"
      and c: "ready (txn tid) (holds (mgr (sys p)) (txn tid) row) (g 0)" "is_inside (g 0)" by auto
    have zero: "counter p = 0" using nobody_inside [OF inv inj tid held] add(2) by simp
    have "{u \<in> A. is_inside (((script p)(tid := g 0)) u)} = insert tid {u \<in> A. is_inside (script p u)}"
      using tid c(2) by auto
    then have "counter p + 1 = of_nat (card {u \<in> A. is_inside (((script p)(tid := g 0)) u)})"
      using D(4) team add(2) by simp
    from team_counter_step [OF inv tid add(1) c(1) this] add(3) show ?thesis by (simp add: zero)
  next
    case (sub c)
    from at_work_idle [OF at sub(1)] have "ready (txn tid) (holds (mgr (sys p)) (txn tid) row) (Fetch_Sub c)"
      by (simp add: sub(2))
    from leaves [OF this] have c: "ready (txn tid) (holds (mgr (sys p)) (txn tid) row) c" "\<not> is_inside c" by auto
    have "{u \<in> A. is_inside (script p u)} = insert tid {u \<in> A. is_inside (((script p)(tid := c)) u)}"
      using tid sub(2) by auto
    moreover have "tid \<notin> {u \<in> A. is_inside (((script p)(tid := c)) u)}" using c(2) by simp
    ultimately have "card {u \<in> A. is_inside (script p u)} = Suc (card {u \<in> A. is_inside (((script p)(tid := c)) u)})"
      using team by simp
    then have "counter p - 1 = of_nat (card {u \<in> A. is_inside (((script p)(tid := c)) u)})"
      using D(4) by simp
    from team_counter_step [OF inv tid sub(1) c(1) this] sub(3) show ?thesis by simp
  qed
qed

lemma team_start:
  assumes "with_shards oc alloc n = Some mg" and "shard_count mg \<noteq> 0"
  shows "team_inv \<lparr>sys = fresh_system mg, script = init, counter = 0\<rparr>"
proof -
  have mg: "manager_inv mg" "holds mg t row = None" for t
    using with_shards_inv(1,3) [OF assms(1)] assms(2) by (auto simp: shard_count_def)
  have "at_work (fresh_system mg) tid (txn tid) (init tid)" if "tid \<in> A" for tid
    using init_ready [OF that] mg(2) by (simp add: at_work_def fresh_system_def)
  moreover have none: "{tid \<in> A. is_inside (init tid)} = {}" using init_ready by auto
  ultimately show ?thesis
    using fresh_system_inv [OF mg(1)] mg(2) init_others
    by (simp add: team_inv_def fresh_system_def none)
qed

lemma team_run:
  assumes "program_run ord init p" and inj: "inj_on txn A"
  shows "team_inv p"
  using assms(1) by (induction rule: program_run.induct) (use team_start team_step inj in blast)+

section \<open>What holds of every run\<close>

lemma team_safe:
  assumes run: "program_run ord init p" and inj: "inj_on txn A"
  shows "script p tid \<noteq> Panics" and "counter p \<le> 1"
    and "\<forall>u. script p u = End \<Longrightarrow> holder_count (mgr (sys p)) row = Some 0"
proof -
  note inv = team_run [OF assms] and D = team_invD [OF team_run [OF assms]]
  show "script p tid \<noteq> Panics"
  proof
    assume "script p tid = Panics"
    with D(2) [of tid] D(3) [of tid] at_work_no_panic [of "sys p" tid "txn tid"] show False
      by (cases "tid \<in> A") simp_all
  qed
  show "counter p \<le> 1" using counter_at_most_one [OF inv inj] .
  show "holder_count (mgr (sys p)) row = Some 0" if e: "\<forall>u. script p u = End"
  proof -
    have "holds (mgr (sys p)) t row = None" for t
    proof (cases "t \<in> txn ` A")
      case True
      then obtain u where u: "u \<in> A" "t = txn u" by blast
      from at_work_end [of "sys p" u t] D(2) [OF u(1)] e u(2) show ?thesis by simp
    qed (rule D(5))
    then show ?thesis using holder_count_eq [OF system_invD(2) [OF D(1)]] by simp
  qed
qed

lemma team_progress:
  assumes inv: "team_inv p" and left: "script p u \<noteq> End"
  shows "\<exists>tid p'. prog_step ord p tid = Some p'"
proof (cases "\<forall>tid. threads (sys p) tid = Idle")
  case True
  have "u \<in> A" using team_invD(3) [OF inv, of u] left by blast
  then have "script p u \<noteq> Panics" using team_invD(2) [OF inv, of u] at_work_no_panic by metis
  with left True have "prog_step ord p u \<noteq> None"
    by (cases "script p u") (auto simp: prog_step_def)
  then show ?thesis by auto
next
  case False
  note D = team_invD [OF inv]
  from False obtain tid where en: "enabled ord (sys p) tid"
    using ordered_system_progress [OF system_invD(1) [OF D(1)]] by blast
  then obtain j c where run: "threads (sys p) tid = Running j c"
    by (auto simp: enabled_def split: Thread.splits)
  have "tid \<in> A" using D(3) [of tid] run by auto
  have "prog_step ord p tid \<noteq> None"
  proof (cases "reply (sys p) tid")
    case None
    with en run have "sys_step ord (sys p) (tid, Go) \<noteq> None"
      by (auto simp: enabled_def reply_def split: Code.splits)
    with run None show ?thesis by (auto simp: prog_step_def simp del: sys_step.simps)
  next
    case (Some r)
    obtain j' k where "script p tid = Do j' k"
      using at_work_busy [OF D(2) [OF \<open>tid \<in> A\<close>]] run by auto
    with run Some show ?thesis
      by (auto simp: prog_step_def reply_def split: Code.splits)
  qed
  then show ?thesis by auto
qed

lemma team_ends:
  assumes run: "program_run ord init p" and inj: "inj_on txn A"
    and f: "f 0 = p" "\<And>i. \<exists>tid. prog_step ord (f i) tid = Some (f (Suc i))"
  shows False
proof (rule prog_steps_end [OF team])
  have runs: "program_run ord init (f i)" for i
  proof (induction i)
    case (Suc i)
    with f(2) [of i] show ?case by (auto intro: program_run.step)
  qed (simp add: f(1) run)
  show "\<exists>tid \<in> A. prog_step ord (f i) tid = Some (f (Suc i))" for i
  proof -
    obtain tid where tid: "prog_step ord (f i) tid = Some (f (Suc i))" using f(2) by blast
    have "tid \<in> A"
    proof (rule ccontr)
      assume "tid \<notin> A"
      from team_invD(3) [OF team_run [OF runs [of i] inj] this] tid show False by (simp add: prog_step_def)
    qed
    with tid show ?thesis by blast
  qed
qed

end

section \<open>Runs by a schedule\<close>

primrec prog_steps :: "(TxnId set \<Rightarrow> TxnId list) \<Rightarrow> Program \<Rightarrow> nat list \<Rightarrow> Program option" where
  "prog_steps ord p [] = Some p"
| "prog_steps ord p (tid # tids) = Option.bind (prog_step ord p tid) (\<lambda>p1. prog_steps ord p1 tids)"

lemma prog_steps_run: "program_run ord init p \<Longrightarrow> prog_steps ord p tids = Some p' \<Longrightarrow> program_run ord init p'"
  by (induction tids arbitrary: p) (auto simp: bind_eq_Some_conv intro: program_run.step)

definition scheduled :: "(nat \<Rightarrow> Script) \<Rightarrow> nat list \<Rightarrow> Program option" where
  "scheduled init tids = Option.bind (with_shards True (\<lambda>_. True) 4) (\<lambda>mg.
     prog_steps sorted_list_of_set \<lparr>sys = fresh_system mg, script = init, counter = 0\<rparr> tids)"

lemma scheduled_run:
  assumes "map_option f (scheduled init tids) = Some v"
  obtains p where "program_run sorted_list_of_set init p" "f p = v"
proof -
  from assms obtain mg p where mg: "with_shards True (\<lambda>_. True) 4 = Some mg"
    and p: "prog_steps sorted_list_of_set \<lparr>sys = fresh_system mg, script = init, counter = 0\<rparr> tids = Some p"
      "f p = v"
    by (auto simp: scheduled_def bind_eq_Some_conv)
  have "map_option shard_count (with_shards True (\<lambda>_. True) 4) = Some 4" by code_simp
  with mg have "shard_count mg \<noteq> 0" by auto
  from prog_steps_run [OF program_run.start [OF mg this] p(1)] p(2) that show thesis by blast
qed

end
