(* ===== verification/Mutual_Exclusion.thy ===== *)
theory Mutual_Exclusion
  imports Guarded_Scripts
begin

text \<open>
  The programs of the repository that share a lock manager among threads: the example
  \<open>concurrent.rs\<close> and the two unit tests of \<open>src/src/manager.rs\<close> that spawn threads.  They do what they
  announce in every interleaving, as instances of \<open>guarded_scripts\<close>.
\<close>

declare worker.simps(2) [simp del] reader.simps(2) [simp del]

lemma worker_txns_differ:
  assumes "ts \<le> 2 ^ 64"
  shows "inj_on (\<lambda>i. TxnId (of_nat i)) {..<ts}"
proof (rule inj_onI)
  fix i j assume "i \<in> {..<ts}" "j \<in> {..<ts}" and eq: "TxnId (of_nat i) = TxnId (of_nat j)"
  then have "i < 2 ^ 64" "j < 2 ^ 64" using assms by auto
  moreover have "unat (of_nat i :: u64) = unat (of_nat j :: u64)" using eq by simp
  ultimately show "i = j" by (simp add: unat_of_nat del: Word.of_nat_unat)
qed

lemma Do_expect: "Do j k = expect j' r c \<longleftrightarrow> j = j' \<and> k = (\<lambda>x. if x = r then c else Panics)"
  by (auto simp: expect_def)

text \<open>What an attempt to lock and a release answer when they take effect.\<close>

lemma try_acquire_performed:
  assumes "perform ord mg (Change (Try_Acquire t row m)) = Some (r, mg')" and inv: "manager_inv mg"
    and free: "holds mg t row = None"
  shows "if grantable (holds mg) t row m
    then r = ok \<and> holds mg' t row = Some m else r = refused \<and> holds mg' t row = None"
proof -
  obtain mg1 where mg1: "try_acquire mg t row m =
        Some (if grantable (holds mg) t row m then Ok () else Err Conflict, mg1)"
      "grantable (holds mg) t row m \<longrightarrow>
        holds mg1 = set_held (holds mg) t row (Some (granted_mode (holds mg t row) m))"
      "\<not> grantable (holds mg) t row m \<longrightarrow> mg1 = mg"
    using try_acquire_effect [OF inv] by blast
  with mg1 assms(1) free show ?thesis
    by (cases "grantable (holds mg) t row m") (auto simp: granted_mode_def)
qed

lemma release_performed:
  assumes "perform ord mg (Change (Release_One t row)) = Some (r, mg')" and inv: "manager_inv mg"
    and held: "holds mg t row \<noteq> None"
  shows "r = ok \<and> holds mg' t row = None"
proof -
  obtain mg1 where "release mg t row = Some (if holds mg t row = None then Err NotHeld else Ok (), mg1)"
      "holds mg1 = set_held (holds mg) t row None"
    using release_effect [OF inv] by blast
  with assms(1) held show ?thesis by auto
qed

section \<open>Exclusive workers\<close>

definition enter :: "TxnId \<Rightarrow> ResourceId \<Rightarrow> nat \<Rightarrow> usize \<Rightarrow> Script" where
  "enter t row n prior =
     (if prior = 0 then Fetch_Sub (unwrap (Release_One t row) (worker t row n)) else Panics)"

text \<open>What a worker may go on with, outside and inside the critical section.\<close>

definition worker_ready :: "ResourceId \<Rightarrow> TxnId \<Rightarrow> LockMode option \<Rightarrow> Script \<Rightarrow> bool" where
  "worker_ready row t h c \<longleftrightarrow>
     h = None \<and> (\<exists>n. c = worker t row n)
     \<or> h = Some Exclusive \<and> (\<exists>n. c = Fetch_Add (enter t row n)
         \<or> c = Fetch_Sub (unwrap (Release_One t row) (worker t row n))
         \<or> c = unwrap (Release_One t row) (worker t row n))"

lemma worker_Suc:
  "worker t row (Suc n) = Do (Change (Try_Acquire t row Exclusive))
     (\<lambda>x. if x = ok then Fetch_Add (enter t row n) else worker t row n)"
proof -
  have "enter t row n = (\<lambda>prior.
      if prior = 0 then Fetch_Sub (unwrap (Release_One t row) (worker t row n)) else Panics)"
    by (simp add: fun_eq_iff enter_def)
  then show ?thesis by (simp only: worker.simps)
qed

lemma worker_not [simp]: "worker t row n \<noteq> Fetch_Add f" "worker t row n \<noteq> Fetch_Sub k" "worker t row n \<noteq> Panics"
  "Fetch_Add f \<noteq> worker t row n" "Fetch_Sub k \<noteq> worker t row n" "Panics \<noteq> worker t row n"
  "\<not> is_inside (worker t row n)"
  by (cases n; simp add: worker_Suc)+

lemma worker_ready_Do:
  assumes "worker_ready row t h (Do j k)"
  obtains (acquire) n where "h = None" "j = Change (Try_Acquire t row Exclusive)"
      "k = (\<lambda>x. if x = ok then Fetch_Add (enter t row n) else worker t row n)"
    | (release) n where "h = Some Exclusive" "j = Change (Release_One t row)"
      "k = (\<lambda>x. if x = ok then worker t row n else Panics)"
proof -
  from assms consider n where "h = None" "Do j k = worker t row n"
    | n where "h = Some Exclusive" "Do j k = unwrap (Release_One t row) (worker t row n)"
    by (auto simp: worker_ready_def)
  then show thesis
  proof cases
    case (1 n)
    then obtain m where "n = Suc m" by (cases n) auto
    with 1 acquire show thesis by (auto simp: worker_Suc)
  next
    case (2 n)
    with release show thesis by (simp add: Do_expect)
  qed
qed

interpretation workers: guarded_scripts ord "{..<ts}" "\<lambda>i. TxnId (of_nat i)" row
  "concurrent_threads row ts iters" "worker_ready row" "\<lambda>h. True"
  for ord :: "TxnId set \<Rightarrow> TxnId list" and ts row iters
proof unfold_locales
  fix t h j k
  assume "worker_ready row t h (Do j k)"
  then show "one_section j \<and> job_txns j = {t}"
    by (cases rule: worker_ready_Do) simp_all
next
  fix t mg j k r mg'
  assume c: "worker_ready row t (holds mg t row) (Do j k)" and inv: "manager_inv mg"
    and run: "perform ord mg j = Some (r, mg')"
  from c show "worker_ready row t (holds mg' t row) (k r)"
  proof (cases rule: worker_ready_Do)
    case (acquire n)
    from try_acquire_performed [OF run [unfolded acquire(2)] inv acquire(1)]
    have "r = ok \<and> holds mg' t row = Some Exclusive \<or> r = refused \<and> holds mg' t row = None"
      by (auto split: if_splits)
    with acquire(3) show ?thesis by (auto simp: worker_ready_def)
  next
    case (release n)
    from release_performed [OF run [unfolded release(2)] inv] release show ?thesis
      by (auto simp: worker_ready_def)
  qed
next
  fix t h j k r
  assume "worker_ready row t h (Do j k)"
  then show "\<not> is_inside (k r)" by (cases rule: worker_ready_Do) simp_all
next
  fix t h assume "worker_ready row t h End"
  then show "h = None" by (auto simp: worker_ready_def expect_def)
qed (auto simp: worker_ready_def concurrent_threads_def TxnId_new_def expect_def enter_def)

text \<open>
  C15: The example \<open>concurrent.rs\<close> does what it announces in every interleaving of its threads, at the
  granularity of single lock and unlock instructions: no assertion fails and nothing panics, the
  counter of the threads in the critical section never exceeds 1, and when all threads have come to
  their ends, nobody holds the row.  The example has 8 threads of 50000 iterations; the statement is
  for any row and any numbers of both, as long as the identifiers of the transactions differ.
\<close>

theorem concurrent_example_safe:
  assumes "ts \<le> 2 ^ 64" and "program_run ord (concurrent_threads row ts iters) p"
  shows "script p tid \<noteq> Panics \<and> counter p \<le> 1
    \<and> ((\<forall>u. script p u = End) \<longrightarrow> holder_count (mgr (sys p)) row = Some 0)"
  using workers.team_safe [OF assms(2) worker_txns_differ [OF assms(1)]] by blast

theorem concurrent_example_safe_witness:
  "\<exists>p. program_run sorted_list_of_set (concurrent_threads (ResourceId 1) 2 3) p \<and> is_inside (script p 0)
    \<and> counter p = 1 \<and> script p 1 \<noteq> Panics"
proof -
  have "map_option (\<lambda>p. (is_inside (script p 0), counter p)) (scheduled (concurrent_threads (ResourceId 1) 2 3) [0, 1, 0, 0, 0, 0, 1, 1, 0, 1, 1]) = Some (True, 1)"
    by code_simp
  then obtain p where p: "program_run sorted_list_of_set (concurrent_threads (ResourceId 1) 2 3) p" "is_inside (script p 0)" "counter p = 1"
    by (rule scheduled_run) auto
  from concurrent_example_safe [OF _ p(1), of 1] p show ?thesis by auto
qed

text \<open>
  C16: The example comes to its end under every scheduling: there is no endless run; as long as a thread
  has something left to do, some thread can take a step; so when no thread can, all are at their ends,
  and then the row is free.
\<close>

theorem concurrent_example_ends:
  assumes "ts \<le> 2 ^ 64" and "program_run ord (concurrent_threads row ts iters) p"
  shows "\<not> (\<exists>f. f 0 = p \<and> (\<forall>i. \<exists>tid. prog_step ord (f i) tid = Some (f (Suc i))))
    \<and> ((\<exists>u. script p u \<noteq> End) \<longrightarrow> (\<exists>tid p'. prog_step ord p tid = Some p'))
    \<and> ((\<forall>tid. prog_step ord p tid = None) \<longrightarrow>
         (\<forall>u. script p u = End) \<and> holder_count (mgr (sys p)) row = Some 0)"
proof -
  note inj = worker_txns_differ [OF assms(1)]
  have progress: "(\<exists>u. script p u \<noteq> End) \<longrightarrow> (\<exists>tid p'. prog_step ord p tid = Some p')"
    using workers.team_progress [OF workers.team_run [OF assms(2) inj]] by blast
  then have "(\<forall>tid. prog_step ord p tid = None) \<longrightarrow> (\<forall>u. script p u = End)" by (metis option.distinct(1))
  with progress workers.team_ends [OF assms(2) inj] workers.team_safe(3) [OF assms(2) inj] show ?thesis by blast
qed

theorem concurrent_example_ends_witness:
  "\<exists>p. program_run sorted_list_of_set (concurrent_threads (ResourceId 1) 2 3) p \<and> script p 0 \<noteq> End
    \<and> (\<exists>tid p'. prog_step sorted_list_of_set p tid = Some p')"
proof -
  have "map_option (\<lambda>p. is_inside (script p 0)) (scheduled (concurrent_threads (ResourceId 1) 2 3) [0, 1, 0, 0, 0, 0, 1, 1, 0, 1, 1]) = Some True"
    by code_simp
  then obtain p where p: "program_run sorted_list_of_set (concurrent_threads (ResourceId 1) 2 3) p" "is_inside (script p 0) = True"
    by (rule scheduled_run)
  then have end0: "script p 0 \<noteq> End" by auto
  then have "\<exists>u. script p u \<noteq> End" by blast
  with concurrent_example_ends [OF _ p(1)] have "\<exists>tid p'. prog_step sorted_list_of_set p tid = Some p'" by simp
  with p(1) end0 show ?thesis by blast
qed

section \<open>Readers\<close>

lemma shared_compatible: "compatible_with Shared Shared"
  by (simp add: mode_simps)

definition reader_ready :: "ResourceId \<Rightarrow> TxnId \<Rightarrow> LockMode option \<Rightarrow> Script \<Rightarrow> bool" where
  "reader_ready row t h c \<longleftrightarrow>
     h = None \<and> (\<exists>n. c = reader t row n)
     \<or> h = Some Shared \<and> (\<exists>n. c = unwrap (Release_One t row) (reader t row n))"

lemma reader_not [simp]: "reader t row n \<noteq> Fetch_Add f" "reader t row n \<noteq> Fetch_Sub k" "reader t row n \<noteq> Panics"
  "Fetch_Add f \<noteq> reader t row n" "Fetch_Sub k \<noteq> reader t row n" "Panics \<noteq> reader t row n"
  "\<not> is_inside (reader t row n)"
  by (cases n; simp add: reader.simps expect_def)+

lemma reader_ready_Do:
  assumes "reader_ready row t h (Do j k)"
  obtains (acquire) n where "h = None" "j = Change (Try_Acquire t row Shared)"
      "k = (\<lambda>x. if x = ok then unwrap (Release_One t row) (reader t row n) else Panics)"
    | (release) n where "h = Some Shared" "j = Change (Release_One t row)"
      "k = (\<lambda>x. if x = ok then reader t row n else Panics)"
proof -
  from assms consider n where "h = None" "Do j k = reader t row n"
    | n where "h = Some Shared" "Do j k = unwrap (Release_One t row) (reader t row n)"
    by (auto simp: reader_ready_def)
  then show thesis
  proof cases
    case (1 n)
    then obtain m where "n = Suc m" by (cases n) auto
    with 1 acquire show thesis by (simp add: reader.simps Do_expect)
  next
    case (2 n)
    with release show thesis by (simp add: Do_expect)
  qed
qed

interpretation readers: guarded_scripts ord "{..<ts}" "\<lambda>i. TxnId (of_nat i)" row
  "shared_threads row ts iters" "reader_ready row" "\<lambda>h. h = None \<or> h = Some Shared"
  for ord :: "TxnId set \<Rightarrow> TxnId list" and ts row iters
proof unfold_locales
  fix t h j k
  assume "reader_ready row t h (Do j k)"
  then show "one_section j \<and> job_txns j = {t}"
    by (cases rule: reader_ready_Do) simp_all
next
  fix t mg j k r mg'
  assume c: "reader_ready row t (holds mg t row) (Do j k)" and inv: "manager_inv mg"
    and table: "\<forall>u. holds mg u row = None \<or> holds mg u row = Some Shared"
    and run: "perform ord mg j = Some (r, mg')"
  from c show "reader_ready row t (holds mg' t row) (k r)"
  proof (cases rule: reader_ready_Do)
    case (acquire n)
    have "compatible_with h Shared" if "holds mg u row = Some h" for u h
      using table that by (metis option.distinct(1) option.inject shared_compatible)
    then have "grantable (holds mg) t row Shared" unfolding grantable_iff [OF inv] by blast
    with try_acquire_performed [OF run [unfolded acquire(2)] inv acquire(1)]
    have "r = ok" "holds mg' t row = Some Shared" by (auto split: if_splits)
    with acquire(3) show ?thesis by (auto simp: reader_ready_def)
  next
    case (release n)
    from release_performed [OF run [unfolded release(2)] inv] release show ?thesis
      by (auto simp: reader_ready_def)
  qed
next
  fix t h j k r
  assume "reader_ready row t h (Do j k)"
  then show "\<not> is_inside (k r)" by (cases rule: reader_ready_Do) simp_all
next
  fix t h assume "reader_ready row t h End"
  then show "h = None" by (auto simp: reader_ready_def expect_def)
qed (auto simp: reader_ready_def shared_threads_def TxnId_new_def expect_def)

text \<open>
  C29: The unit test \<open>test_concurrent_shared_acquire_release_is_consistent\<close> passes in every interleaving:
  no shared acquisition of any reader is ever refused and no release fails, the run comes to its end,
  and then nobody holds the resource.  The test has 8 threads of 1000 iterations.
\<close>

theorem concurrent_readers_never_refused:
  assumes "ts \<le> 2 ^ 64" and "program_run ord (shared_threads row ts iters) p"
  shows "script p tid \<noteq> Panics
    \<and> ((\<forall>u. script p u = End) \<longrightarrow> holder_count (mgr (sys p)) row = Some 0)
    \<and> ((\<exists>u. script p u \<noteq> End) \<longrightarrow> (\<exists>tid p'. prog_step ord p tid = Some p'))
    \<and> \<not> (\<exists>f. f 0 = p \<and> (\<forall>i. \<exists>tid. prog_step ord (f i) tid = Some (f (Suc i))))"
  using readers.team_safe(1,3) [OF assms(2) worker_txns_differ [OF assms(1)]]
    readers.team_progress [OF readers.team_run [OF assms(2) worker_txns_differ [OF assms(1)]]]
    readers.team_ends [OF assms(2) worker_txns_differ [OF assms(1)]] by blast

theorem concurrent_readers_never_refused_witness:
  "\<exists>p. program_run sorted_list_of_set (shared_threads (ResourceId 7) 2 3) p
    \<and> holds (mgr (sys p)) (TxnId 0) (ResourceId 7) = Some Shared \<and> holds (mgr (sys p)) (TxnId 1) (ResourceId 7) = Some Shared
    \<and> script p 0 \<noteq> Panics \<and> (\<exists>tid p'. prog_step sorted_list_of_set p tid = Some p')"
proof -
  define view where "view = (\<lambda>p :: Program. (holds (mgr (sys p)) (TxnId 0) (ResourceId 7),
      holds (mgr (sys p)) (TxnId 1) (ResourceId 7), case script p 0 of End \<Rightarrow> True | _ \<Rightarrow> False))"
  have "map_option view (scheduled (shared_threads (ResourceId 7) 2 3) [0, 1, 0, 0, 0, 1, 1, 1, 0, 1]) =
      Some (Some Shared, Some Shared, False)"
    unfolding view_def by code_simp
  then obtain p where run: "program_run sorted_list_of_set (shared_threads (ResourceId 7) 2 3) p"
      and p: "view p = (Some Shared, Some Shared, False)"
    by (rule scheduled_run)
  have "script p 0 \<noteq> End" using p by (auto simp: view_def)
  moreover have "holds (mgr (sys p)) (TxnId 0) (ResourceId 7) = Some Shared"
      "holds (mgr (sys p)) (TxnId 1) (ResourceId 7) = Some Shared"
    using p by (simp_all add: view_def)
  moreover have "(2 :: nat) \<le> 2 ^ 64" by simp
  ultimately show ?thesis using concurrent_readers_never_refused [OF _ run, of 0] run by blast
qed

section \<open>The programs themselves\<close>

text \<open>The example and the tests with their own numbers of threads and iterations.\<close>

lemma concurrent_main_safe:
  assumes "program_run ord concurrent_main p"
  shows "script p tid \<noteq> Panics" and "\<forall>u. script p u = End \<Longrightarrow> holder_count (mgr (sys p)) (ResourceId_new 1) = Some 0"
  using workers.team_safe(1,3) [OF assms [unfolded concurrent_main_def] worker_txns_differ]
  by (simp_all add: THREADS_def)

lemma test_concurrent_exclusive_safe:
  assumes "program_run ord test_concurrent_exclusive_is_mutually_exclusive p"
  shows "script p tid \<noteq> Panics" and "\<forall>u. script p u = End \<Longrightarrow> holder_count (mgr (sys p)) (ResourceId_new 11) = Some 0"
  using workers.team_safe(1,3) [OF assms [unfolded test_concurrent_exclusive_is_mutually_exclusive_def] worker_txns_differ]
  by simp_all

lemma test_concurrent_shared_safe:
  assumes "program_run ord test_concurrent_shared_acquire_release_is_consistent p"
  shows "script p tid \<noteq> Panics" and "\<forall>u. script p u = End \<Longrightarrow> holder_count (mgr (sys p)) (ResourceId_new 7) = Some 0"
  using readers.team_safe(1,3) [OF assms [unfolded test_concurrent_shared_acquire_release_is_consistent_def] worker_txns_differ]
  by simp_all

end
