(* ===== verification/Unit_Tests.thy ===== *)
theory Unit_Tests
  imports Client_Programs
begin

unbundle bit_operations_syntax

text \<open>
  The unit tests of \<open>src/src/manager.rs\<close> as scripts.  They check the model against what the authors of
  the crate expect of the code: every test runs to its end without a failed assertion, and, going
  beyond the tests, on managers with any number of shards.
\<close>

section \<open>Helpers\<close>

text \<open>\<open>ids\<close> and \<open>kr\<close> of the tests; \<open>kr\<close> panics when the range is inverted.\<close>

definition ids :: "u64 \<Rightarrow> u64 \<Rightarrow> TxnId \<times> ResourceId" where
  "ids t r = (TxnId_new t, ResourceId_new r)"

definition kr :: "u64 \<Rightarrow> u64 \<Rightarrow> (KeyRange \<Rightarrow> Script) \<Rightarrow> Script" where
  "kr a b k = (case KeyRange_new a b of Some r \<Rightarrow> k r | None \<Rightarrow> Panics)"

definition asserted :: "bool \<Rightarrow> Script \<Rightarrow> Script" where
  "asserted b k = (if b then k else Panics)"

definition on_deadlock :: "Call \<Rightarrow> (Deadlock \<Rightarrow> Script) \<Rightarrow> Script" where
  "on_deadlock c k = Do (Change c) (\<lambda>x. case x of Answer (Acq (Deadlock d)) \<Rightarrow> k d | _ \<Rightarrow> Panics)"

definition is_err :: "Call \<Rightarrow> Script \<Rightarrow> Script" where
  "is_err c k = Do (Change c) (\<lambda>x. case x of Answer (Res (Inl e)) \<Rightarrow> k | _ \<Rightarrow> Panics)"

abbreviation conflicts :: "Call \<Rightarrow> Script \<Rightarrow> Script" where
  "conflicts c \<equiv> expect (Change c) refused"

abbreviation not_held :: "Call \<Rightarrow> Script \<Rightarrow> Script" where
  "not_held c \<equiv> expect (Change c) (Answer (Res (Err NotHeld)))"

abbreviation granted :: "Call \<Rightarrow> Script \<Rightarrow> Script" where
  "granted c \<equiv> expect (Change c) (Answer (Acq Granted))"

abbreviation waiting :: "Call \<Rightarrow> Script \<Rightarrow> Script" where
  "waiting c \<equiv> expect (Change c) (Answer (Acq Waiting))"

abbreviation holder_count_is :: "ResourceId \<Rightarrow> nat \<Rightarrow> Script \<Rightarrow> Script" where
  "holder_count_is r n \<equiv> expect (Holder_Count r) (Number n)"

abbreviation range_count_is :: "ResourceId \<Rightarrow> nat \<Rightarrow> Script \<Rightarrow> Script" where
  "range_count_is s n \<equiv> expect (Range_Count s) (Number n)"

abbreviation waiting_count_is :: "nat \<Rightarrow> Script \<Rightarrow> Script" where
  "waiting_count_is n \<equiv> expect Waiting_Count (Number n)"

abbreviation mode_held_is :: "TxnId \<Rightarrow> ResourceId \<Rightarrow> LockMode \<Rightarrow> Script \<Rightarrow> Script" where
  "mode_held_is t r m \<equiv> expect (Mode_Held t r) (Mode_Is (Some m))"

abbreviation releases :: "TxnId \<Rightarrow> nat \<Rightarrow> Script \<Rightarrow> Script" where
  "releases t n \<equiv> expect (Change (Release_All t)) (Answer (Count n))"

abbreviation no_deadlock :: "Script \<Rightarrow> Script" where
  "no_deadlock \<equiv> expect Find_Deadlock (Found None)"

lemma script_keeps_helpers [simp]:
  "script_keeps mode_of (asserted b k) \<longleftrightarrow> (b \<longrightarrow> script_keeps mode_of k)"
  "script_keeps mode_of (kr lo hi f) \<longleftrightarrow> (\<forall>r. KeyRange_new lo hi = Some r \<longrightarrow> script_keeps mode_of (f r))"
  "script_keeps mode_of (on_deadlock c g) \<longleftrightarrow> keeps_modes mode_of (Change c) \<and> (\<forall>d. script_keeps mode_of (g d))"
  "script_keeps mode_of (is_err c k) \<longleftrightarrow> keeps_modes mode_of (Change c) \<and> script_keeps mode_of k"
  by (auto simp: asserted_def kr_def on_deadlock_def is_err_def
      split: option.split Reply.split Outcome.split Acquisition.split sum.split)

lemma script_keeps_foldr [simp]:
  "script_keeps mode_of (foldr (\<lambda>x. expect (j x) r) xs k) \<longleftrightarrow>
     (\<forall>x \<in> set xs. keeps_modes mode_of (j x)) \<and> script_keeps mode_of k"
  by (induction xs) auto

lemma order_blind_helpers [simp]:
  "order_blind (asserted b k) \<longleftrightarrow> (b \<longrightarrow> order_blind k)"
  "order_blind (kr lo hi f) \<longleftrightarrow> (\<forall>r. KeyRange_new lo hi = Some r \<longrightarrow> order_blind (f r))"
  "order_blind (on_deadlock c g) \<longleftrightarrow> (\<forall>d. order_blind (g d))"
  "order_blind (is_err c k) \<longleftrightarrow> order_blind k"
  by (auto simp: asserted_def kr_def on_deadlock_def is_err_def
      split: option.split Reply.split Outcome.split Acquisition.split sum.split)

lemma order_blind_foldr [simp]:
  "order_blind (foldr (\<lambda>x. expect (Change (j x)) r) xs k) \<longleftrightarrow> order_blind k"
  "order_blind (foldr (\<lambda>x. expect (Holder_Count (h x)) r) xs k) \<longleftrightarrow> order_blind k"
  by (induction xs) auto

section \<open>Point locks\<close>

definition test_shared_locks_coexist :: Script where
  "test_shared_locks_coexist =
     (let r = ResourceId_new 1 in
     unwrap (Try_Acquire (TxnId_new 1) r Shared)
     (unwrap (Try_Acquire (TxnId_new 2) r Shared)
     (unwrap (Try_Acquire (TxnId_new 3) r Shared)
     (holder_count_is r 3 End))))"

definition test_exclusive_excludes_shared :: Script where
  "test_exclusive_excludes_shared =
     (let (t1, r) = ids 1 1 in
     unwrap (Try_Acquire t1 r Exclusive)
     (conflicts (Try_Acquire (TxnId_new 2) r Shared) End))"

definition test_intention_shared_and_intention_exclusive_coexist :: Script where
  "test_intention_shared_and_intention_exclusive_coexist =
     (let r = ResourceId_new 1 in
     unwrap (Try_Acquire (TxnId_new 1) r IntentionShared)
     (unwrap (Try_Acquire (TxnId_new 2) r IntentionExclusive)
     (holder_count_is r 2 End)))"

definition test_intention_exclusive_blocks_shared :: Script where
  "test_intention_exclusive_blocks_shared =
     (let r = ResourceId_new 1 in
     unwrap (Try_Acquire (TxnId_new 1) r IntentionExclusive)
     (conflicts (Try_Acquire (TxnId_new 2) r Shared)
     (unwrap (Try_Acquire (TxnId_new 3) r IntentionExclusive)
     (unwrap (Try_Acquire (TxnId_new 4) r IntentionShared) End))))"

definition test_shared_plus_intention_exclusive_upgrades_to_six :: Script where
  "test_shared_plus_intention_exclusive_upgrades_to_six =
     (let r = ResourceId_new 1; t = TxnId_new 1 in
     unwrap (Try_Acquire t r Shared)
     (unwrap (Try_Acquire t r IntentionExclusive)
     (mode_held_is t r SharedIntentionExclusive
     (unwrap (Try_Acquire (TxnId_new 2) r IntentionShared)
     (conflicts (Try_Acquire (TxnId_new 3) r Shared) End)))))"

definition test_intention_shared_upgrades_to_exclusive_when_sole_holder :: Script where
  "test_intention_shared_upgrades_to_exclusive_when_sole_holder =
     (let r = ResourceId_new 1; t = TxnId_new 1 in
     unwrap (Try_Acquire t r IntentionShared)
     (unwrap (Try_Acquire t r Exclusive)
     (mode_held_is t r Exclusive End)))"

definition test_upgrade_to_six_blocked_by_other_reader :: Script where
  "test_upgrade_to_six_blocked_by_other_reader =
     (let r = ResourceId_new 1 in
     unwrap (Try_Acquire (TxnId_new 1) r Shared)
     (unwrap (Try_Acquire (TxnId_new 2) r Shared)
     (conflicts (Try_Acquire (TxnId_new 1) r IntentionExclusive)
     (mode_held_is (TxnId_new 1) r Shared End))))"

definition test_hierarchy_protocol_row_write_under_table_intent :: Script where
  "test_hierarchy_protocol_row_write_under_table_intent =
     (let db = ResourceId_new 1; table = ResourceId_new 2; page = ResourceId_new 3; row = ResourceId_new 4;
          writer = TxnId_new 1; reader = TxnId_new 2 in
      foldr (\<lambda>res. unwrap (Try_Acquire writer res IntentionExclusive)) [db, table, page]
     (unwrap (Try_Acquire writer row Exclusive)
     (foldr (\<lambda>res. unwrap (Try_Acquire reader res IntentionShared)) [db, table]
     (conflicts (Try_Acquire reader row Shared) End))))"

definition test_exclusive_excludes_exclusive :: Script where
  "test_exclusive_excludes_exclusive =
     (let (t1, r) = ids 1 1 in
     unwrap (Try_Acquire t1 r Exclusive)
     (conflicts (Try_Acquire (TxnId_new 2) r Exclusive) End))"

definition test_shared_blocks_other_exclusive :: Script where
  "test_shared_blocks_other_exclusive =
     (let (t1, r) = ids 1 1 in
     unwrap (Try_Acquire t1 r Shared)
     (conflicts (Try_Acquire (TxnId_new 2) r Exclusive) End))"

definition test_reacquire_same_mode_is_idempotent :: Script where
  "test_reacquire_same_mode_is_idempotent =
     (let (t1, r) = ids 1 1 in
     unwrap (Try_Acquire t1 r Shared)
     (unwrap (Try_Acquire t1 r Shared)
     (holder_count_is r 1 End)))"

definition test_request_weaker_than_held_is_noop :: Script where
  "test_request_weaker_than_held_is_noop =
     (let (t1, r) = ids 1 1 in
     unwrap (Try_Acquire t1 r Exclusive)
     (unwrap (Try_Acquire t1 r Shared)
     (mode_held_is t1 r Exclusive
     (holder_count_is r 1 End))))"

definition test_upgrade_sole_holder_succeeds :: Script where
  "test_upgrade_sole_holder_succeeds =
     (let (t1, r) = ids 1 1 in
     unwrap (Try_Acquire t1 r Shared)
     (unwrap (Try_Acquire t1 r Exclusive)
     (mode_held_is t1 r Exclusive
     (holder_count_is r 1 End))))"

definition test_upgrade_blocked_by_other_reader :: Script where
  "test_upgrade_blocked_by_other_reader =
     (let r = ResourceId_new 1 in
     unwrap (Try_Acquire (TxnId_new 1) r Shared)
     (unwrap (Try_Acquire (TxnId_new 2) r Shared)
     (conflicts (Try_Acquire (TxnId_new 1) r Exclusive)
     (mode_held_is (TxnId_new 1) r Shared End))))"

definition test_release_frees_resource_for_exclusive :: Script where
  "test_release_frees_resource_for_exclusive =
     (let r = ResourceId_new 1 in
     unwrap (Try_Acquire (TxnId_new 1) r Shared)
     (unwrap (Try_Acquire (TxnId_new 2) r Shared)
     (unwrap (Release_One (TxnId_new 1) r)
     (is_err (Try_Acquire (TxnId_new 3) r Exclusive)
     (unwrap (Release_One (TxnId_new 2) r)
     (unwrap (Try_Acquire (TxnId_new 3) r Exclusive) End))))))"

definition test_release_not_held_errors :: Script where
  "test_release_not_held_errors =
     (let (t1, r) = ids 1 1 in
     not_held (Release_One t1 r)
     (unwrap (Try_Acquire t1 r Shared)
     (not_held (Release_One (TxnId_new 9) r) End)))"

definition test_double_release_errors :: Script where
  "test_double_release_errors =
     (let (t1, r) = ids 1 1 in
     unwrap (Try_Acquire t1 r Exclusive)
     (unwrap (Release_One t1 r)
     (not_held (Release_One t1 r) End)))"

definition test_release_all_drops_every_lock :: Script where
  "test_release_all_drops_every_lock =
     (let t = TxnId_new 1; table = map (\<lambda>id. ResourceId_new (of_nat id)) [0..<50] in
      foldr (\<lambda>r. unwrap (Try_Acquire t r Exclusive)) table
     (releases t 50
     (foldr (\<lambda>r. holder_count_is r 0) table
     (releases t 0 End))))"

definition test_release_all_leaves_other_txns_alone :: Script where
  "test_release_all_leaves_other_txns_alone =
     (let r = ResourceId_new 1 in
     unwrap (Try_Acquire (TxnId_new 1) r Shared)
     (unwrap (Try_Acquire (TxnId_new 2) r Shared)
     (releases (TxnId_new 1) 1
     (mode_held_is (TxnId_new 2) r Shared
     (holder_count_is r 1 End)))))"

definition test_resource_fully_released_can_be_taken_exclusively :: Script where
  "test_resource_fully_released_can_be_taken_exclusively =
     (let r = ResourceId_new 42 in
     unwrap (Try_Acquire (TxnId_new 1) r Exclusive)
     (unwrap (Release_One (TxnId_new 1) r)
     (holder_count_is r 0
     (unwrap (Try_Acquire (TxnId_new 2) r Exclusive) End))))"

definition test_locks_in_different_shards_are_independent :: Script where
  "test_locks_in_different_shards_are_independent =
     (let a = ResourceId_new 1; b = ResourceId_new 2 in
     unwrap (Try_Acquire (TxnId_new 1) a Exclusive)
     (unwrap (Try_Acquire (TxnId_new 2) b Exclusive)
     (holder_count_is a 1
     (holder_count_is b 1 End))))"

section \<open>Range locks\<close>

definition test_range_shared_overlap_coexists :: Script where
  "test_range_shared_overlap_coexists =
     (let space = ResourceId_new 1 in
     kr 0 100 (\<lambda>a.
     kr 50 150 (\<lambda>b.
     unwrap (Try_Acquire_Range (TxnId_new 1) space a Shared)
     (unwrap (Try_Acquire_Range (TxnId_new 2) space b Shared)
     (range_count_is space 2 End)))))"

definition test_range_exclusive_conflicts_on_overlap :: Script where
  "test_range_exclusive_conflicts_on_overlap =
     (let space = ResourceId_new 1 in
     kr 100 200 (\<lambda>a.
     unwrap (Try_Acquire_Range (TxnId_new 1) space a Shared)
     (conflicts (Try_Acquire_Range (TxnId_new 2) space (KeyRange_point 150) Exclusive) End)))"

definition test_range_disjoint_ranges_do_not_conflict :: Script where
  "test_range_disjoint_ranges_do_not_conflict =
     (let space = ResourceId_new 1 in
     kr 0 100 (\<lambda>a.
     kr 101 200 (\<lambda>b.
     unwrap (Try_Acquire_Range (TxnId_new 1) space a Exclusive)
     (unwrap (Try_Acquire_Range (TxnId_new 2) space b Exclusive) End))))"

definition test_range_adjacent_inclusive_bounds_conflict :: Script where
  "test_range_adjacent_inclusive_bounds_conflict =
     (let space = ResourceId_new 1 in
     kr 0 100 (\<lambda>a.
     kr 100 200 (\<lambda>b.
     unwrap (Try_Acquire_Range (TxnId_new 1) space a Exclusive)
     (conflicts (Try_Acquire_Range (TxnId_new 2) space b Shared) End))))"

definition test_range_different_spaces_independent :: Script where
  "test_range_different_spaces_independent =
     kr 0 100 (\<lambda>a.
     unwrap (Try_Acquire_Range (TxnId_new 1) (ResourceId_new 1) a Exclusive)
     (unwrap (Try_Acquire_Range (TxnId_new 2) (ResourceId_new 2) a Exclusive) End))"

definition test_range_same_txn_overlap_allowed :: Script where
  "test_range_same_txn_overlap_allowed =
     (let space = ResourceId_new 1; t = TxnId_new 1 in
     kr 0 100 (\<lambda>a.
     kr 50 150 (\<lambda>b.
     unwrap (Try_Acquire_Range t space a Exclusive)
     (unwrap (Try_Acquire_Range t space b Exclusive)
     (range_count_is space 2 End)))))"

definition test_range_release_frees_overlap :: Script where
  "test_range_release_frees_overlap =
     (let space = ResourceId_new 1 in
     kr 100 200 (\<lambda>r.
     unwrap (Try_Acquire_Range (TxnId_new 1) space r Exclusive)
     (unwrap (Release_Range (TxnId_new 1) space r)
     (range_count_is space 0
     (unwrap (Try_Acquire_Range (TxnId_new 2) space (KeyRange_point 150) Exclusive) End)))))"

definition test_range_release_not_held_errors :: Script where
  "test_range_release_not_held_errors =
     (let space = ResourceId_new 1 in
     kr 0 10 (\<lambda>a.
     kr 0 11 (\<lambda>b.
     not_held (Release_Range (TxnId_new 1) space a)
     (unwrap (Try_Acquire_Range (TxnId_new 1) space a Shared)
     (not_held (Release_Range (TxnId_new 1) space b) End)))))"

definition test_release_all_drops_point_and_range_locks :: Script where
  "test_release_all_drops_point_and_range_locks =
     (let t = TxnId_new 1; space = ResourceId_new 100 in
      foldr (\<lambda>id. unwrap (Try_Acquire t (ResourceId_new id) Exclusive)) [0, 1, 2]
     (kr 0 10 (\<lambda>a. kr 20 30 (\<lambda>b.
      unwrap (Try_Acquire_Range t space a Shared)
     (unwrap (Try_Acquire_Range t space b Shared)
     (releases t 5
     (range_count_is space 0
     (releases t 0 End))))))))"

definition test_release_all_range_leaves_other_txn :: Script where
  "test_release_all_range_leaves_other_txn =
     (let space = ResourceId_new 1 in
     kr 0 100 (\<lambda>a.
     unwrap (Try_Acquire_Range (TxnId_new 1) space a Shared)
     (unwrap (Try_Acquire_Range (TxnId_new 2) space a Shared)
     (releases (TxnId_new 1) 1
     (range_count_is space 1 End)))))"

definition test_range_intention_modes_coexist :: Script where
  "test_range_intention_modes_coexist =
     (let space = ResourceId_new 1 in
     kr 0 100 (\<lambda>a.
     unwrap (Try_Acquire_Range (TxnId_new 1) space a IntentionShared)
     (unwrap (Try_Acquire_Range (TxnId_new 2) space a IntentionExclusive)
     (range_count_is space 2 End))))"

section \<open>Deadlock-aware requests\<close>

definition test_request_granted_on_free_resource :: Script where
  "test_request_granted_on_free_resource =
     (let (t, r) = ids 1 1 in
     granted (Request t r Exclusive)
     (mode_held_is t r Exclusive
     (waiting_count_is 0 End)))"

definition test_request_waiting_registers_wait :: Script where
  "test_request_waiting_registers_wait =
     (let r = ResourceId_new 1 in
     granted (Request (TxnId_new 1) r Exclusive)
     (waiting (Request (TxnId_new 2) r Exclusive)
     (waiting_count_is 1 End)))"

definition test_request_grant_clears_prior_wait :: Script where
  "test_request_grant_clears_prior_wait =
     (let r = ResourceId_new 1 in
     ignore (Request (TxnId_new 1) r Exclusive)
     (waiting (Request (TxnId_new 2) r Exclusive)
     (unwrap (Release_One (TxnId_new 1) r)
     (granted (Request (TxnId_new 2) r Exclusive)
     (waiting_count_is 0 End)))))"

definition test_classic_two_transaction_deadlock :: Script where
  "test_classic_two_transaction_deadlock =
     (let a = ResourceId_new 1; b = ResourceId_new 2; t1 = TxnId_new 1; t2 = TxnId_new 2 in
     granted (Request t1 a Exclusive)
     (granted (Request t2 b Exclusive)
     (waiting (Request t1 b Exclusive)
     (on_deadlock (Request t2 a Exclusive) (\<lambda>d.
        asserted (dl_victim d = t2)
       (asserted (length (dl_cycle d) = 2)
       (asserted (t1 \<in> set (dl_cycle d) \<and> t2 \<in> set (dl_cycle d)) End)))))))"

definition test_three_transaction_deadlock_cycle :: Script where
  "test_three_transaction_deadlock_cycle =
     (let a = ResourceId_new 1; b = ResourceId_new 2; c = ResourceId_new 3;
          t1 = TxnId_new 1; t2 = TxnId_new 2; t3 = TxnId_new 3 in
     ignore (Request t1 a Exclusive)
     (ignore (Request t2 b Exclusive)
     (ignore (Request t3 c Exclusive)
     (waiting (Request t1 b Exclusive)
     (waiting (Request t2 c Exclusive)
     (on_deadlock (Request t3 a Exclusive) (\<lambda>d.
        asserted (length (dl_cycle d) = 3)
       (asserted (dl_victim d = t3) End))))))))"

definition test_aborting_victim_breaks_deadlock :: Script where
  "test_aborting_victim_breaks_deadlock =
     (let a = ResourceId_new 1; b = ResourceId_new 2; t1 = TxnId_new 1; t2 = TxnId_new 2 in
     ignore (Request t1 a Exclusive)
     (ignore (Request t2 b Exclusive)
     (ignore (Request t1 b Exclusive)
     (on_deadlock (Request t2 a Exclusive) (\<lambda>d.
        let victim = dl_victim d in
        ignore (Release_All victim)
       (let survivor = (if victim = t1 then t2 else t1); want = (if survivor = t1 then b else a) in
        granted (Request survivor want Exclusive)
       (no_deadlock End)))))))"

definition test_no_false_deadlock_after_release :: Script where
  "test_no_false_deadlock_after_release =
     (let a = ResourceId_new 1; b = ResourceId_new 2; t1 = TxnId_new 1; t2 = TxnId_new 2 in
     ignore (Request t1 a Exclusive)
     (ignore (Request t2 b Exclusive)
     (ignore (Request t1 b Exclusive)
     (unwrap (Release_One t2 b)
     (waiting (Request t2 a Exclusive)
     (no_deadlock End))))))"

definition test_cancel_wait_removes_from_graph :: Script where
  "test_cancel_wait_removes_from_graph =
     (let r = ResourceId_new 1 in
     ignore (Request (TxnId_new 1) r Exclusive)
     (waiting (Request (TxnId_new 2) r Exclusive)
     (ignore (Cancel_Wait (TxnId_new 2))
     (waiting_count_is 0 End))))"

definition test_release_all_clears_wait :: Script where
  "test_release_all_clears_wait =
     (let r = ResourceId_new 1 in
     ignore (Request (TxnId_new 1) r Exclusive)
     (ignore (Request (TxnId_new 2) r Exclusive)
     (waiting_count_is 1
     (ignore (Release_All (TxnId_new 2))
     (waiting_count_is 0 End)))))"

definition test_find_deadlock_none_without_cycle :: Script where
  "test_find_deadlock_none_without_cycle =
     (let a = ResourceId_new 1; b = ResourceId_new 2 in
     ignore (Request (TxnId_new 1) a Exclusive)
     (ignore (Request (TxnId_new 2) b Exclusive)
     (ignore (Request (TxnId_new 1) b Exclusive)
     (no_deadlock End))))"

definition test_shared_requests_do_not_deadlock :: Script where
  "test_shared_requests_do_not_deadlock =
     (let r = ResourceId_new 1 in
     granted (Request (TxnId_new 1) r Shared)
     (granted (Request (TxnId_new 2) r Shared)
     (waiting_count_is 0 End)))"

section \<open>All tests\<close>

definition small_point_tests :: "Script list" where
  "small_point_tests =
     [test_shared_locks_coexist,
      test_exclusive_excludes_shared,
      test_intention_shared_and_intention_exclusive_coexist,
      test_intention_exclusive_blocks_shared,
      test_shared_plus_intention_exclusive_upgrades_to_six,
      test_intention_shared_upgrades_to_exclusive_when_sole_holder,
      test_upgrade_to_six_blocked_by_other_reader,
      test_hierarchy_protocol_row_write_under_table_intent,
      test_exclusive_excludes_exclusive,
      test_shared_blocks_other_exclusive,
      test_reacquire_same_mode_is_idempotent,
      test_request_weaker_than_held_is_noop,
      test_upgrade_sole_holder_succeeds,
      test_upgrade_blocked_by_other_reader,
      test_release_frees_resource_for_exclusive,
      test_release_not_held_errors,
      test_double_release_errors,
      test_release_all_leaves_other_txns_alone,
      test_resource_fully_released_can_be_taken_exclusively,
      test_locks_in_different_shards_are_independent]"

definition point_tests :: "Script list" where
  "point_tests = test_release_all_drops_every_lock # small_point_tests"

definition range_tests :: "Script list" where
  "range_tests =
     [test_range_shared_overlap_coexists,
      test_range_exclusive_conflicts_on_overlap,
      test_range_disjoint_ranges_do_not_conflict,
      test_range_adjacent_inclusive_bounds_conflict,
      test_range_different_spaces_independent,
      test_range_same_txn_overlap_allowed,
      test_range_release_frees_overlap,
      test_range_release_not_held_errors,
      test_release_all_drops_point_and_range_locks,
      test_release_all_range_leaves_other_txn,
      test_range_intention_modes_coexist]"

definition request_tests :: "Script list" where
  "request_tests =
     [test_request_granted_on_free_resource,
      test_request_waiting_registers_wait,
      test_request_grant_clears_prior_wait,
      test_classic_two_transaction_deadlock,
      test_three_transaction_deadlock_cycle,
      test_aborting_victim_breaks_deadlock,
      test_no_false_deadlock_after_release,
      test_cancel_wait_removes_from_graph,
      test_release_all_clears_wait,
      test_find_deadlock_none_without_cycle,
      test_shared_requests_do_not_deadlock]"

lemmas test_defs = ids_def Let_def keeps_modes_def point_tests_def small_point_tests_def range_tests_def request_tests_def
  test_shared_locks_coexist_def
  test_exclusive_excludes_shared_def
  test_intention_shared_and_intention_exclusive_coexist_def
  test_intention_exclusive_blocks_shared_def
  test_shared_plus_intention_exclusive_upgrades_to_six_def
  test_intention_shared_upgrades_to_exclusive_when_sole_holder_def
  test_upgrade_to_six_blocked_by_other_reader_def
  test_hierarchy_protocol_row_write_under_table_intent_def
  test_exclusive_excludes_exclusive_def
  test_shared_blocks_other_exclusive_def
  test_reacquire_same_mode_is_idempotent_def
  test_request_weaker_than_held_is_noop_def
  test_upgrade_sole_holder_succeeds_def
  test_upgrade_blocked_by_other_reader_def
  test_release_frees_resource_for_exclusive_def
  test_release_not_held_errors_def
  test_double_release_errors_def
  test_release_all_drops_every_lock_def
  test_release_all_leaves_other_txns_alone_def
  test_resource_fully_released_can_be_taken_exclusively_def
  test_locks_in_different_shards_are_independent_def
  test_range_shared_overlap_coexists_def
  test_range_exclusive_conflicts_on_overlap_def
  test_range_disjoint_ranges_do_not_conflict_def
  test_range_adjacent_inclusive_bounds_conflict_def
  test_range_different_spaces_independent_def
  test_range_same_txn_overlap_allowed_def
  test_range_release_frees_overlap_def
  test_range_release_not_held_errors_def
  test_release_all_drops_point_and_range_locks_def
  test_release_all_range_leaves_other_txn_def
  test_range_intention_modes_coexist_def
  test_request_granted_on_free_resource_def
  test_request_waiting_registers_wait_def
  test_request_grant_clears_prior_wait_def
  test_classic_two_transaction_deadlock_def
  test_three_transaction_deadlock_cycle_def
  test_aborting_victim_breaks_deadlock_def
  test_no_false_deadlock_after_release_def
  test_cancel_wait_removes_from_graph_def
  test_release_all_clears_wait_def
  test_find_deadlock_none_without_cycle_def
  test_shared_requests_do_not_deadlock_def

text \<open>In the tests of ranges, transaction 1 takes them in one mode and transaction 2 in another.\<close>

definition test_modes :: "LockMode \<Rightarrow> LockMode \<Rightarrow> range_modes" where
  "test_modes m1 m2 t s rg = (if t = TxnId_new 1 then m1 else m2)"

definition range_test_modes :: "(LockMode \<times> LockMode) list" where
  "range_test_modes =
     [(Shared, Shared), (Shared, Exclusive), (Exclusive, Exclusive), (Exclusive, Shared), (Exclusive, Exclusive),
      (Exclusive, Exclusive), (Exclusive, Exclusive), (Shared, Shared), (Shared, Shared), (Shared, Shared),
      (IntentionShared, IntentionExclusive)]"

lemma tests_keep:
  "c \<in> set (point_tests @ range_tests @ request_tests) \<Longrightarrow> \<exists>mode_of. script_keeps mode_of c"
proof -
  assume c: "c \<in> set (point_tests @ range_tests @ request_tests)"
  have "list_all (script_keeps (test_modes Shared Shared)) (point_tests @ request_tests)"
    by (simp add: test_defs)
  moreover have "list_all (\<lambda>x. script_keeps (test_modes (fst (fst x)) (snd (fst x))) (snd x)) (zip range_test_modes range_tests)"
    by (simp add: test_defs range_test_modes_def test_modes_def TxnId_new_def)
  then have "list_all (\<lambda>c. \<exists>m1 m2. script_keeps (test_modes m1 m2) c) (map snd (zip range_test_modes range_tests))"
    unfolding list_all_iff by auto
  moreover have "map snd (zip range_test_modes range_tests) = range_tests"
    by (simp add: range_test_modes_def range_tests_def)
  ultimately show ?thesis using c unfolding list_all_iff by (metis Un_iff set_append)
qed

lemma tests_blind: "c \<in> set (point_tests @ range_tests @ request_tests) \<Longrightarrow> order_blind c"
proof -
  assume c: "c \<in> set (point_tests @ range_tests @ request_tests)"
  have "list_all order_blind (point_tests @ range_tests @ request_tests)" by (simp add: test_defs)
  with c show ?thesis by (simp only: list_all_iff)
qed

definition succeeds_on :: "usize \<Rightarrow> Script \<Rightarrow> bool" where
  "succeeds_on k c \<longleftrightarrow> (case with_shards True (\<lambda>_. True) k of
     Some b \<Rightarrow> shard_count b \<noteq> 0 \<and> succeeds sorted_list_of_set c b | None \<Rightarrow> False)"

lemma tests_succeed_somewhere:
  "list_all (succeeds_on 1) small_point_tests" "list_all (succeeds_on 1) range_tests"
  "list_all (succeeds_on 1) request_tests" "succeeds_on 16 test_release_all_drops_every_lock"
  by code_simp+

lemma test_succeeds_somewhere:
  "c \<in> set (point_tests @ range_tests @ request_tests) \<Longrightarrow> \<exists>k. succeeds_on k c"
  using tests_succeed_somewhere unfolding list_all_iff point_tests_def set_append list.set by blast

section \<open>Construction and routing\<close>

definition test_with_shards_rounds_up_to_power_of_two :: bool where
  "test_with_shards_rounds_up_to_power_of_two \<longleftrightarrow>
     map (\<lambda>n. map_option shard_count (with_shards True (\<lambda>_. True) n)) [1, 3, 5, 0, 64]
       = map Some [1, 4, 8, 1, 64]"

definition test_single_shard_routes_everything_to_index_zero :: bool where
  "test_single_shard_routes_everything_to_index_zero \<longleftrightarrow>
     (case with_shards True (\<lambda>_. True) 1 of
        Some mg \<Rightarrow> list_all (\<lambda>id. shard_index mg (ResourceId_new (of_nat id)) = 0) [0..<1000]
      | None \<Rightarrow> False)"

definition test_shard_index_within_bounds :: bool where
  "test_shard_index_within_bounds \<longleftrightarrow>
     (case with_shards True (\<lambda>_. True) 16 of
        Some mg \<Rightarrow> list_all (\<lambda>id. shard_index mg (ResourceId_new (of_nat id)) < 16) [0..<10000]
      | None \<Rightarrow> False)"

text \<open>The indexing of \<open>seen\<close> stays in range by the test before this one, as proved below.\<close>

definition test_sequential_ids_spread_across_shards :: bool where
  "test_sequential_ids_spread_across_shards \<longleftrightarrow>
     (case with_shards True (\<lambda>_. True) 16 of
        Some mg \<Rightarrow>
          list_all (\<lambda>hit. hit)
            (fold (\<lambda>id seen. seen[unat (shard_index mg (ResourceId_new (of_nat id))) := True]) [0..<256] (replicate 16 False))
      | None \<Rightarrow> False)"

definition test_fib_hash_constant_is_odd :: bool where
  "test_fib_hash_constant_is_odd \<longleftrightarrow> FIB_HASH AND 1 = 1"

lemma sixteen_shards: "\<exists>mg. with_shards True (\<lambda>_. True) 16 = Some mg \<and> shard_count mg = 16 \<and> bits mg = 4"
proof -
  have "map_option (\<lambda>mg. (shard_count mg, bits mg)) (with_shards True (\<lambda>_. True) 16) = Some (16, 4)" by code_simp
  then show ?thesis by auto
qed

lemma shard_index_below_16:
  assumes "with_shards True (\<lambda>_. True) 16 = Some mg"
  shows "shard_index mg r < 16"
proof -
  from sixteen_shards assms have len: "length (shards mg) = 16" by (auto simp: shard_count_def)
  then have "shards mg \<noteq> []" by auto
  from route_less [OF manager_inv_shape [OF with_shards_inv(1) [OF assms this]], of r] len show ?thesis
    by (simp add: route_def word_less_nat_alt)
qed

lemma routing_tests_pass:
  "test_with_shards_rounds_up_to_power_of_two" "test_single_shard_routes_everything_to_index_zero"
  "test_shard_index_within_bounds" "test_sequential_ids_spread_across_shards" "test_fib_hash_constant_is_odd"
proof -
  show "test_with_shards_rounds_up_to_power_of_two" "test_fib_hash_constant_is_odd" by code_simp+
  have "map_option bits (with_shards True (\<lambda>_. True) 1) = Some 0" by code_simp
  then obtain mg where mg: "with_shards True (\<lambda>_. True) 1 = Some mg" "bits mg = 0" by auto
  then have "shard_index mg r = 0" for r by (simp add: shard_index_def)
  with mg(1) show "test_single_shard_routes_everything_to_index_zero"
    by (simp add: test_single_shard_routes_everything_to_index_zero_def list_all_iff)
  show "test_shard_index_within_bounds"
    using sixteen_shards shard_index_below_16
    by (auto simp: test_shard_index_within_bounds_def list_all_iff)
  show "test_sequential_ids_spread_across_shards" by code_simp
qed

text \<open>
  The model passes the sequential unit tests of the lock manager.  Every script comes to its end without
  a failed assertion, on a manager with any number of shards and for any iteration order, and so do the
  tests of construction and routing.
\<close>

theorem unit_tests_pass:
  assumes "with_shards oc alloc n = Some mg" and "shard_count mg \<noteq> 0" and "key_order ord"
  shows "list_all (\<lambda>c. succeeds ord c mg) (point_tests @ range_tests @ request_tests)
    \<and> test_with_shards_rounds_up_to_power_of_two \<and> test_single_shard_routes_everything_to_index_zero
    \<and> test_shard_index_within_bounds \<and> test_sequential_ids_spread_across_shards \<and> test_fib_hash_constant_is_odd"
proof -
  have "succeeds ord c mg" if c: "c \<in> set (point_tests @ range_tests @ request_tests)" for c
  proof -
    obtain mode_of where keeps: "script_keeps mode_of c" using tests_keep [OF c] by blast
    from test_succeeds_somewhere [OF c] obtain k where "succeeds_on k c" ..
    from succeeds_on_every_manager [OF assms keeps tests_blind [OF c] this [unfolded succeeds_on_def]] show ?thesis .
  qed
  then show ?thesis using routing_tests_pass by (simp only: list_all_iff) blast
qed

end
