(* ===== verification/Component_Tests.thy ===== *)
theory Component_Tests
  imports Mode Key_Range Kahn
begin

text \<open>
  The unit tests of the modes, the identifiers, the errors, the key ranges and the wait-for graph
  (\<open>src/src/mode.rs\<close>, \<open>id.rs\<close>, \<open>error.rs\<close>, \<open>range.rs\<close>, \<open>deadlock.rs\<close>).  A test is the conjunction of its
  assertions; a loop over an array is \<open>list_all\<close>; an \<open>unwrap\<close> that panics makes a test false.
\<close>

section \<open>Modes\<close>

definition all_modes :: "LockMode list" where
  "all_modes = [IntentionShared, IntentionExclusive, Shared, SharedIntentionExclusive, Exclusive]"

definition each :: "(LockMode \<Rightarrow> bool) \<Rightarrow> bool" where
  "each P \<longleftrightarrow> list_all P all_modes"

definition test_compatibility_matches_standard_mgl_matrix :: bool where
  "test_compatibility_matches_standard_mgl_matrix \<longleftrightarrow>
     (let expected =
        [[True, True, True, True, False],
         [True, True, False, False, False],
         [True, False, True, False, False],
         [True, False, False, False, False],
         [False, False, False, False, False]]
      in list_all (\<lambda>(i, a). list_all (\<lambda>(j, b). compatible_with a b = expected ! i ! j) (enumerate 0 all_modes))
           (enumerate 0 all_modes))"

definition test_compatible_is_symmetric :: bool where
  "test_compatible_is_symmetric \<longleftrightarrow> each (\<lambda>a. each (\<lambda>b. compatible_with a b = compatible_with b a))"

definition test_exclusive_incompatible_with_all :: bool where
  "test_exclusive_incompatible_with_all \<longleftrightarrow>
     each (\<lambda>m. \<not> compatible_with Exclusive m \<and> \<not> compatible_with m Exclusive)"

definition test_intention_shared_compatible_with_all_but_exclusive :: bool where
  "test_intention_shared_compatible_with_all_but_exclusive \<longleftrightarrow>
     each (\<lambda>m. compatible_with IntentionShared m = (m \<noteq> Exclusive))"

definition test_join_is_commutative :: bool where
  "test_join_is_commutative \<longleftrightarrow> each (\<lambda>a. each (\<lambda>b. join a b = join b a))"

definition test_join_is_associative :: bool where
  "test_join_is_associative \<longleftrightarrow> each (\<lambda>a. each (\<lambda>b. each (\<lambda>c. join (join a b) c = join a (join b c))))"

definition test_join_idempotent :: bool where
  "test_join_idempotent \<longleftrightarrow> each (\<lambda>m. join m m = m)"

definition test_join_examples :: bool where
  "test_join_examples \<longleftrightarrow>
     join Shared IntentionExclusive = SharedIntentionExclusive
     \<and> join IntentionShared Shared = Shared
     \<and> join IntentionShared IntentionExclusive = IntentionExclusive
     \<and> join Shared Exclusive = Exclusive
     \<and> join SharedIntentionExclusive Exclusive = Exclusive"

definition test_covers_is_join_equals_self :: bool where
  "test_covers_is_join_equals_self \<longleftrightarrow> each (\<lambda>a. each (\<lambda>b. covers a b = (join a b = a)))"

definition test_exclusive_covers_everything :: bool where
  "test_exclusive_covers_everything \<longleftrightarrow> each (\<lambda>m. covers Exclusive m)"

definition test_six_covers_its_components :: bool where
  "test_six_covers_its_components \<longleftrightarrow>
     covers SharedIntentionExclusive Shared
     \<and> covers SharedIntentionExclusive IntentionExclusive
     \<and> covers SharedIntentionExclusive IntentionShared
     \<and> \<not> covers SharedIntentionExclusive Exclusive"

definition test_covers_reflexive :: bool where
  "test_covers_reflexive \<longleftrightarrow> each (\<lambda>m. covers m m)"

definition test_is_exclusive_and_is_intention :: bool where
  "test_is_exclusive_and_is_intention \<longleftrightarrow>
     is_exclusive Exclusive \<and> \<not> is_exclusive Shared
     \<and> list_all is_intention [IntentionShared, IntentionExclusive, SharedIntentionExclusive]
     \<and> \<not> is_intention Shared \<and> \<not> is_intention Exclusive"

definition test_two_compatible_modes_join_below_any_conflict :: bool where
  "test_two_compatible_modes_join_below_any_conflict \<longleftrightarrow>
     each (\<lambda>a. each (\<lambda>b. if compatible_with a b then \<not> (is_exclusive a \<and> is_exclusive b) else True))"

section \<open>Identifiers and errors\<close>

definition test_txn_roundtrip_through_u64 :: bool where
  "test_txn_roundtrip_through_u64 \<longleftrightarrow>
     (let t = TxnId_new (- 1) in TxnId_get t = - 1 \<and> u64_from_TxnId t = - 1 \<and> TxnId_from_u64 7 = TxnId_new 7)"

definition test_resource_roundtrip_through_u64 :: bool where
  "test_resource_roundtrip_through_u64 \<longleftrightarrow>
     (let r = ResourceId_new 0 in ResourceId_get r = 0 \<and> u64_from_ResourceId r = 0 \<and> ResourceId_from_u64 7 = ResourceId_new 7)"

definition test_distinct_ids_are_unequal :: bool where
  "test_distinct_ids_are_unequal \<longleftrightarrow> TxnId_new 1 \<noteq> TxnId_new 2 \<and> ResourceId_new 1 \<noteq> ResourceId_new 2"

definition test_ids_are_ordered_by_value :: bool where
  "test_ids_are_ordered_by_value \<longleftrightarrow> TxnId_new 1 < TxnId_new 2 \<and> ResourceId_new 1 < ResourceId_new 2"

definition test_display_messages_are_distinct_and_nonempty :: bool where
  "test_display_messages_are_distinct_and_nonempty \<longleftrightarrow>
     (let conflict = LockError_fmt Conflict; not_held = LockError_fmt NotHeld
      in conflict \<noteq> [] \<and> not_held \<noteq> [] \<and> conflict \<noteq> not_held)"

definition test_variants_compare_equal_to_themselves :: bool where
  "test_variants_compare_equal_to_themselves \<longleftrightarrow> Conflict = Conflict \<and> Conflict \<noteq> NotHeld"

section \<open>Key ranges\<close>

text \<open>\<open>KeyRange::new(a, b).unwrap()\<close>, which makes the test fail when there is no such range.\<close>

definition with_range :: "u64 \<Rightarrow> u64 \<Rightarrow> (KeyRange \<Rightarrow> bool) \<Rightarrow> bool" where
  "with_range a b P = (case KeyRange_new a b of Some r \<Rightarrow> P r | None \<Rightarrow> False)"

definition test_new_rejects_inverted_range :: bool where
  "test_new_rejects_inverted_range \<longleftrightarrow>
     KeyRange_new 5 4 = None \<and> KeyRange_new 4 4 \<noteq> None \<and> KeyRange_new 4 5 \<noteq> None"

definition test_point_is_single_key :: bool where
  "test_point_is_single_key \<longleftrightarrow>
     (let p = KeyRange_point 7
      in (KeyRange_start p, KeyRange_end p) = (7, 7) \<and> contains p 7 \<and> \<not> contains p 6 \<and> \<not> contains p 8)"

definition test_contains_bounds_inclusive :: bool where
  "test_contains_bounds_inclusive \<longleftrightarrow> with_range 10 20 (\<lambda>r.
     contains r 10 \<and> contains r 15 \<and> contains r 20 \<and> \<not> contains r 9 \<and> \<not> contains r 21)"

definition test_overlap_is_symmetric :: bool where
  "test_overlap_is_symmetric \<longleftrightarrow> with_range 10 20 (\<lambda>a.
     list_all (\<lambda>(lo, hi). with_range lo hi (\<lambda>b. overlaps a b = overlaps b a))
       [(0, 9), (0, 10), (15, 25), (20, 30), (21, 30), (5, 25)])"

definition test_adjacent_ranges_overlap_at_shared_bound :: bool where
  "test_adjacent_ranges_overlap_at_shared_bound \<longleftrightarrow>
     with_range 10 20 (\<lambda>a. with_range 20 30 (\<lambda>b. overlaps a b))
     \<and> with_range 10 20 (\<lambda>a. with_range 21 30 (\<lambda>b. \<not> overlaps a b))"

definition test_contained_range_overlaps :: bool where
  "test_contained_range_overlaps \<longleftrightarrow>
     with_range 0 100 (\<lambda>outer. with_range 40 60 (\<lambda>inner. overlaps outer inner \<and> overlaps inner outer))"

definition test_max_key_has_no_overflow :: bool where
  "test_max_key_has_no_overflow \<longleftrightarrow>
     (let r = KeyRange_point (- 1) in contains r (- 1) \<and> with_range 0 (- 1) (\<lambda>b. overlaps r b))"

section \<open>The wait-for graph\<close>

text \<open>
  The graphs are built with \<open>add_wait\<close> (\<open>graph_of_edges\<close> of \<open>Kahn\<close>); \<open>ord\<close> is the order in which
  the map of the graph yields its keys.
\<close>

definition with_cycle :: "TxnId list option \<Rightarrow> (TxnId list \<Rightarrow> bool) \<Rightarrow> bool" where
  "with_cycle c P = (case c of Some cycle \<Rightarrow> P cycle | None \<Rightarrow> False)"

type_synonym txn_order = "TxnId set \<Rightarrow> TxnId list"

definition test_empty_graph_has_no_cycle :: "txn_order \<Rightarrow> bool" where
  "test_empty_graph_has_no_cycle ord \<longleftrightarrow> is_empty WaitForGraph_new \<and> detect_cycle ord WaitForGraph_new = None"

definition test_self_edge_ignored :: "txn_order \<Rightarrow> bool" where
  "test_self_edge_ignored ord \<longleftrightarrow>
     (let g = graph_of_edges [(1, 1)] in is_empty g \<and> detect_cycle ord g = None)"

definition test_chain_has_no_cycle :: "txn_order \<Rightarrow> bool" where
  "test_chain_has_no_cycle ord \<longleftrightarrow> detect_cycle ord (graph_of_edges [(1, 2), (2, 3), (3, 4)]) = None"

definition test_two_cycle_detected :: "txn_order \<Rightarrow> bool" where
  "test_two_cycle_detected ord \<longleftrightarrow> with_cycle (detect_cycle ord (graph_of_edges [(1, 2), (2, 1)])) (\<lambda>cycle.
     length cycle = 2 \<and> TxnId_new 1 \<in> set cycle \<and> TxnId_new 2 \<in> set cycle)"

definition test_three_cycle_detected :: "txn_order \<Rightarrow> bool" where
  "test_three_cycle_detected ord \<longleftrightarrow>
     with_cycle (detect_cycle ord (graph_of_edges [(1, 2), (2, 3), (3, 1)])) (\<lambda>cycle. length cycle = 3)"

definition test_cycle_from_unknown_txn_is_none :: bool where
  "test_cycle_from_unknown_txn_is_none \<longleftrightarrow> cycle_from (graph_of_edges [(1, 2), (2, 1)]) (TxnId_new 99) = None"

definition test_cycle_from_finds_cycle_containing_start :: bool where
  "test_cycle_from_finds_cycle_containing_start \<longleftrightarrow>
     with_cycle (cycle_from (graph_of_edges [(1, 2), (2, 3), (3, 2)]) (TxnId_new 1)) (\<lambda>cycle.
       TxnId_new 2 \<in> set cycle \<and> TxnId_new 3 \<in> set cycle \<and> TxnId_new 1 \<notin> set cycle)"

definition test_clear_waiter_breaks_cycle :: "txn_order \<Rightarrow> bool" where
  "test_clear_waiter_breaks_cycle ord \<longleftrightarrow>
     detect_cycle ord (clear_waiter (graph_of_edges [(1, 2), (2, 1)]) (TxnId_new 1)) = None"

definition test_remove_txn_drops_incoming_and_outgoing :: "txn_order \<Rightarrow> bool" where
  "test_remove_txn_drops_incoming_and_outgoing ord \<longleftrightarrow>
     (let g = remove_txn (graph_of_edges [(1, 2), (2, 1), (3, 2)]) (TxnId_new 2)
      in detect_cycle ord g = None \<and> cycle_from g (TxnId_new 3) = None)"

definition test_diamond_no_cycle :: "txn_order \<Rightarrow> bool" where
  "test_diamond_no_cycle ord \<longleftrightarrow>
     detect_cycle ord (graph_of_edges [(1, 2), (1, 3), (2, 4), (3, 4)]) = None"

definition test_pick_victim_policies :: bool where
  "test_pick_victim_policies \<longleftrightarrow>
     (let cycle = [TxnId_new 3, TxnId_new 7, TxnId_new 5]
      in pick_victim cycle Youngest = Some (TxnId_new 7) \<and> pick_victim cycle Oldest = Some (TxnId_new 3)
         \<and> pick_victim [] Youngest = None)"

definition test_detected_cycle_is_an_actual_cycle :: "txn_order \<Rightarrow> bool" where
  "test_detected_cycle_is_an_actual_cycle ord \<longleftrightarrow>
     (let g = graph_of_edges [(1, 2), (2, 3), (3, 1)] in
      with_cycle (detect_cycle ord g) (\<lambda>cycle.
        list_all (\<lambda>i. case fmlookup (edges g) (cycle ! i) of
            Some targets \<Rightarrow> cycle ! ((i + 1) mod length cycle) \<in> set targets
          | None \<Rightarrow> False) [0..<length cycle]))"

definition test_default_policy_is_youngest :: bool where
  "test_default_policy_is_youngest \<longleftrightarrow> VictimPolicy_default = Youngest"

section \<open>All tests\<close>

definition mode_tests :: "bool list" where
  "mode_tests =
     [test_compatibility_matches_standard_mgl_matrix, test_compatible_is_symmetric, test_exclusive_incompatible_with_all,
      test_intention_shared_compatible_with_all_but_exclusive, test_join_is_commutative, test_join_is_associative,
      test_join_idempotent, test_join_examples, test_covers_is_join_equals_self, test_exclusive_covers_everything,
      test_six_covers_its_components, test_covers_reflexive, test_is_exclusive_and_is_intention,
      test_two_compatible_modes_join_below_any_conflict]"

definition data_tests :: "bool list" where
  "data_tests =
     [test_txn_roundtrip_through_u64, test_resource_roundtrip_through_u64, test_distinct_ids_are_unequal,
      test_ids_are_ordered_by_value, test_display_messages_are_distinct_and_nonempty,
      test_variants_compare_equal_to_themselves, test_new_rejects_inverted_range, test_point_is_single_key,
      test_contains_bounds_inclusive, test_overlap_is_symmetric, test_adjacent_ranges_overlap_at_shared_bound,
      test_contained_range_overlaps, test_max_key_has_no_overflow]"

definition graph_tests :: "txn_order \<Rightarrow> bool list" where
  "graph_tests ord =
     [test_empty_graph_has_no_cycle ord, test_self_edge_ignored ord, test_chain_has_no_cycle ord,
      test_two_cycle_detected ord, test_three_cycle_detected ord, test_cycle_from_unknown_txn_is_none,
      test_cycle_from_finds_cycle_containing_start, test_clear_waiter_breaks_cycle ord,
      test_remove_txn_drops_incoming_and_outgoing ord, test_diamond_no_cycle ord, test_pick_victim_policies,
      test_detected_cycle_is_an_actual_cycle ord, test_default_policy_is_youngest]"

lemma all_tests_True:
  "list_all id mode_tests" "list_all id data_tests" "list_all id (graph_tests sorted_list_of_set)"
  "list_all id (graph_tests (\<lambda>S. rev (sorted_list_of_set S)))"
  by code_simp+

text \<open>
  The model passes the unit tests of the modes, the identifiers, the errors, the key ranges and
  the wait-for graph, the latter with the keys of the map in increasing and in decreasing order.
\<close>

theorem component_tests_pass:
  "list_all id (mode_tests @ data_tests @ graph_tests sorted_list_of_set
     @ graph_tests (\<lambda>S. rev (sorted_list_of_set S)))"
  using all_tests_True by simp

end
