(* ===== verification/Spec2Isabelle.thy ===== *)
theory Spec2Isabelle
  imports Mode Ids Key_Range Wait_Graph_Props Construction Ref_Model Manager_Props Deadlock_Props Hierarchy
    Thread_Props One_Table Kahn Ref_Checks Mutual_Exclusion Unit_Tests Component_Tests
begin

text \<open>
  Verification of \<open>lock-db\<close>, a lock manager with deadlock detection for databases (Rust).

  \<^bold>\<open>The program.\<close>  A \<open>LockManager\<close> (\<open>src/src/manager.rs\<close>) maps resources to the transactions that
  hold them, each in one of five modes (\<open>src/src/mode.rs\<close>), and key spaces to the ranges locked in them
  (\<open>src/src/range.rs\<close>).  The table is split into a power of two of shards, chosen by Fibonacci hashing;
  every shard has two tables (point locks, range locks) and a reverse index for each.  \<open>try_acquire\<close>,
  \<open>release\<close>, \<open>try_acquire_range\<close>, \<open>release_range\<close> work on one shard, \<open>release_all\<close> on all of them.
  \<open>request\<close> registers the wait of a refused transaction, builds a wait-for graph
  (\<open>src/src/deadlock.rs\<close>) from all registered waits and the table, and searches it for a cycle; the
  client aborts the named victim.

  \<^bold>\<open>The theories.\<close>
  \<^item> \<open>LockDb_Prelude\<close>: machine integers, \<open>Vec\<close> and \<open>HashMap\<close> operations, results, and three generic
    interfaces: \<open>invariant_machine\<close> (steps that keep an invariant), \<open>simulation\<close> (a program step that
    a reference model predicts) and \<open>guarded_simulation\<close> (the same for the steps that a guard admits).
  \<^item> \<open>Mode\<close>, \<open>Ids\<close>, \<open>Key_Range\<close>: the value types of \<open>mode.rs\<close>, \<open>id.rs\<close>, \<open>error.rs\<close>, \<open>range.rs\<close>, method
    by method.  The interface \<open>mode_lattice\<close> collects what the manager relies on: a join semilattice
    and a symmetric compatibility that distributes over the join.
  \<^item> \<open>Wait_Graph\<close>: \<open>deadlock.rs\<close>, with the iterative depth-first search as a loop over the source's
    three variables (marks, path, stack) and a measure for its termination.  \<open>Cycle_Search\<close>: the loop
    invariant and the interface \<open>cycle_finder\<close>.  \<open>Wait_Graph_Props\<close>: the properties of the component.
  \<^item> \<open>Shard\<close>: the data of a shard and the critical section of each operation, as functions from the
    shard's state to a result and a new state.  \<open>Holder_Table\<close>: what both tables share (conflict
    freedom, an index that lists exactly what is held), as the interface \<open>indexed_table\<close>, interpreted
    for both.  \<open>Shard_Inv\<close>, \<open>Shard_Ops\<close>, \<open>Shard_Release_All\<close>: the invariant of a shard and the
    effect of each section on two views, the mode held by a transaction and the ranges of a space.
  \<^item> \<open>Manager\<close>: construction, routing, and the public operations, composed from the sections as the
    source composes them.  \<open>Manager_Inv\<close>: the invariant of the whole table and the lemma that lifts
    a section to the manager; above it, shards disappear.  \<open>Manager_Ops\<close>: result and effect of every
    operation.  \<open>Construction\<close>, \<open>Manager_Props\<close>: the properties.
  \<^item> \<open>Ref_Model\<close>: the reference models of \<open>src/tests/properties.rs\<close> as abstract specifications, and the
    proof that the manager simulates them.
  \<^item> \<open>Detection\<close>: the wait-for relation that waits and table define; the graph built has exactly its
    edges.  \<open>Calls\<close>: all state-changing operations as one type, and reachable managers.
    \<open>Deadlock_Freedom\<close>, \<open>Deadlock_Props\<close>: which calls keep the relation acyclic, genuineness of a
    report, what aborting achieves, progress.
  \<^item> \<open>Hierarchy\<close>: the multi-granularity protocol of the crate's documentation and its soundness, with
    the calls of \<open>src/examples/hierarchy.rs\<close>.
  \<^item> \<open>Threads\<close>: the same operations as trees of instructions on the mutexes of the shards and of the
    registry of waits, and systems of threads that run them, interleaved instruction by instruction.
    \<open>Thread_Discipline\<close>: typing rules for the order of locking, preserved by every step; progress and
    termination.  \<open>Thread_Effects\<close>: every write keeps the invariant and touches the calling transaction
    only, so the invariant holds between any two instructions.  \<open>Thread_Atomic\<close>: the interface
    \<open>commitment\<close> for operations that take effect once; an operation with one critical section is atomic,
    and \<open>release_all\<close> is for its transaction.  \<open>Thread_Clients\<close>: the
    discipline that the documentation asks of clients, and what stands still under it.
    \<open>Thread_Requests\<close>: \<open>request\<close> decides once, as an instance of \<open>commitment\<close>, and answers the truth about
    the lock of the requester.  \<open>Thread_Detection\<close>, \<open>Thread_Deadlock\<close>: detection, which reads one shard after the other, is
    exact all the same, and misses no deadlock; the interface \<open>sources\<close> says when a part of a relation
    has all its cycles.  \<open>Thread_Runs\<close>, \<open>Thread_Props\<close>: concrete schedules, and the properties.
  \<^item> \<open>One_Table\<close>: the specification of the whole manager as one table without shards, over all public
    operations and questions, and the proof that the sharded manager refines it, so that the number of
    shards cannot be observed.  It asks that a transaction takes a given range in one mode;
    \<open>two_modes_see_shards\<close> shows why: with two modes, \<open>release_range\<close> may drop either.
  \<^item> \<open>Kahn\<close>: the independent cycle check of \<open>src/tests/properties.rs\<close> and its agreement with the search
    of the wait-for graph.  \<open>Ref_Checks\<close>: the other checks of that file.
  \<^item> \<open>Client_Programs\<close>: the programs of \<open>src/examples\<close> as scripts, which call an operation and go on
    with its answer, alone or as threads.  A script sees the manager through its answers only, so by
    \<open>One_Table\<close> and the independence of the iteration order (\<open>Detection\<close>) it is enough to run one on one
    number of shards, in one order.  \<open>Guarded_Scripts\<close>: the interface
    \<open>guarded_scripts\<close> for teams of threads that are ready for every answer the manager can give them.
    \<open>Mutual_Exclusion\<close>: its two instances, the concurrent example and the concurrent unit tests.
  \<^item> \<open>Unit_Tests\<close>, \<open>Component_Tests\<close>: the unit tests of \<open>manager.rs\<close>, as scripts, and of the other
    modules, as truth values, each under its name in the source.

  \<^bold>\<open>How the model corresponds to the code.\<close>  A struct is a record, an enum a datatype, \<open>u64\<close> and \<open>usize\<close>
  are 64-bit words (a 64-bit target), and \<open>Result\<close> is a sum.  Counters and lengths, which are bounded
  by memory, are natural numbers.  A \<open>HashMap\<close> is a finite map; where the code iterates over one, the
  order is the argument \<open>ord\<close>, and the theorems hold for every order that lists the keys
  (\<open>key_order\<close>).  A mutable reference into a map is written back with \<open>fmupd\<close>.  Panics are the value
  \<open>None\<close> of an outer option; \<open>calls_never_panic\<close> shows that no reachable manager panics.  The
  environment is a parameter: overflow checks on or off (\<open>oc\<close>), for which lengths \<open>Vec::with_capacity\<close>
  provides a vector of shards (\<open>alloc\<close>),
  and the number of CPUs (\<open>par\<close>).  No fuel is used anywhere: every loop of the crate is structural or comes
  with a termination proof.  The loop of the reference algorithm \<open>has_cycle\<close> is a partial function, for
  which \<open>has_cycle_acyclic\<close> shows that it returns.

  \<^bold>\<open>What the theorems show.\<close>  Two transactions never hold incompatible locks, on points, on
  overlapping ranges, or, under the protocol, anywhere in a hierarchy.  Every operation does exactly
  what it documents on every branch, the error branches included, and leaves all other locks alone;
  the sharded table behaves like one map (\<open>manager_refines_table\<close>).  A deadlock is reported exactly when the wait-for relation
  has a cycle, a reported deadlock cannot resolve by itself, aborting the victim breaks it, runs that
  follow the documented discipline never contain an unreported deadlock, and without a deadlock some
  waiting transaction can be served.  The examples and the unit tests of the repository succeed, those
  with threads in every interleaving.  Hypotheses of the form \<open>reachable ord mg\<close> are met by every
  manager that \<open>with_shards\<close> and any calls produce.

  \<^bold>\<open>Concurrency.\<close>  A mutex is a place in \<open>owner\<close> and its contents a part of \<open>mgr\<close>; locking waits while
  somebody owns the mutex, and unlocking stands where the source drops a guard.  The work done under
  one guard is one instruction: nobody else can see its intermediate states, because all data of a
  shard is reached through its mutex (\<open>lock_discipline\<close>).  Weak memory is not an issue for the same
  reason.  The clients' discipline (\<open>client_ok\<close>) is that one thread at a time works for a transaction,
  and that a registered transaction takes and returns no point locks except through \<open>request\<close>,
  \<open>cancel_wait\<close> and \<open>release_all\<close>; the theorems that do not mention it need none.

  \<^bold>\<open>Not modelled.\<close>  \<open>lock\<close> and \<open>lock_waits\<close> recover the contents of a poisoned mutex, so poisoning has
  no state of its own; a mutex is modelled by its contents and its owner.  \<open>Debug\<close> output,
  serialisation derives, re-exports, what the examples print, and the benchmarks carry no logic of their
  own.  The generators of the property tests choose inputs; the theorems hold for all inputs.  The
  scenarios of \<open>src/tests/loom.rs\<close> and \<open>src/tests/stress.rs\<close> are not translated one by one: the theorems
  about \<open>Threads\<close> hold for every program and every schedule.
\<close>

end
